(* ===== verification/Ext2_Prelude.thy ===== *)
theory Ext2_Prelude
  imports Main "HOL-Library.Word"
begin

text \<open>
  Shared vocabulary of the development: the machine integer types of the LP64
  (x86\_64) kernel build, the C conversions between them, the outcome of a kernel
  routine that may call \<^verbatim>\<open>panic()\<close>, and the generic facts on lists, sums and words
  that the component theories use.

  Unsigned C values are natural numbers below the power of two of their width, or
  words where they are stored and updated in place; signed C values are integers.
  \<open>ulong\<close>, \<open>uint32\<close> and \<open>int32\<close> are the implicit conversions of the language.
\<close>

unbundle bit_operations_syntax

named_theorems outcome_simps \<open>inversion of sequenced kernel routines\<close>
named_theorems cint_simps \<open>C conversions that do not change a value in range\<close>

type_synonym u8 = "8 word"
type_synonym u16 = "16 word"
type_synonym u32 = "32 word"
type_synonym u64 = "64 word"

section \<open>Routines that may panic\<close>

text \<open>
  A call of \<^verbatim>\<open>panic()\<close> never returns. Each constructor of \<open>panic\<close> is one panic message
  of the modelled sources; \<open>Divide_error\<close> is the processor's trap on a zero divisor
  and \<open>Wild_pointer\<close> the use of a pointer that was never set.
\<close>

datatype panic =
    Group_out_of_range
  | Desc_not_loaded
  | Cannot_read_bitmap
  | Bitmap_number_mismatch
  | Free_across_group
  | Free_in_system_zone
  | Alloc_in_system_zone
  | Vfree_range
  | Balloc_wrong
  | Itrunc_newspace
  | Divide_error
  | Magic_spoiled
  | Wild_pointer
  | Dirbad
  | Compact_space
  | Newblk
  | Frag_size

datatype 'a outcome = Return 'a | Panic panic

primrec bindp :: "'a outcome \<Rightarrow> ('a \<Rightarrow> 'b outcome) \<Rightarrow> 'b outcome" where
  "bindp (Return x) f = f x"
| "bindp (Panic p) f = Panic p"

text \<open>
  A routine with a loop that may not end gives an \<^typ>\<open>'a outcome option\<close>, where \<open>None\<close>
  stands for not returning. The error numbers are those the modelled routines return.
\<close>

definition bindo :: "'a outcome option \<Rightarrow> ('a \<Rightarrow> 'b outcome option) \<Rightarrow> 'b outcome option" where
  "bindo m f = (case m of None \<Rightarrow> None | Some (Panic p) \<Rightarrow> Some (Panic p) | Some (Return x) \<Rightarrow> f x)"

datatype errno = EPERM | ENOENT | EIO | ENXIO | EEXIST | ENOTDIR | EISDIR | EINVAL | EFBIG | ENOSPC
  | EROFS | EMLINK | ENOTEMPTY | ENOTSUP | ENAMETOOLONG

lemma bindo_simps [simp]:
  "bindo None f = None" "bindo (Some (Panic p)) f = Some (Panic p)" "bindo (Some (Return x)) f = f x"
  by (simp_all add: bindo_def)

lemma bindp_Return_iff [outcome_simps]:
  "bindp m f = Return y \<longleftrightarrow> (\<exists>x. m = Return x \<and> f x = Return y)"
  by (cases m) auto

lemma bindp_assoc: "bindp (bindp m f) g = bindp m (\<lambda>x. bindp (f x) g)"
  by (cases m) auto

section \<open>C conversions\<close>

definition ulong :: "int \<Rightarrow> nat" where
  "ulong x = nat (x mod 2 ^ 64)"

definition uint32 :: "int \<Rightarrow> nat" where
  "uint32 x = nat (x mod 2 ^ 32)"

definition int32 :: "int \<Rightarrow> int" where
  "int32 x = (x + 2 ^ 31) mod 2 ^ 32 - 2 ^ 31"

lemma ulong_id [cint_simps]: "n < 2 ^ 64 \<Longrightarrow> ulong (int n) = n"
  by (simp add: ulong_def)

lemma ulong_nonneg [cint_simps]: "0 \<le> x \<Longrightarrow> x < 2 ^ 64 \<Longrightarrow> ulong x = nat x"
  by (simp add: ulong_def)

lemma ulong_pred: "0 < b \<Longrightarrow> a + b < 2 ^ 64 \<Longrightarrow> ulong (int a + int b - 1) = a + b - 1"
  using ulong_id [of "a + b - 1"] by (simp add: of_nat_diff)

lemma uint32_id [cint_simps]: "n < 2 ^ 32 \<Longrightarrow> uint32 (int n) = n"
  by (simp add: uint32_def)

lemma int32_id [cint_simps]: "- (2 ^ 31) \<le> x \<Longrightarrow> x < 2 ^ 31 \<Longrightarrow> int32 x = x"
  by (simp add: int32_def)

lemma int32_range: "- (2 ^ 31) \<le> int32 x" "int32 x < 2 ^ 31"
  by (simp_all add: int32_def)

lemma uint32_bound: "uint32 x < 2 ^ 32"
  by (simp add: uint32_def nat_less_iff)

lemma uint32_int32: "uint32 (int32 x) = uint32 x"
  by (simp add: uint32_def int32_def mod_diff_left_eq)

section \<open>Lists\<close>

lemma length_filter_update_count:
  assumes "i < length xs"
  shows "length (filter P (xs[i := x])) + (if P (xs ! i) then 1 else 0)
         = length (filter P xs) + (if P x then 1 else 0)"
  using assms
proof (induction xs arbitrary: i)
  case Nil
  then show ?case by simp
next
  case (Cons y ys)
  then show ?case by (cases i) (auto split: if_splits)
qed

lemma sum_list_map_upd:
  fixes f :: "nat \<Rightarrow> nat"
  assumes "i < n"
  shows "(\<Sum>k<n. (f(i := v)) k) + f i = (\<Sum>k<n. f k) + v"
proof -
  have "(\<Sum>k<n. (f(i := v)) k) = v + (\<Sum>k \<in> {..<n} - {i}. (f(i := v)) k)"
    using assms by (subst sum.remove [of _ i]) auto
  moreover have "(\<Sum>k<n. f k) = f i + (\<Sum>k \<in> {..<n} - {i}. f k)"
    using assms by (subst sum.remove [of _ i]) auto
  moreover have "(\<Sum>k \<in> {..<n} - {i}. (f(i := v)) k) = (\<Sum>k \<in> {..<n} - {i}. f k)"
    by (rule sum.cong) auto
  ultimately show ?thesis by simp
qed

lemma all_less_2: "(\<forall>g < (2::nat). P g) \<longleftrightarrow> P 0 \<and> P (Suc 0)"
  by (auto simp: less_2_cases_iff)

lemma sum_less_2: "(\<Sum>g < (2::nat). f g) = f 0 + f (Suc 0)" for f :: "nat \<Rightarrow> nat"
  by (simp add: numeral_2_eq_2)

section \<open>Words\<close>

lemma unat_minus_le [cint_simps]:
  fixes a b :: "'a::len word"
  shows "b \<le> a \<Longrightarrow> unat (a - b) = unat a - unat b"
  by (simp add: unat_sub)

lemma unat_plus_no_wrap [cint_simps]:
  fixes a b :: "'a::len word"
  shows "unat a + unat b < 2 ^ LENGTH('a) \<Longrightarrow> unat (a + b) = unat a + unat b"
  by (simp add: unat_add_lem)

lemma sint_of_nat_small: "k < 2 ^ 31 \<Longrightarrow> sint (of_nat k :: u32) = int k"
  by (simp add: signed_of_nat signed_take_bit_int_eq_self)

lemma ucast_down_add: "(ucast (a + b :: u64) :: u32) = ucast a + ucast b"
  by transfer (subst (2) take_bit_add [symmetric], simp add: take_bit_add)

lemma ucast_down_diff: "(ucast (a - b :: u64) :: u32) = ucast a - ucast b"
  by transfer (subst (2) take_bit_diff [symmetric], simp add: take_bit_diff)

lemma ucast_down_mult: "(ucast (a * b :: u64) :: u32) = ucast a * ucast b"
  by transfer (subst (2) take_bit_mult [symmetric], simp add: take_bit_mult)

lemma ucast_down_of_nat: "(ucast (of_nat n :: u64) :: u32) = of_nat n"
  by transfer simp

lemma ucast_up_down: "(ucast (ucast (w :: u32) :: u64) :: u32) = w"
  by transfer simp


lemma unat_minus_of_nat: "n \<le> unat (a :: 'a::len word) \<Longrightarrow> unat (a - of_nat n) = unat a - n"
proof -
  assume n: "n \<le> unat a"
  then have "n < 2 ^ LENGTH('a)" using unsigned_less by (rule le_less_trans)
  then have "unat (of_nat n :: 'a word) = n" by (simp add: unsigned_of_nat take_bit_nat_eq_self)
  then show ?thesis using n by (simp add: unat_sub word_le_nat_alt)
qed

lemma unat_plus_of_nat:
  "unat (a :: 'a::len word) + n < 2 ^ LENGTH('a) \<Longrightarrow> unat (a + of_nat n) = unat a + n"
proof -
  assume n: "unat a + n < 2 ^ LENGTH('a)"
  then have "unat (of_nat n :: 'a word) = n" by (simp add: unsigned_of_nat take_bit_nat_eq_self)
  then show ?thesis using n by (simp add: unat_plus_no_wrap)
qed

section \<open>Walking round a cycle\<close>

lemma cyclic_Suc:
  fixes i' i N n :: nat
  assumes "i' = (i + 1) mod N" "\<forall>k. 1 \<le> k \<and> k \<le> n \<longrightarrow> P ((i' + k) mod N)" "P i'"
  shows "\<forall>k. 1 \<le> k \<and> k \<le> Suc n \<longrightarrow> P ((i + k) mod N)"
proof (intro allI impI)
  fix k assume k: "1 \<le> k \<and> k \<le> Suc n"
  show "P ((i + k) mod N)"
  proof (cases "k = 1")
    case True
    then show ?thesis using assms(1,3) by simp
  next
    case False
    have "(i' + (k - 1)) mod N = (i + 1 + (k - 1)) mod N" unfolding assms(1) by (rule mod_add_left_eq)
    then have "(i' + (k - 1)) mod N = (i + k) mod N" using k by simp
    moreover have "1 \<le> k - 1 \<and> k - 1 \<le> n" using k False by linarith
    then have "P ((i' + (k - 1)) mod N)" using assms(2) by blast
    ultimately show ?thesis by simp
  qed
qed

lemma cyclic_all:
  assumes "i < N" "g < N" "\<forall>k. 1 \<le> k \<and> k \<le> N \<longrightarrow> P ((i + k) mod N)"
  shows "P (g :: nat)"
proof -
  let ?k = "if g > i then g - i else g + N - i"
  have "1 \<le> ?k" "?k \<le> N" "(i + ?k) mod N = g" using assms(1,2) by auto
  then show ?thesis using assms(3) by metis
qed

lemma unat_of_nat_small: "n < 2 ^ 32 \<Longrightarrow> unat (of_nat n :: u32) = n"
  by (simp add: unat_of_nat)

lemma int32_int [cint_simps]: "n < 2 ^ 31 \<Longrightarrow> int32 (int n) = int n"
  by (simp add: int32_id)

end
