(* ===== verification/Ext2_Bitops.thy ===== *)
theory Ext2_Bitops
  imports Ext2_Prelude
begin

text \<open>
  The bit and byte searches of \<^verbatim>\<open>gnu/ext2fs/i386-bitops.h\<close> on the x86\_64 branch. A
  bitmap is the byte list of its buffer. Bytes past the end of the list are memory the
  model knows nothing about: \<open>d ! i\<close> is unspecified there, and every result below is
  stated for searches that stay inside the buffer.

  The second half gives the contract of a bitmap as the locale \<open>bit_store\<close>, proves the
  counting facts both allocators need inside it, and interprets it on the operations of
  the first half.
\<close>

section \<open>Single bits\<close>

text \<open>\<^verbatim>\<open>sbbl %0,%0\<close>: the carry flag as 0 or -1.\<close>

definition sbbl :: "bool \<Rightarrow> int" where
  "sbbl cf = (if cf then - 1 else 0)"

definition bm_bit :: "u8 list \<Rightarrow> nat \<Rightarrow> bool" where
  "bm_bit d nr = bit (d ! (nr div 8)) (nr mod 8)"

definition ext2_set_bit :: "nat \<Rightarrow> u8 list \<Rightarrow> int \<times> u8 list" where
  "ext2_set_bit nr d =
     (sbbl (bm_bit d nr), d[nr div 8 := set_bit (nr mod 8) (d ! (nr div 8))])"

definition ext2_clear_bit :: "nat \<Rightarrow> u8 list \<Rightarrow> int \<times> u8 list" where
  "ext2_clear_bit nr d =
     (sbbl (bm_bit d nr), d[nr div 8 := unset_bit (nr mod 8) (d ! (nr div 8))])"

definition change_bit :: "nat \<Rightarrow> u8 list \<Rightarrow> int \<times> u8 list" where
  "change_bit nr d =
     (sbbl (bm_bit d nr), d[nr div 8 := flip_bit (nr mod 8) (d ! (nr div 8))])"

definition ext2_test_bit :: "nat \<Rightarrow> u8 list \<Rightarrow> int" where
  "ext2_test_bit nr d = sbbl (bm_bit d nr)"

section \<open>Searches for a zero bit\<close>

text \<open>\<^verbatim>\<open>bsf\<close>: the index of the lowest set bit; 64 when there is none.\<close>

definition bsf :: "u64 \<Rightarrow> nat" where
  "bsf w = length (takeWhile (\<lambda>i. \<not> bit w i) [0..<64])"

definition ffz :: "u64 \<Rightarrow> nat" where
  "ffz w = bsf (NOT w)"

text \<open>The little endian load \<^verbatim>\<open>p[k]\<close> of an \<^verbatim>\<open>unsigned long\<close>.\<close>

definition rd64 :: "u8 list \<Rightarrow> nat \<Rightarrow> u64" where
  "rd64 d k = foldr (\<lambda>i w. push_bit (8 * i) (ucast (d ! (8 * k + i))) OR w) [0..<8] 0"

text \<open>
  \<^verbatim>\<open>find_first_zero_bit\<close> starting at the long \<open>p\<close> of the buffer. The loop condition
  \<^verbatim>\<open>size & ~63\<close> is \<open>64 \<le> sz\<close>.
\<close>

function ffzb_loop :: "u8 list \<Rightarrow> nat \<Rightarrow> nat \<Rightarrow> nat \<Rightarrow> nat" where
  "ffzb_loop d p result sz =
     (if 64 \<le> sz then
        let tmp = rd64 d p in
        if NOT tmp \<noteq> 0 then result + ffz tmp
        else ffzb_loop d (p + 1) (result + 64) (sz - 64)
      else if sz = 0 then result
      else
        let tmp = rd64 d p OR push_bit sz (- 1) in
        if tmp = - 1 then result + sz else result + ffz tmp)"
  by pat_completeness auto
termination by (relation "measure (\<lambda>(d, p, result, sz). sz)") auto

declare ffzb_loop.simps [simp del]

definition find_first_zero_bit_at :: "u8 list \<Rightarrow> nat \<Rightarrow> nat \<Rightarrow> nat" where
  "find_first_zero_bit_at d p sz = ffzb_loop d p 0 sz"

definition ext2_find_first_zero_bit :: "u8 list \<Rightarrow> nat \<Rightarrow> nat" where
  "ext2_find_first_zero_bit d sz = find_first_zero_bit_at d 0 sz"

text \<open>
  The remaining size \<^verbatim>\<open>size - 64 * (p - addr)\<close> is a \<^verbatim>\<open>long\<close> passed as an
  \<^verbatim>\<open>unsigned long\<close>: it wraps when the first word reaches past \<open>sz\<close>.
\<close>

definition ext2_find_next_zero_bit :: "u8 list \<Rightarrow> nat \<Rightarrow> nat \<Rightarrow> nat" where
  "ext2_find_next_zero_bit d sz offset =
     (let p = offset div 64; b = offset mod 64;
          first = bsf (NOT (drop_bit b (rd64 d p))) in
      if b \<noteq> 0 \<and> first < 64 - b then first + offset
      else
        let set = (if b \<noteq> 0 then 64 - b else 0);
            p' = (if b \<noteq> 0 then p + 1 else p);
            res = find_first_zero_bit_at d p' (ulong (int sz - 64 * int p')) in
        offset + set + res)"

section \<open>Byte search\<close>

fun scasb :: "u8 list \<Rightarrow> u8 \<Rightarrow> nat \<Rightarrow> nat \<Rightarrow> nat option" where
  "scasb d c i 0 = None"
| "scasb d c i (Suc n) = (if d ! i = c then Some i else scasb d c (Suc i) n)"

text \<open>
  \<^verbatim>\<open>memscan(base + off, c, size)\<close> as an address. On a hit \<^verbatim>\<open>rdi\<close> is one past the
  byte and \<^verbatim>\<open>dec %edi\<close> decrements only the low half, clearing the high half.
\<close>

definition memscan :: "u64 \<Rightarrow> u8 list \<Rightarrow> nat \<Rightarrow> u8 \<Rightarrow> nat \<Rightarrow> u64" where
  "memscan base d off c n =
     (if n = 0 then base + of_nat off
      else case scasb d c off n of
          Some i \<Rightarrow> ucast (ucast (base + of_nat i + 1) - 1 :: u32)
        | None \<Rightarrow> base + of_nat off + of_nat n)"

text \<open>\<^verbatim>\<open>(r - data) << 3\<close> stored in an \<^verbatim>\<open>int\<close>, as the callers of \<^verbatim>\<open>memscan\<close> do.\<close>

definition memscan_bitno :: "u64 \<Rightarrow> u64 \<Rightarrow> int" where
  "memscan_bitno r base = sint (ucast (push_bit 3 (r - base)) :: u32)"

section \<open>Specification functions\<close>

text \<open>The first clear bit of \<open>[lo, hi)\<close>, or \<open>hi\<close>, and the number of clear bits below \<open>n\<close>.\<close>

definition first_zero :: "u8 list \<Rightarrow> nat \<Rightarrow> nat \<Rightarrow> nat" where
  "first_zero d lo hi = lo + length (takeWhile (bm_bit d) [lo..<hi])"

definition count_zeros :: "(nat \<Rightarrow> bool) \<Rightarrow> nat \<Rightarrow> nat" where
  "count_zeros p n = length (filter (\<lambda>i. \<not> p i) [0..<n])"

section \<open>The searches find the first zero bit\<close>

lemma bsf_le: "bsf w \<le> 64"
  using length_takeWhile_le [of "\<lambda>i. \<not> bit w i" "[0..<64]"] by (simp add: bsf_def)

lemma bsf_bit: "bsf w < 64 \<Longrightarrow> bit w (bsf w)"
  using nth_length_takeWhile [of "\<lambda>i. \<not> bit w i" "[0..<64]"]
  by (simp add: bsf_def del: upt_rec_numeral)

lemma bsf_below: "i < bsf w \<Longrightarrow> \<not> bit w i"
proof -
  assume a: "i < bsf w"
  then have "\<not> bit w ([0..<64] ! i)"
    unfolding bsf_def by (metis (lifting) nth_mem set_takeWhileD takeWhile_nth)
  then show ?thesis using a bsf_le [of w] by (simp del: upt_rec_numeral)
qed

lemma bit_foldr_or:
  "bit (foldr (\<lambda>i w. f i OR w) is (0 :: 'a::len word)) n \<longleftrightarrow> (\<exists>i \<in> set is. bit (f i) n)"
  by (induction "is") (auto simp: bit_simps)

lemma bit_rd64: "bit (rd64 d k) n \<longleftrightarrow> n < 64 \<and> bm_bit d (64 * k + n)"
proof -
  have "64 * k + n = n + 8 * (8 * k)" by simp
  then have pos: "(64 * k + n) div 8 = 8 * k + n div 8" "(64 * k + n) mod 8 = n mod 8"
    by (simp_all only: div_mult_self2 mod_mult_self2 zero_neq_numeral [symmetric] not_False_eq_True add.commute)
  have byte: "8 * i \<le> n \<and> bit (w :: u8) (n - 8 * i) \<longleftrightarrow> i = n div 8 \<and> bit w (n mod 8)" for i w
  proof -
    have "bit w j \<Longrightarrow> j < 8" for j using bit_imp_le_length [of w j] by simp
    moreover have "8 * i \<le> n \<and> n - 8 * i < 8 \<longleftrightarrow> i = n div 8" by auto
    ultimately show ?thesis by (metis minus_mult_div_eq_mod)
  qed
  have one: "bit (push_bit (8 * i) (ucast (w :: u8)) :: u64) n \<longleftrightarrow> n < 64 \<and> 8 * i \<le> n \<and> bit w (n - 8 * i)" for i w
    by (auto simp: bit_simps)
  have lt8: "8 * i \<le> n \<Longrightarrow> n < 64 \<Longrightarrow> i \<in> set [0..<8]" for i by simp
  have "bit (rd64 d k) n \<longleftrightarrow> n < 64 \<and> (\<exists>i. 8 * i \<le> n \<and> bit (d ! (8 * k + i)) (n - 8 * i))"
    unfolding rd64_def bit_foldr_or one using lt8 by blast
  also have "\<dots> \<longleftrightarrow> n < 64 \<and> bm_bit d (64 * k + n)"
    using pos byte by (auto simp: bm_bit_def)
  finally show ?thesis .
qed

lemma first_zero_unique:
  assumes "lo \<le> k" "k \<le> hi" "\<And>i. lo \<le> i \<Longrightarrow> i < k \<Longrightarrow> bm_bit d i" "k < hi \<Longrightarrow> \<not> bm_bit d k"
  shows "first_zero d lo hi = k"
proof -
  have "[lo..<hi] = [lo..<k] @ [k..<hi]"
    using assms(1,2) by (metis le_add_diff_inverse upt_add_eq_append)
  moreover have "takeWhile (bm_bit d) ([lo..<k] @ [k..<hi]) = [lo..<k]"
    using assms by (subst takeWhile_append2) (auto simp: takeWhile_eq_Nil_iff)
  ultimately show ?thesis using assms(1) by (simp add: first_zero_def)
qed

lemma first_zero_bounds: "lo \<le> hi \<Longrightarrow> lo \<le> first_zero d lo hi \<and> first_zero d lo hi \<le> hi"
  using length_takeWhile_le [of "bm_bit d" "[lo..<hi]"] by (simp add: first_zero_def)

lemma first_zero_is_zero: "first_zero d lo hi < hi \<Longrightarrow> lo \<le> hi \<Longrightarrow> \<not> bm_bit d (first_zero d lo hi)"
  using nth_length_takeWhile [of "bm_bit d" "[lo..<hi]"] by (simp add: first_zero_def)

lemma first_zero_below: "lo \<le> i \<Longrightarrow> i < first_zero d lo hi \<Longrightarrow> bm_bit d i"
proof -
  assume a: "lo \<le> i" "i < first_zero d lo hi"
  then have "i - lo < length (takeWhile (bm_bit d) [lo..<hi])" by (simp add: first_zero_def)
  then have "bm_bit d ([lo..<hi] ! (i - lo))"
    by (metis nth_mem set_takeWhileD takeWhile_nth)
  then show ?thesis using a \<open>i - lo < _\<close> length_takeWhile_le [of "bm_bit d" "[lo..<hi]"] by simp
qed

lemma not_full_word: "(w :: u64) \<noteq> - 1 \<Longrightarrow> \<exists>k < 64. \<not> bit w k"
proof (rule ccontr)
  assume "w \<noteq> - 1" "\<not> (\<exists>k < 64. \<not> bit w k)"
  then have "w = - 1" by (intro bit_eqI) (auto simp: bit_simps)
  with \<open>w \<noteq> - 1\<close> show False by simp
qed

lemma ffz_spec:
  assumes "w \<noteq> - 1"
  shows "ffz w < 64" "\<not> bit w (ffz w)" "\<And>i. i < ffz w \<Longrightarrow> bit w i"
proof -
  obtain k where "k < 64" "bit (NOT w) k" using not_full_word [OF assms] by (auto simp: bit_simps)
  then show lt: "ffz w < 64"
    using bsf_below [of k "NOT w"] bsf_le [of "NOT w"] by (fastforce simp: ffz_def)
  show "\<not> bit w (ffz w)" using bsf_bit [of "NOT w"] lt by (simp add: ffz_def bit_simps)
  show "\<And>i. i < ffz w \<Longrightarrow> bit w i"
    using bsf_below [of _ "NOT w"] lt by (auto simp: ffz_def bit_simps)
qed

lemma first_zero_skip:
  assumes "lo \<le> mid" "mid \<le> hi" "\<And>i. lo \<le> i \<Longrightarrow> i < mid \<Longrightarrow> bm_bit d i"
  shows "first_zero d lo hi = first_zero d mid hi"
proof (rule first_zero_unique)
  let ?k = "first_zero d mid hi"
  have k: "mid \<le> ?k \<and> ?k \<le> hi" using assms(2) by (rule first_zero_bounds)
  then show "lo \<le> ?k" "?k \<le> hi" using assms(1) by simp_all
  show "bm_bit d i" if "lo \<le> i" "i < ?k" for i
    using that assms(3) first_zero_below [of mid i d hi] by (cases "i < mid") auto
  show "\<not> bm_bit d ?k" if "?k < hi" using first_zero_is_zero that assms(2) by blast
qed

lemma not_eq_0_word: "NOT w = 0 \<longleftrightarrow> w = (- 1 :: u64)"
  by (metis bit.compl_zero bit.double_compl)

lemma ffzb_loop_first_zero:
  "ffzb_loop d p r sz = r + (first_zero d (64 * p) (64 * p + sz) - 64 * p)"
proof (induction d p r sz rule: ffzb_loop.induct)
  case (1 d p r sz)
  let ?w = "rd64 d p" and ?v = "rd64 d p OR push_bit sz (- 1)"
  consider (big) "64 \<le> sz" "?w \<noteq> - 1" | (full) "64 \<le> sz" "?w = - 1" | (zero) "sz = 0"
    | (small) "0 < sz" "sz < 64" "?v \<noteq> - 1" | (none) "0 < sz" "sz < 64" "?v = - 1" by linarith
  then show ?case
  proof cases
    case big
    note f = ffz_spec [OF big(2)]
    have "first_zero d (64 * p) (64 * p + sz) = 64 * p + ffz ?w"
    proof (rule first_zero_unique)
      show "bm_bit d i" if "64 * p \<le> i" "i < 64 * p + ffz ?w" for i
        using f(3) [of "i - 64 * p"] that by (simp add: bit_rd64)
    qed (use f(1,2) big(1) in \<open>auto simp: bit_rd64\<close>)
    then show ?thesis using big by (subst ffzb_loop.simps) (simp add: Let_def not_eq_0_word)
  next
    case full
    have one: "bm_bit d i" if "64 * p \<le> i" "i < 64 * (p + 1)" for i
    proof -
      have "i - 64 * p < 64" "64 * p + (i - 64 * p) = i" using that by simp_all
      then show ?thesis using bit_rd64 [of d p "i - 64 * p"] full(2) by (simp add: bit_simps)
    qed
    have e: "64 * (p + 1) + (sz - 64) = 64 * p + sz" using full(1) by simp
    have "first_zero d (64 * p) (64 * p + sz) = first_zero d (64 * (p + 1)) (64 * p + sz)"
      using one full(1) by (intro first_zero_skip) auto
    then show ?thesis
      using full 1 e first_zero_bounds [of "64 * (p + 1)" "64 * p + sz" d]
      by (subst ffzb_loop.simps) (simp add: Let_def)
  next
    case zero
    then show ?thesis by (subst ffzb_loop.simps) (simp add: first_zero_def)
  next
    case small
    note f = ffz_spec [OF small(3)]
    have lt: "ffz ?v < sz" using f(1,2) by (auto simp: bit_simps not_le)
    have "first_zero d (64 * p) (64 * p + sz) = 64 * p + ffz ?v"
    proof (rule first_zero_unique)
      show "bm_bit d i" if "64 * p \<le> i" "i < 64 * p + ffz ?v" for i
        using f(3) [of "i - 64 * p"] lt that by (simp add: bit_rd64 bit_simps)
    qed (use f(1,2) lt in \<open>auto simp: bit_rd64 bit_simps\<close>)
    then show ?thesis using small by (subst ffzb_loop.simps) (simp add: Let_def)
  next
    case none
    have "first_zero d (64 * p) (64 * p + sz) = 64 * p + sz"
    proof (rule first_zero_unique)
      show "bm_bit d i" if "64 * p \<le> i" "i < 64 * p + sz" for i
      proof -
        have i: "i - 64 * p < sz" "64 * p + (i - 64 * p) = i" using that by simp_all
        then have "bit ?v (i - 64 * p)" using none by (simp add: bit_simps)
        then show ?thesis using i by (auto simp: bit_simps bit_rd64)
      qed
    qed auto
    then show ?thesis using none by (subst ffzb_loop.simps) (simp add: Let_def)
  qed
qed

lemma find_first_zero_bit_at_first_zero:
  "64 * p + find_first_zero_bit_at d p sz = first_zero d (64 * p) (64 * p + sz)"
  using first_zero_bounds [of "64 * p" "64 * p + sz" d]
  by (simp add: find_first_zero_bit_at_def ffzb_loop_first_zero)

lemma find_next_tail:
  assumes "64 * q \<le> sz" "sz < 2 ^ 63"
  shows "64 * q + find_first_zero_bit_at d q (ulong (int sz - 64 * int q)) = first_zero d (64 * q) sz"
proof -
  have "ulong (int sz - 64 * int q) = sz - 64 * q" using assms by (simp add: ulong_def)
  then show ?thesis using find_first_zero_bit_at_first_zero [of q d "sz - 64 * q"] assms(1) by simp
qed

lemma bit_not_rest:
  "b + i < 64 \<Longrightarrow> bit (NOT (drop_bit b (rd64 d p))) i \<longleftrightarrow> \<not> bm_bit d (64 * p + b + i)"
  by (simp add: bit_simps bit_rd64 add.assoc)

lemma find_next_first_zero:
  assumes "offset \<le> sz" "sz < 2 ^ 63" "64 dvd sz"
  shows "ext2_find_next_zero_bit d sz offset = first_zero d offset sz"
proof (cases "offset mod 64 = 0")
  case True
  then have "64 * (offset div 64) = offset" by auto
  then show ?thesis using find_next_tail [of "offset div 64" sz d] assms(1,2) True
    by (simp add: ext2_find_next_zero_bit_def Let_def)
next
  case False
  define p b where "p = offset div 64" and "b = offset mod 64"
  then have off: "offset = 64 * p + b" "b < 64" "b \<noteq> 0" using False by simp_all
  obtain m where m: "sz = 64 * m" using assms(3) by (rule dvdE)
  then have "p < m" using off assms(1) by simp
  then have le: "64 * (p + 1) \<le> sz" using m by simp
  let ?s = "NOT (drop_bit b (rd64 d p))"
  have sbit: "bit ?s i \<longleftrightarrow> \<not> bm_bit d (offset + i)" if "i < 64 - b" for i
    using bit_not_rest [of b i d p] that off(1) by simp
  have next_eq: "ext2_find_next_zero_bit d sz offset =
      (if bsf ?s < 64 - b then bsf ?s + offset
       else offset + (64 - b) + find_first_zero_bit_at d (p + 1) (ulong (int sz - 64 * int (p + 1))))"
    using off(3) by (simp add: ext2_find_next_zero_bit_def Let_def p_def [symmetric] b_def [symmetric])
  show ?thesis
  proof (cases "bsf ?s < 64 - b")
    case True
    then have bs: "bit ?s (bsf ?s)" using off(2) by (intro bsf_bit) simp
    have "first_zero d offset sz = offset + bsf ?s"
    proof (rule first_zero_unique)
      show "bm_bit d i" if "offset \<le> i" "i < offset + bsf ?s" for i
        using bsf_below [of "i - offset" ?s] sbit [of "i - offset"] that True by auto
      show "offset + bsf ?s \<le> sz" using True le off(1) by simp
    qed (use sbit [OF True] bs in simp_all)
    then show ?thesis using True next_eq by simp
  next
    case False
    have "first_zero d offset sz = first_zero d (64 * (p + 1)) sz"
    proof (rule first_zero_skip)
      show "bm_bit d i" if "offset \<le> i" "i < 64 * (p + 1)" for i
        using bsf_below [of "i - offset" ?s] sbit [of "i - offset"] that False off by auto
    qed (use off le in auto)
    then show ?thesis using find_next_tail [OF le assms(2), of d] False next_eq off by simp
  qed
qed

lemma scasb_Some:
  "scasb d c i n = Some k \<Longrightarrow> i \<le> k \<and> k < i + n \<and> d ! k = c \<and> (\<forall>j. i \<le> j \<and> j < k \<longrightarrow> d ! j \<noteq> c)"
proof (induction d c i n rule: scasb.induct)
  case (2 d c i n)
  show ?case
  proof (cases "d ! i = c")
    case False
    with 2 have "Suc i \<le> k \<and> k < Suc i + n \<and> d ! k = c \<and> (\<forall>j. Suc i \<le> j \<and> j < k \<longrightarrow> d ! j \<noteq> c)"
      by simp
    then show ?thesis using False by (metis Suc_leD Suc_leI add_Suc_shift le_neq_implies_less)
  qed (use 2 in auto)
qed simp

lemma scasb_None:
  "scasb d c i n = None \<longleftrightarrow> (\<forall>j. i \<le> j \<and> j < i + n \<longrightarrow> d ! j \<noteq> c)"
proof (induction d c i n rule: scasb.induct)
  case (2 d c i n)
  have "(\<forall>j. i \<le> j \<and> j < i + Suc n \<longrightarrow> P j) \<longleftrightarrow> P i \<and> (\<forall>j. Suc i \<le> j \<and> j < Suc i + n \<longrightarrow> P j)" for P
    by (auto simp: Suc_le_eq) (metis le_neq_implies_less)
  then show ?case using 2 by simp
qed auto

lemma memscan_bitno_eq:
  assumes "8 * (off + n) < 2 ^ 31"
  shows "memscan_bitno (memscan base d off c n) base
         = 8 * int (case scasb d c off n of Some i \<Rightarrow> i | None \<Rightarrow> off + n)"
proof -
  let ?i = "case scasb d c off n of Some i \<Rightarrow> i | None \<Rightarrow> off + n"
  have "?i \<le> off + n" using scasb_Some [of d c off n] by (fastforce split: option.splits)
  then have small: "8 * ?i < 2 ^ 31" using assms by simp
  have "(ucast (memscan base d off c n) :: u32) = ucast base + of_nat ?i"
    by (auto simp: memscan_def ucast_down_add ucast_down_of_nat ucast_up_down split: option.splits)
  then have "(ucast (push_bit 3 (memscan base d off c n - base)) :: u32) = of_nat (8 * ?i)"
    by (simp add: push_bit_eq_mult ucast_down_mult ucast_down_diff)
  then show ?thesis using sint_of_nat_small [OF small] by (simp add: memscan_bitno_def)
qed


section \<open>Bitmaps as an interface\<close>

lemma count_zeros_card: "count_zeros p n = card {i. i < n \<and> \<not> p i}"
  unfolding count_zeros_def by (subst distinct_card [symmetric]) (auto intro: arg_cong [of _ _ card])

lemma count_zeros_pos: "0 < count_zeros p n \<longleftrightarrow> (\<exists>i < n. \<not> p i)"
  by (auto simp: count_zeros_def filter_empty_conv)

lemma count_zeros_le: "count_zeros p n \<le> n"
  using length_filter_le [of "\<lambda>i. \<not> p i" "[0..<n]"] by (simp add: count_zeros_def)

lemma count_zeros_cong: "(\<And>i. i < n \<Longrightarrow> p i = q i) \<Longrightarrow> count_zeros p n = count_zeros q n"
  unfolding count_zeros_def by (intro arg_cong [of _ _ length] filter_cong) auto

lemma count_zeros_fill:
  assumes "i < n" "\<not> p i" "\<And>m. m < n \<Longrightarrow> q m \<longleftrightarrow> m = i \<or> p m"
  shows "count_zeros p n = Suc (count_zeros q n)"
proof -
  have "{m. m < n \<and> \<not> p m} = insert i {m. m < n \<and> \<not> q m}" using assms by auto
  moreover have "i \<notin> {m. m < n \<and> \<not> q m}" using assms by simp
  ultimately show ?thesis by (simp add: count_zeros_card)
qed

text \<open>
  What a client of a bitmap relies on: setting and clearing change one bit and never
  the size. \<open>bits\<close> bounds the bit numbers the laws speak of.
\<close>

locale bit_store =
  fixes tst :: "'b \<Rightarrow> nat \<Rightarrow> bool"
    and ins :: "nat \<Rightarrow> 'b \<Rightarrow> 'b"
    and del :: "nat \<Rightarrow> 'b \<Rightarrow> 'b"
    and bits :: "'b \<Rightarrow> nat"
  assumes tst_ins: "n < bits d \<Longrightarrow> m < bits d \<Longrightarrow> tst (ins n d) m \<longleftrightarrow> m = n \<or> tst d m"
    and tst_del: "n < bits d \<Longrightarrow> m < bits d \<Longrightarrow> tst (del n d) m \<longleftrightarrow> m \<noteq> n \<and> tst d m"
    and bits_ins: "bits (ins n d) = bits d"
    and bits_del: "bits (del n d) = bits d"
begin

lemma zeros_ins:
  assumes "n < N" "N \<le> bits d" "\<not> tst d n"
  shows "count_zeros (tst d) N = Suc (count_zeros (tst (ins n d)) N)"
  using assms by (intro count_zeros_fill [of n]) (auto simp: tst_ins)

lemma zeros_del:
  assumes "n < N" "N \<le> bits d" "tst d n"
  shows "count_zeros (tst (del n d)) N = Suc (count_zeros (tst d) N)"
  using assms by (intro count_zeros_fill [of n]) (auto simp: tst_del)

lemma ins_del:
  assumes "n < bits d" "m < bits d" "\<not> tst d n"
  shows "tst (del n (ins n d)) m \<longleftrightarrow> tst d m"
  using assms by (auto simp: tst_ins tst_del bits_ins)

end

lemma ext2_test_bit_bm_bit [simp]: "ext2_test_bit n d \<noteq> 0 \<longleftrightarrow> bm_bit d n" "ext2_test_bit n d = 0 \<longleftrightarrow> \<not> bm_bit d n"
  by (simp_all add: ext2_test_bit_def sbbl_def)

interpretation bm: bit_store bm_bit "\<lambda>n d. snd (ext2_set_bit n d)" "\<lambda>n d. snd (ext2_clear_bit n d)" "\<lambda>d. 8 * length d"
proof
  have split: "n = m \<longleftrightarrow> n div 8 = m div 8 \<and> n mod 8 = m mod 8" for n m :: nat
    by (metis div_mult_mod_eq)
  have lim: "n < 8 * length d \<Longrightarrow> n div 8 < length d" for n and d :: "u8 list" by (simp add: less_mult_imp_div_less mult.commute)
  show "bm_bit (snd (ext2_set_bit n d)) m \<longleftrightarrow> m = n \<or> bm_bit d m"
    if "n < 8 * length d" "m < 8 * length d" for n m d
    using lim [OF that(1)] lim [OF that(2)] split [of m n]
    by (auto simp: bm_bit_def ext2_set_bit_def bit_simps nth_list_update)
  show "bm_bit (snd (ext2_clear_bit n d)) m \<longleftrightarrow> m \<noteq> n \<and> bm_bit d m"
    if "n < 8 * length d" "m < 8 * length d" for n m d
    using lim [OF that(1)] lim [OF that(2)] split [of m n]
    by (auto simp: bm_bit_def ext2_clear_bit_def bit_simps nth_list_update)
qed (simp_all add: ext2_set_bit_def ext2_clear_bit_def)

lemma set_bit_old: "fst (ext2_set_bit n d) = ext2_test_bit n d"
  by (simp add: ext2_set_bit_def ext2_test_bit_def)

lemma clear_bit_old: "fst (ext2_clear_bit n d) = ext2_test_bit n d"
  by (simp add: ext2_clear_bit_def ext2_test_bit_def)

lemma length_set_bit [simp]: "length (snd (ext2_set_bit n d)) = length d" "length (snd (ext2_clear_bit n d)) = length d"
  by (simp_all add: ext2_set_bit_def ext2_clear_bit_def)

end
