(* ===== verification/Ext2_Fs.thy ===== *)
theory Ext2_Fs
  imports Ext2_Bitops
begin

text \<open>
  The mounted file system: the on-disk super block and group descriptors
  (\<^verbatim>\<open>ext2_fs.h\<close>), the in-core super block \<^verbatim>\<open>struct m_ext2fs\<close> (\<^verbatim>\<open>ext2_fs_sb.h\<close>), the
  address macros of \<^verbatim>\<open>fs.h\<close> and \<^verbatim>\<open>get_group_desc\<close> of \<^verbatim>\<open>ext2_linux_ialloc.c\<close>.

  The buffer cache is an argument of the model: \<open>d_data\<close> is what a buffer of the device
  holds once every delayed write has been seen, \<open>d_err\<close> tells which reads fail and
  \<open>d_addr\<close> where the cache maps a buffer in kernel memory. A buffer that is released
  without being written is forgotten. Locks are not modelled: each routine is one step.
\<close>

section \<open>On-disk structures\<close>

record ext2_group_desc =
  bg_block_bitmap :: u32
  bg_inode_bitmap :: u32
  bg_inode_table :: u32
  bg_free_blocks_count :: u16
  bg_free_inodes_count :: u16
  bg_used_dirs_count :: u16

record ext2fs =
  s_inodes_count :: u32
  s_blocks_count :: u32
  s_r_blocks_count :: u32
  s_free_blocks_count :: u32
  s_free_inodes_count :: u32
  s_first_data_block :: u32
  s_log_block_size :: u32
  s_log_frag_size :: u32
  s_blocks_per_group :: u32
  s_frags_per_group :: u32
  s_inodes_per_group :: u32
  s_mtime :: u32
  s_mnt_count :: u16
  s_max_mnt_count :: u16
  s_magic :: u16
  s_state :: u16
  s_rev_level :: u32
  s_first_ino :: u32
  s_inode_size :: u16
  s_feature_incompat :: u32
  s_feature_ro_compat :: u32
  es_hash_seed :: "u32 list"
  es_def_hash_version :: u8
  s_prealloc_blocks :: u8

section \<open>In-core structures\<close>

text \<open>A buffer: its device address and its contents.\<close>

type_synonym buf = "int \<times> u8 list"

record device =
  d_data :: "int \<Rightarrow> u8 list"
  d_err :: "int \<Rightarrow> bool"
  d_addr :: "int \<Rightarrow> u64"

text \<open>
  \<open>s_group_desc\<close> is the array of descriptor buffers, \<open>None\<close> for a null pointer, each
  seen as the array of descriptors it holds; \<open>s_gd_dirty\<close> has the buffers that
  \<^verbatim>\<open>mark_buffer_dirty\<close> has marked.
\<close>

record m_ext2fs =
  e2fs_fsize :: nat
  e2fs_fpb :: nat
  e2fs_bpg :: nat
  e2fs_fpg :: nat
  e2fs_ipg :: nat
  e2fs_ipb :: nat
  e2fs_itpg :: nat
  e2fs_dbpg :: nat
  s_desc_per_block :: nat
  s_groups_count :: nat
  e2fs_isize :: nat
  s_es :: ext2fs
  s_group_desc :: "ext2_group_desc list option list"
  s_gd_dirty :: "nat set"
  s_loaded_inode_bitmaps :: nat
  s_loaded_block_bitmaps :: nat
  s_inode_bitmap_number :: "nat list"
  s_inode_bitmap :: "buf option list"
  s_block_bitmap_number :: "nat list"
  s_block_bitmap :: "buf option list"
  s_hash_seed :: "u32 list"
  s_def_hash_version :: u8
  s_blocksize :: nat
  s_blocksize_bits :: nat
  s_bshift :: nat
  s_qbmask :: nat
  s_maxfilesize :: nat
  s_fsbtodb :: nat
  s_rd_only :: bool
  s_dirt :: bool
  s_wasvalid :: bool
  s_dircount :: int
  s_d_blocksize :: nat

record ext2mount =
  um_e2fs :: m_ext2fs
  um_devvp :: device
  um_nindir :: nat
  um_bptrtodb :: nat
  um_seqinc :: nat

text \<open>
  The in-core inode (\<^verbatim>\<open>struct inode\<close>), without its locks, hash links, directory lookup
  state and the nanosecond parts of its times; the pointer \<^verbatim>\<open>i_e2fs\<close> is the super block of the mount it belongs to.
\<close>

record inode =
  i_flag :: u32
  i_number :: nat
  i_block_group :: nat
  i_next_alloc_block :: u32
  i_next_alloc_goal :: u32
  i_prealloc_block :: u32
  i_prealloc_count :: u32
  i_mode :: u16
  i_nlink :: int
  i_size :: nat
  i_atime :: int
  i_mtime :: int
  i_ctime :: int
  i_btime :: int
  i_db :: "int list"
  i_ib :: "int list"
  i_flags :: u32
  i_blocks :: int
  i_gen :: int
  i_uid :: u32
  i_gid :: u32
  i_e2flags :: u32

definition S_ISDIR :: "u16 \<Rightarrow> bool" where
  "S_ISDIR mode \<longleftrightarrow> mode AND 0xF000 = 0x4000"

definition S_ISREG :: "u16 \<Rightarrow> bool" where
  "S_ISREG mode \<longleftrightarrow> mode AND 0xF000 = 0x8000"

section \<open>Buffers\<close>

definition buf_meta_bread :: "device \<Rightarrow> int \<Rightarrow> buf option" where
  "buf_meta_bread dev daddr = (if d_err dev daddr then None else Some (daddr, d_data dev daddr))"

text \<open>\<^verbatim>\<open>buf_bdwrite\<close> and \<^verbatim>\<open>buf_bwrite\<close>: the contents reach the device, later or at once.\<close>

definition buf_write :: "buf \<Rightarrow> device \<Rightarrow> device" where
  "buf_write bp dev = dev\<lparr>d_data := (d_data dev)(fst bp := snd bp)\<rparr>"

section \<open>Address macros\<close>

text \<open>
  \<^verbatim>\<open>fsbtodb(fs, b)\<close> where \<^verbatim>\<open>b\<close> is an \<^verbatim>\<open>ext2_daddr_t\<close>, that is an \<^verbatim>\<open>int32_t\<close>: the
  shift is done in 32 bits before the result is widened to \<^verbatim>\<open>daddr64_t\<close>.
\<close>

definition fsbtodb :: "m_ext2fs \<Rightarrow> int \<Rightarrow> int" where
  "fsbtodb fs b = int32 (int32 b * 2 ^ s_fsbtodb fs)"

abbreviation first_data_block :: "m_ext2fs \<Rightarrow> nat" where
  "first_data_block fs \<equiv> unat (s_first_data_block (s_es fs))"

abbreviation blocks_count :: "m_ext2fs \<Rightarrow> nat" where
  "blocks_count fs \<equiv> unat (s_blocks_count (s_es fs))"

definition EXT2_DESC_PER_BLOCK :: "m_ext2fs \<Rightarrow> nat" where
  "EXT2_DESC_PER_BLOCK fs = s_blocksize fs div 32"

text \<open>
  \<^verbatim>\<open>dtog\<close> and \<^verbatim>\<open>dtogd\<close> subtract in unsigned 32-bit arithmetic; the subtraction of \<open>nat\<close> is the same for a block
  that is not below the first data block, and well-formed file systems hand in no other.
\<close>

definition dtog :: "m_ext2fs \<Rightarrow> nat \<Rightarrow> nat" where
  "dtog fs d = (d - first_data_block fs) div e2fs_bpg fs"

definition dtogd :: "m_ext2fs \<Rightarrow> nat \<Rightarrow> nat" where
  "dtogd fs d = (d - first_data_block fs) mod e2fs_bpg fs"

definition ino_to_cg :: "m_ext2fs \<Rightarrow> nat \<Rightarrow> nat" where
  "ino_to_cg fs x = (x - 1) div e2fs_ipg fs"

section \<open>Group descriptors\<close>

text \<open>A pointer to a descriptor: the buffer in \<open>s_group_desc\<close> and the index in it.\<close>

type_synonym gdptr = "nat \<times> nat"

definition gdp_read :: "m_ext2fs \<Rightarrow> gdptr \<Rightarrow> ext2_group_desc" where
  "gdp_read sb p = the (s_group_desc sb ! fst p) ! snd p"

definition gdp_write :: "gdptr \<Rightarrow> ext2_group_desc \<Rightarrow> m_ext2fs \<Rightarrow> m_ext2fs" where
  "gdp_write p gd sb = sb\<lparr>s_group_desc :=
     (s_group_desc sb)[fst p := Some ((the (s_group_desc sb ! fst p))[snd p := gd])]\<rparr>"

definition mark_buffer_dirty :: "gdptr \<Rightarrow> m_ext2fs \<Rightarrow> m_ext2fs" where
  "mark_buffer_dirty p sb = sb\<lparr>s_gd_dirty := insert (fst p) (s_gd_dirty sb)\<rparr>"

definition get_group_desc :: "m_ext2fs \<Rightarrow> nat \<Rightarrow> gdptr outcome" where
  "get_group_desc sb block_group =
     (if block_group \<ge> s_groups_count sb then Panic Group_out_of_range
      else
        let group_desc = block_group div EXT2_DESC_PER_BLOCK sb;
            desc = block_group mod EXT2_DESC_PER_BLOCK sb in
        if s_group_desc sb ! group_desc = None then Panic Desc_not_loaded
        else Return (group_desc, desc))"

section \<open>Bitmap cache of the super block\<close>

text \<open>
  The search and the move to front of \<^verbatim>\<open>load__block_bitmap\<close> and \<^verbatim>\<open>load_inode_bitmap\<close>,
  which share their code.
\<close>

fun lru_find :: "nat \<Rightarrow> nat \<Rightarrow> nat list \<Rightarrow> nat \<Rightarrow> nat" where
  "lru_find i 0 nums g = i"
| "lru_find i (Suc n) nums g = (if nums ! i = g then i else lru_find (Suc i) n nums g)"

fun lru_shift :: "nat \<Rightarrow> 'a list \<Rightarrow> 'a list" where
  "lru_shift 0 xs = xs"
| "lru_shift (Suc j) xs = lru_shift j (xs[Suc j := xs ! j])"

definition lru_to_front :: "nat \<Rightarrow> 'a list \<Rightarrow> 'a list" where
  "lru_to_front i xs = (lru_shift i xs)[0 := xs ! i]"

section \<open>The descriptor of a group\<close>

definition gd_ptr :: "m_ext2fs \<Rightarrow> nat \<Rightarrow> gdptr" where
  "gd_ptr sb g = (g div EXT2_DESC_PER_BLOCK sb, g mod EXT2_DESC_PER_BLOCK sb)"

definition gdesc :: "m_ext2fs \<Rightarrow> nat \<Rightarrow> ext2_group_desc" where
  "gdesc sb g = gdp_read sb (gd_ptr sb g)"

text \<open>Every descriptor of a group of the file system is in a buffer that is loaded.\<close>

definition gds_loaded :: "m_ext2fs \<Rightarrow> bool" where
  "gds_loaded sb \<longleftrightarrow> 0 < EXT2_DESC_PER_BLOCK sb \<and>
     (\<forall>g < s_groups_count sb. fst (gd_ptr sb g) < length (s_group_desc sb) \<and>
        (case s_group_desc sb ! fst (gd_ptr sb g) of None \<Rightarrow> False
         | Some ds \<Rightarrow> snd (gd_ptr sb g) < length ds))"

lemma get_group_desc_loaded:
  "gds_loaded sb \<Longrightarrow> g < s_groups_count sb \<Longrightarrow> get_group_desc sb g = Return (gd_ptr sb g)"
  by (auto simp: gds_loaded_def get_group_desc_def gd_ptr_def Let_def split: option.splits)

lemma gd_ptr_inj: "gd_ptr sb g = gd_ptr sb h \<Longrightarrow> g = h"
  unfolding gd_ptr_def by (metis Pair_inject div_mult_mod_eq)

section \<open>Tables as an interface\<close>

text \<open>
  What the allocators rely on when they update a descriptor through a pointer: the
  entry they wrote changes and no other. \<open>total_upd\<close> is the sum of a counter over the
  table after such a write.
\<close>

locale table =
  fixes ok :: "'s \<Rightarrow> bool"
    and size_of :: "'s \<Rightarrow> nat"
    and get :: "'s \<Rightarrow> nat \<Rightarrow> 'v"
    and put :: "nat \<Rightarrow> 'v \<Rightarrow> 's \<Rightarrow> 's"
  assumes get_put: "ok s \<Longrightarrow> g < size_of s \<Longrightarrow> h < size_of s \<Longrightarrow>
      get (put g v s) h = (if h = g then v else get s h)"
    and ok_put: "ok s \<Longrightarrow> g < size_of s \<Longrightarrow> ok (put g v s)"
    and size_put: "size_of (put g v s) = size_of s"
begin

lemma get_put_same: "ok s \<Longrightarrow> g < size_of s \<Longrightarrow> get (put g v s) g = v"
  by (simp add: get_put)

lemma total_upd:
  fixes f :: "'v \<Rightarrow> nat"
  assumes "ok s" "g < size_of s"
  shows "(\<Sum>k < size_of s. f (get (put g v s) k)) + f (get s g) = (\<Sum>k < size_of s. f (get s k)) + f v"
proof -
  have "(\<Sum>k < size_of s. f (get (put g v s) k)) = (\<Sum>k < size_of s. ((\<lambda>k. f (get s k))(g := f v)) k)"
    using assms by (intro sum.cong) (auto simp: get_put)
  then show ?thesis using sum_list_map_upd [OF assms(2), of "\<lambda>k. f (get s k)" "f v"] by simp
qed

end

lemma gd_ptr_upd [simp]:
  "gd_ptr (sb\<lparr>s_group_desc := x\<rparr>) = gd_ptr sb" "gd_ptr (sb\<lparr>s_es := es\<rparr>) = gd_ptr sb"
  "gd_ptr (sb\<lparr>s_dirt := v\<rparr>) = gd_ptr sb" "gd_ptr (sb\<lparr>s_dircount := c\<rparr>) = gd_ptr sb" "gd_ptr (mark_buffer_dirty p sb) = gd_ptr sb"
  by (simp_all add: gd_ptr_def [abs_def] EXT2_DESC_PER_BLOCK_def mark_buffer_dirty_def)

lemma gdp_write_simps [simp]:
  "s_groups_count (gdp_write p d sb) = s_groups_count sb"
  "EXT2_DESC_PER_BLOCK (gdp_write p d sb) = EXT2_DESC_PER_BLOCK sb"
  "gd_ptr (gdp_write p d sb) = gd_ptr sb"
  "s_es (gdp_write p d sb) = s_es sb"
  "e2fs_bpg (gdp_write p d sb) = e2fs_bpg sb"
  "e2fs_ipg (gdp_write p d sb) = e2fs_ipg sb"
  "e2fs_itpg (gdp_write p d sb) = e2fs_itpg sb"
  "s_blocksize (gdp_write p d sb) = s_blocksize sb"
  "s_fsbtodb (gdp_write p d sb) = s_fsbtodb sb"
  "s_loaded_block_bitmaps (gdp_write p d sb) = s_loaded_block_bitmaps sb"
  "s_block_bitmap (gdp_write p d sb) = s_block_bitmap sb"
  "s_loaded_inode_bitmaps (gdp_write p d sb) = s_loaded_inode_bitmaps sb"
  "s_inode_bitmap (gdp_write p d sb) = s_inode_bitmap sb"
  by (simp_all add: gdp_write_def EXT2_DESC_PER_BLOCK_def gd_ptr_def [abs_def])

lemma gdp_write_dircount: "gdp_write p d (sb\<lparr>s_dircount := c\<rparr>) = (gdp_write p d sb)\<lparr>s_dircount := c\<rparr>"
  by (simp add: gdp_write_def)

interpretation gdt: table gds_loaded s_groups_count gdesc "\<lambda>g d sb. gdp_write (gd_ptr sb g) d sb"
proof
  show "gdesc (gdp_write (gd_ptr sb g) v sb) h = (if h = g then v else gdesc sb h)"
    if "gds_loaded sb" "g < s_groups_count sb" "h < s_groups_count sb" for sb g h v
  proof (cases "h = g")
    case True
    then show ?thesis using that
      by (auto simp: gds_loaded_def gdesc_def gdp_read_def gdp_write_def split: option.splits)
  next
    case False
    then have "gd_ptr sb h \<noteq> gd_ptr sb g" using gd_ptr_inj by blast
    then show ?thesis using that False
      by (cases "fst (gd_ptr sb h) = fst (gd_ptr sb g)")
         (auto simp: gds_loaded_def gdesc_def gdp_read_def gdp_write_def prod_eq_iff split: option.splits)
  qed
  show "gds_loaded (gdp_write (gd_ptr sb g) v sb)" if "gds_loaded sb" "g < s_groups_count sb" for sb g v
    using that unfolding gds_loaded_def gdp_write_simps
    by (auto simp: gdp_write_def nth_list_update split: option.splits)
qed simp_all

lemma gdesc_upd [simp]:
  "gdesc (sb\<lparr>s_es := es\<rparr>) g = gdesc sb g" "gdesc (sb\<lparr>s_dirt := v\<rparr>) g = gdesc sb g"
  "gdesc (sb\<lparr>s_dircount := c\<rparr>) g = gdesc sb g"
  "gdesc (mark_buffer_dirty p sb) g = gdesc sb g"
  by (simp_all add: gdesc_def gdp_read_def gd_ptr_def EXT2_DESC_PER_BLOCK_def mark_buffer_dirty_def)

lemma gds_loaded_upd [simp]:
  "gds_loaded (sb\<lparr>s_es := es\<rparr>) = gds_loaded sb" "gds_loaded (sb\<lparr>s_dirt := v\<rparr>) = gds_loaded sb"
  "gds_loaded (sb\<lparr>s_dircount := c\<rparr>) = gds_loaded sb"
  "gds_loaded (mark_buffer_dirty p sb) = gds_loaded sb"
  unfolding gds_loaded_def gd_ptr_upd
  by (simp_all add: EXT2_DESC_PER_BLOCK_def mark_buffer_dirty_def)

end
