(* ===== verification/Ext2_Alloc_Spec.thy ===== *)
theory Ext2_Alloc_Spec
  imports Main
begin

text \<open>
  The contract of an allocator of numbered resources, shared by the block and the inode
  allocator. A history is a sequence of allocations and releases; the client's lemmas
  say that no resource is handed out twice without being given back in between, and that
  what was free and is not handed out stays free.
\<close>

datatype alloc_event = Take "nat set" | Give "nat set"

inductive alloc_trace ::
    "('s \<Rightarrow> nat set \<Rightarrow> 's \<Rightarrow> bool) \<Rightarrow> ('s \<Rightarrow> nat set \<Rightarrow> 's \<Rightarrow> bool) \<Rightarrow> 's \<Rightarrow> alloc_event list \<Rightarrow> 's \<Rightarrow> bool"
  for takes gives where
  trace_nil: "alloc_trace takes gives s [] s"
| trace_take: "takes s A t \<Longrightarrow> alloc_trace takes gives t es u \<Longrightarrow> alloc_trace takes gives s (Take A # es) u"
| trace_give: "gives s A t \<Longrightarrow> alloc_trace takes gives t es u \<Longrightarrow> alloc_trace takes gives s (Give A # es) u"

inductive_simps trace_Take_iff: "alloc_trace takes gives s (Take A # es) u"
inductive_simps trace_Give_iff: "alloc_trace takes gives s (Give A # es) u"
inductive_simps trace_nil_iff: "alloc_trace takes gives s [] u"

lemmas trace_simps = trace_Take_iff trace_Give_iff trace_nil_iff

text \<open>The specification: the free set after an event.\<close>

fun free_after :: "nat set \<Rightarrow> alloc_event list \<Rightarrow> nat set" where
  "free_after F [] = F"
| "free_after F (Take A # es) = free_after (F - A) es"
| "free_after F (Give A # es) = free_after (F \<union> A) es"

lemma trace_append:
  "alloc_trace takes gives s (es @ fs) u \<longleftrightarrow>
   (\<exists>t. alloc_trace takes gives s es t \<and> alloc_trace takes gives t fs u)"
proof (induction es arbitrary: s)
  case Nil
  then show ?case by (simp add: trace_simps)
next
  case (Cons e es)
  then show ?case
    by (cases e) (auto simp: trace_simps)
qed

lemma free_after_taken:
  "x \<notin> F \<Longrightarrow> (\<And>C. Give C \<in> set es \<Longrightarrow> x \<notin> C) \<Longrightarrow> x \<notin> free_after F es"
proof (induction es arbitrary: F)
  case (Cons e es)
  then show ?case by (cases e) auto
qed simp

locale resource_allocator =
  fixes inv :: "'s \<Rightarrow> bool"
    and free :: "'s \<Rightarrow> nat set"
    and takes :: "'s \<Rightarrow> nat set \<Rightarrow> 's \<Rightarrow> bool"
    and gives :: "'s \<Rightarrow> nat set \<Rightarrow> 's \<Rightarrow> bool"
  assumes takes_law: "inv s \<Longrightarrow> takes s A t \<Longrightarrow> inv t \<and> A \<subseteq> free s \<and> free t = free s - A"
    and gives_law: "inv s \<Longrightarrow> gives s A t \<Longrightarrow> inv t \<and> free t = free s \<union> A"
begin

lemma trace_refines:
  assumes "alloc_trace takes gives s es u" "inv s"
  shows "inv u \<and> free u = free_after (free s) es"
  using assms
proof (induction rule: alloc_trace.induct)
  case (trace_take s A t es u)
  then show ?case using takes_law [of s A t] by simp
next
  case (trace_give s A t es u)
  then show ?case using gives_law [of s A t] by simp
qed simp

lemma no_double_take:
  assumes "alloc_trace takes gives s (es1 @ Take A # es2 @ Take B # es3) u" "inv s" "x \<in> A" "x \<in> B"
  shows "\<exists>C. Give C \<in> set es2 \<and> x \<in> C"
proof (rule ccontr)
  assume no: "\<not> ?thesis"
  obtain t1 t2 where t: "alloc_trace takes gives s es1 t1" "takes t1 A t2"
    "alloc_trace takes gives t2 (es2 @ Take B # es3) u"
    using assms(1) by (auto simp: trace_append trace_simps)
  then obtain t3 t4 where t3: "alloc_trace takes gives t2 es2 t3" "takes t3 B t4"
    by (auto simp: trace_append trace_simps)
  have "inv t1" using trace_refines [OF t(1) assms(2)] by simp
  then have t2: "inv t2" "free t2 = free t1 - A" using takes_law [OF _ t(2)] by simp_all
  have t3': "inv t3" "free t3 = free_after (free t2) es2" using trace_refines [OF t3(1) t2(1)] by simp_all
  have "x \<notin> free t3" unfolding t3'(2) using t2(2) assms(3) no by (intro free_after_taken) auto
  moreover have "B \<subseteq> free t3" using takes_law [OF t3'(1) t3(2)] by simp
  ultimately show False using assms(4) by blast
qed

end

end
