(* ===== verification/Ext2_Balloc_Linux.thy ===== *)
theory Ext2_Balloc_Linux
  imports Ext2_Fs Ext2_Alloc_Spec
begin

text \<open>
  The block allocator of \<^verbatim>\<open>gnu/ext2fs/ext2_linux_balloc.c\<close>: \<^verbatim>\<open>ext2_free_blocks\<close>,
  \<^verbatim>\<open>ext2_new_block\<close> and the loading of block bitmaps, in the build with
  \<^verbatim>\<open>EXT2_PREALLOCATE\<close> and without \<^verbatim>\<open>EXT2_SB_BITMAP_CACHE\<close>.

  The parts of \<^verbatim>\<open>ext2_new_block\<close> are separate definitions, named after the labels of
  the source: the search around the goal, the walk over the groups, the search inside a
  group, \<^verbatim>\<open>search_back\<close> and the commit at \<^verbatim>\<open>got_block\<close>. An \<^verbatim>\<open>int\<close> that is compared
  with an \<^verbatim>\<open>unsigned long\<close> is converted by \<open>ulong\<close>, as the language does.
\<close>

section \<open>Loading a block bitmap\<close>

definition read_block_bitmap :: "ext2mount \<Rightarrow> nat \<Rightarrow> buf outcome" where
  "read_block_bitmap m block_group =
     (let sb = um_e2fs m in
      bindp (get_group_desc sb block_group) (\<lambda>gdp.
        let lbn = uint (bg_block_bitmap (gdp_read sb gdp)) in
        case buf_meta_bread (um_devvp m) (fsbtodb sb lbn) of
          None \<Rightarrow> Panic Cannot_read_bitmap
        | Some bp \<Rightarrow> Return bp))"

text \<open>
  The result is the bitmap number, what was stored through \<^verbatim>\<open>bpp\<close> (nothing when the
  bitmap is found in the cache of the super block) and the state.
\<close>

definition load__block_bitmap :: "ext2mount \<Rightarrow> nat \<Rightarrow> (nat \<times> buf option \<times> ext2mount) outcome" where
  "load__block_bitmap m block_group =
     (let sb = um_e2fs m in
      if block_group \<ge> s_groups_count sb then Panic Group_out_of_range
      else if s_groups_count sb \<le> 8 then
        (if s_block_bitmap sb ! block_group \<noteq> None then
           (if s_block_bitmap_number sb ! block_group \<noteq> block_group
            then Panic Bitmap_number_mismatch
            else Return (block_group, None, m))
         else bindp (read_block_bitmap m block_group) (\<lambda>bp. Return (block_group, Some bp, m)))
      else
        let i = lru_find 0 (s_loaded_block_bitmaps sb) (s_block_bitmap_number sb) block_group in
        if i < s_loaded_block_bitmaps sb \<and> s_block_bitmap_number sb ! i = block_group then
          Return (0, None, m\<lparr>um_e2fs := sb\<lparr>
            s_block_bitmap_number := lru_to_front i (s_block_bitmap_number sb),
            s_block_bitmap := lru_to_front i (s_block_bitmap sb)\<rparr>\<rparr>)
        else bindp (read_block_bitmap m block_group) (\<lambda>bp. Return (0, Some bp, m)))"

text \<open>\<^verbatim>\<open>load_block_bitmap\<close> and the use of \<^verbatim>\<open>bp\<close> after it.\<close>

definition load_block_bitmap :: "ext2mount \<Rightarrow> nat \<Rightarrow> (buf \<times> ext2mount) outcome" where
  "load_block_bitmap m block_group =
     bindp (load__block_bitmap m block_group) (\<lambda>(bitmap_nr, bpp, m').
       case bpp of None \<Rightarrow> Panic Wild_pointer | Some bp \<Rightarrow> Return (bp, m'))"

section \<open>Freeing blocks\<close>

definition in_range :: "nat \<Rightarrow> nat \<Rightarrow> nat \<Rightarrow> bool" where
  "in_range b first len \<longleftrightarrow> b \<ge> first \<and> b \<le> ulong (int first + int len - 1)"

text \<open>The loop clears the bits and counts the ones that were set.\<close>

fun free_bits :: "nat \<Rightarrow> nat \<Rightarrow> u8 list \<times> ext2_group_desc \<times> ext2fs \<Rightarrow> u8 list \<times> ext2_group_desc \<times> ext2fs" where
  "free_bits b 0 s = s"
| "free_bits b (Suc count) (data, gd, es) =
     (let (old, data') = ext2_clear_bit b data in
      if old = 0 then free_bits (Suc b) count (data', gd, es)
      else free_bits (Suc b) count
        (data', gd\<lparr>bg_free_blocks_count := bg_free_blocks_count gd + 1\<rparr>,
         es\<lparr>s_free_blocks_count := s_free_blocks_count es + 1\<rparr>))"

text \<open>The strict check: only the ends of the range are compared with the inode table.\<close>

definition fb_in_system_zone :: "m_ext2fs \<Rightarrow> ext2_group_desc \<Rightarrow> nat \<Rightarrow> nat \<Rightarrow> bool" where
  "fb_in_system_zone sb gd block count \<longleftrightarrow>
     in_range (unat (bg_block_bitmap gd)) block count \<or>
     in_range (unat (bg_inode_bitmap gd)) block count \<or>
     in_range block (unat (bg_inode_table gd)) (e2fs_itpg sb) \<or>
     in_range (ulong (int block + int count - 1)) (unat (bg_inode_table gd)) (e2fs_itpg sb)"

definition ext2_free_blocks :: "ext2mount \<Rightarrow> nat \<Rightarrow> nat \<Rightarrow> ext2mount outcome" where
  "ext2_free_blocks m block count =
     (let sb = um_e2fs m; es = s_es sb in
      if block < first_data_block sb \<or> ulong (int block + int count) > blocks_count sb then Return m
      else
        let block_group = (block - first_data_block sb) div e2fs_bpg sb;
            b = (block - first_data_block sb) mod e2fs_bpg sb in
        if ulong (int b + int count) > e2fs_bpg sb then Panic Free_across_group
        else
          bindp (load_block_bitmap m block_group) (\<lambda>(bp, m).
          let sb = um_e2fs m in
          bindp (get_group_desc sb block_group) (\<lambda>gdp.
          let gd = gdp_read sb gdp in
          if fb_in_system_zone sb gd block count
          then Panic Free_in_system_zone
          else
            let (data, gd', es') = free_bits b count (snd bp, gd, s_es sb);
                sb = mark_buffer_dirty gdp (gdp_write gdp gd' sb)\<lparr>s_es := es', s_dirt := True\<rparr> in
            Return (m\<lparr>um_e2fs := sb, um_devvp := buf_write (fst bp, data) (um_devvp m)\<rparr>))))"

section \<open>Allocating a block\<close>

text \<open>Where a search ends: at \<^verbatim>\<open>got_block\<close>, at \<^verbatim>\<open>search_back\<close>, or with nothing.\<close>

datatype nb_target = Got_block nat | Search_back nat | Not_found

text \<open>The search in the group of the goal once the goal itself is known to be taken.\<close>

definition nb_rest_of_group :: "u64 \<Rightarrow> u8 list \<Rightarrow> nat \<Rightarrow> nat \<Rightarrow> nb_target" where
  "nb_rest_of_group addr data bpg j =
     (let r = memscan addr data (j div 8) 0 (ulong (int bpg - int j + 7) div 8);
          k = memscan_bitno r addr in
      if ulong k < bpg then Search_back (nat k)
      else
        let k = int32 (int (ext2_find_next_zero_bit data bpg j)) in
        if ulong k < bpg then Got_block (nat k) else Not_found)"

definition nb_near_goal :: "u64 \<Rightarrow> u8 list \<Rightarrow> nat \<Rightarrow> nat \<Rightarrow> nb_target" where
  "nb_near_goal addr data bpg j =
     (if ext2_test_bit j data = 0 then Got_block j
      else if j \<noteq> 0 then
        let end_goal = (j + 63) div 64 * 64;
            j' = ext2_find_next_zero_bit data end_goal j in
        if j' < end_goal then Got_block j' else nb_rest_of_group addr data bpg j'
      else nb_rest_of_group addr data bpg j)"

definition nb_scan_group :: "u64 \<Rightarrow> u8 list \<Rightarrow> nat \<Rightarrow> nb_target" where
  "nb_scan_group addr data bpg =
     (let r = memscan addr data 0 0 (bpg div 8);
          j = memscan_bitno r addr in
      if ulong j < bpg then Search_back (nat j)
      else
        let j = int32 (int (ext2_find_first_zero_bit data bpg)) in
        if ulong j \<ge> bpg then Not_found else Search_back (nat j))"

text \<open>\<^verbatim>\<open>search_back\<close>: \<open>k\<close> more steps are allowed.\<close>

fun nb_search_back :: "u8 list \<Rightarrow> nat \<Rightarrow> nat \<Rightarrow> nat" where
  "nb_search_back data 0 j = j"
| "nb_search_back data (Suc k) j =
     (if j > 0 \<and> ext2_test_bit (j - 1) data = 0 then nb_search_back data k (j - 1) else j)"

definition nb_settle :: "u8 list \<Rightarrow> nb_target \<Rightarrow> nat option" where
  "nb_settle data t = (case t of Got_block j \<Rightarrow> Some j
     | Search_back j \<Rightarrow> Some (nb_search_back data 7 j) | Not_found \<Rightarrow> None)"

text \<open>The walk over the groups; the first argument counts the turns that are left.\<close>

fun nb_next_group :: "nat \<Rightarrow> m_ext2fs \<Rightarrow> nat \<Rightarrow> (nat \<times> gdptr) option outcome" where
  "nb_next_group 0 sb i = Return None"
| "nb_next_group (Suc n) sb i =
     (let i = (if i + 1 \<ge> s_groups_count sb then 0 else i + 1) in
      bindp (get_group_desc sb i) (\<lambda>gdp.
        if bg_free_blocks_count (gdp_read sb gdp) > 0 then Return (Some (i, gdp))
        else nb_next_group n sb i))"

text \<open>The chosen group, its descriptor, its bitmap buffer and the chosen bit.\<close>

type_synonym nb_choice = "nat \<times> gdptr \<times> buf \<times> nat"

definition nb_other_groups :: "ext2mount \<Rightarrow> nat \<Rightarrow> (nb_choice option \<times> ext2mount) outcome" where
  "nb_other_groups m i =
     (let sb = um_e2fs m in
      bindp (nb_next_group (s_groups_count sb) sb i) (\<lambda>found.
        case found of
          None \<Rightarrow> Return (None, m)
        | Some (i, gdp) \<Rightarrow>
            bindp (load_block_bitmap m i) (\<lambda>(bp, m).
              let t = nb_scan_group (d_addr (um_devvp m) (fst bp)) (snd bp) (e2fs_bpg sb) in
              case nb_settle (snd bp) t of
                None \<Rightarrow> Return (None, m)
              | Some j \<Rightarrow> Return (Some (i, gdp, bp, j), m))))"

definition nb_choose :: "ext2mount \<Rightarrow> nat \<Rightarrow> (nb_choice option \<times> ext2mount) outcome" where
  "nb_choose m goal =
     (let sb = um_e2fs m;
          i = (goal - first_data_block sb) div e2fs_bpg sb in
      bindp (get_group_desc sb i) (\<lambda>gdp.
        if bg_free_blocks_count (gdp_read sb gdp) > 0 then
          let j = (goal - first_data_block sb) mod e2fs_bpg sb in
          bindp (load_block_bitmap m i) (\<lambda>(bp, m).
            let t = nb_near_goal (d_addr (um_devvp m) (fst bp)) (snd bp) (e2fs_bpg sb) j in
            case nb_settle (snd bp) t of
              None \<Rightarrow> nb_other_groups m i
            | Some j \<Rightarrow> Return (Some (i, gdp, bp, j), m))
        else nb_other_groups m i))"

text \<open>
  The preallocation loop from \<open>k\<close>, with \<open>n\<close> turns left before \<^verbatim>\<open>prealloc_goal\<close>: the bitmap
  and \<^verbatim>\<open>*prealloc_count\<close>.
\<close>

fun nb_prealloc :: "nat \<Rightarrow> nat \<Rightarrow> nat \<Rightarrow> u8 list \<Rightarrow> nat \<Rightarrow> u8 list \<times> nat" where
  "nb_prealloc bpg 0 b data count = (data, count)"
| "nb_prealloc bpg (Suc n) b data count =
     (if b < bpg then
        let (old, data') = ext2_set_bit b data in
        if old \<noteq> 0 then (data', count) else nb_prealloc bpg n (Suc b) data' (count + 1)
      else (data, count))"

definition prealloc_goal :: "ext2fs \<Rightarrow> nat" where
  "prealloc_goal es = (if s_prealloc_blocks es \<noteq> 0 then unat (s_prealloc_blocks es) else 8)"

definition take_free :: "gdptr \<Rightarrow> nat \<Rightarrow> m_ext2fs \<Rightarrow> m_ext2fs" where
  "take_free gdp n sb =
     (let gd = gdp_read sb gdp; es = s_es sb in
      (gdp_write gdp (gd\<lparr>bg_free_blocks_count := bg_free_blocks_count gd - of_nat n\<rparr>) sb)
        \<lparr>s_es := es\<lparr>s_free_blocks_count := s_free_blocks_count es - of_nat n\<rparr>\<rparr>)"

text \<open>
  The outcome of one pass: the block number with what was stored through
  \<^verbatim>\<open>prealloc_count\<close> and \<^verbatim>\<open>prealloc_block\<close>, or the jump back to \<^verbatim>\<open>repeat\<close>.
\<close>

datatype nb_result = Nb_return int "(nat \<times> nat) option" ext2mount | Nb_repeat ext2mount

definition nb_in_system_zone :: "m_ext2fs \<Rightarrow> ext2_group_desc \<Rightarrow> int \<Rightarrow> bool" where
  "nb_in_system_zone sb gd tmp \<longleftrightarrow>
     uint32 tmp = unat (bg_block_bitmap gd) \<or> uint32 tmp = unat (bg_inode_bitmap gd) \<or>
     (uint32 tmp \<ge> unat (bg_inode_table gd) \<and>
      ulong tmp \<le> ulong (int (unat (bg_inode_table gd)) + int (e2fs_itpg sb) - 1))"

definition nb_got_block :: "ext2mount \<Rightarrow> bool \<Rightarrow> nb_choice \<Rightarrow> nb_result outcome" where
  "nb_got_block m want_prealloc choice =
     (case choice of (i, gdp, bp, j) \<Rightarrow>
      let sb = um_e2fs m;
          tmp = int32 (int (j + i * e2fs_bpg sb + first_data_block sb)) in
      if nb_in_system_zone sb (gdp_read sb gdp) tmp then Panic Alloc_in_system_zone
      else
        let (old, data) = ext2_set_bit j (snd bp) in
        if old \<noteq> 0 then Return (Nb_repeat m)
        else
          let (data, count) =
                (if want_prealloc then nb_prealloc (e2fs_bpg sb) (prealloc_goal (s_es sb) - 1) (j + 1) data 0
                 else (data, 0));
              pre = (if want_prealloc then Some (count, uint32 (tmp + 1)) else None);
              sb = (if want_prealloc then take_free gdp count sb else sb);
              dev = buf_write (fst bp, data) (um_devvp m) in
          if uint32 tmp \<ge> blocks_count sb
          then Return (Nb_return 0 pre (m\<lparr>um_e2fs := sb, um_devvp := dev\<rparr>))
          else
            let sb = (mark_buffer_dirty gdp (take_free gdp 1 sb))\<lparr>s_dirt := True\<rparr> in
            Return (Nb_return tmp pre (m\<lparr>um_e2fs := sb, um_devvp := dev\<rparr>)))"

definition nb_goal :: "m_ext2fs \<Rightarrow> nat \<Rightarrow> nat" where
  "nb_goal sb goal =
     (if goal < first_data_block sb \<or> goal \<ge> blocks_count sb then first_data_block sb else goal)"

definition nb_pass :: "ext2mount \<Rightarrow> nat \<Rightarrow> bool \<Rightarrow> nb_result outcome" where
  "nb_pass m goal want_prealloc =
     bindp (nb_choose m (nb_goal (um_e2fs m) goal)) (\<lambda>(choice, m).
       case choice of
         None \<Rightarrow> Return (Nb_return 0 None m)
       | Some c \<Rightarrow> nb_got_block m want_prealloc c)"

text \<open>
  The whole routine: \<open>None\<close> if the jumps to \<^verbatim>\<open>repeat\<close> never end. The result is the block
  number, what was stored through the two pointers and the state.
\<close>

partial_function (option) ext2_new_block ::
    "ext2mount \<Rightarrow> nat \<Rightarrow> bool \<Rightarrow> (int \<times> (nat \<times> nat) option \<times> ext2mount) outcome option" where
  "ext2_new_block m goal want_prealloc =
     (case nb_pass m goal want_prealloc of
        Panic p \<Rightarrow> Some (Panic p)
      | Return (Nb_return n pre m') \<Rightarrow> Some (Return (n, pre, m'))
      | Return (Nb_repeat m') \<Rightarrow> ext2_new_block m' (nb_goal (um_e2fs m) goal) want_prealloc)"

section \<open>Groups with a super block copy\<close>

text \<open>
  \<^verbatim>\<open>test_root\<close> runs forever for the base 1, which is \<open>None\<close> here, and traps for the
  base 0, which the sources never pass. For a positive base the remainder of C is 0 exactly when
  \<open>mod\<close> is, and the quotient is then exact, so \<open>div\<close> is the division of C for negative \<open>a\<close> too.
\<close>

partial_function (option) test_root :: "int \<Rightarrow> int \<Rightarrow> bool option" where
  "test_root a b =
     (if a = 0 then Some True
      else if a = 1 then Some True
      else if b = 0 then None
      else if a mod b \<noteq> 0 then Some False
      else test_root (a div b) b)"

definition ext2_group_sparse :: "int \<Rightarrow> bool option" where
  "ext2_group_sparse grp =
     (case test_root grp 3 of None \<Rightarrow> None | Some True \<Rightarrow> Some True | Some False \<Rightarrow>
      (case test_root grp 5 of None \<Rightarrow> None | Some True \<Rightarrow> Some True | Some False \<Rightarrow>
        test_root grp 7))"

section \<open>Well-formed file systems\<close>

text \<open>
  What \<^verbatim>\<open>fsck\<close> guarantees and the allocator relies on: bitmaps that can be read and do
  not overlap, counters that agree with them, and the blocks that are not for data (the
  bitmaps, the inode tables, the boot block, the bits past the last block) marked used.
  \<open>bbm\<close> is the bitmap of a group and \<open>block_used\<close> the bit of a block number.
\<close>

definition bitmap_addr :: "m_ext2fs \<Rightarrow> nat \<Rightarrow> int" where
  "bitmap_addr sb g = fsbtodb sb (uint (bg_block_bitmap (gdesc sb g)))"

definition bbm :: "ext2mount \<Rightarrow> nat \<Rightarrow> u8 list" where
  "bbm m g = d_data (um_devvp m) (bitmap_addr (um_e2fs m) g)"

definition block_used :: "ext2mount \<Rightarrow> nat \<Rightarrow> bool" where
  "block_used m b = bm_bit (bbm m (dtog (um_e2fs m) b)) (dtogd (um_e2fs m) b)"

definition block_no :: "m_ext2fs \<Rightarrow> nat \<Rightarrow> nat \<Rightarrow> nat" where
  "block_no sb g j = first_data_block sb + g * e2fs_bpg sb + j"

definition sys_zone :: "m_ext2fs \<Rightarrow> nat \<Rightarrow> nat \<Rightarrow> bool" where
  "sys_zone sb g b \<longleftrightarrow> b = unat (bg_block_bitmap (gdesc sb g)) \<or> b = unat (bg_inode_bitmap (gdesc sb g)) \<or>
     (unat (bg_inode_table (gdesc sb g)) \<le> b \<and> b < unat (bg_inode_table (gdesc sb g)) + e2fs_itpg sb)"

definition geometry_ok :: "m_ext2fs \<Rightarrow> bool" where
  "geometry_ok sb \<longleftrightarrow>
     0 < e2fs_bpg sb \<and> 64 dvd e2fs_bpg sb \<and> e2fs_bpg sb \<le> 8 * s_blocksize sb \<and> e2fs_bpg sb < 2 ^ 16 \<and>
     0 < e2fs_itpg sb \<and> e2fs_itpg sb < 2 ^ 32 \<and>
     0 < s_groups_count sb \<and> first_data_block sb + (s_groups_count sb - 1) * e2fs_bpg sb < blocks_count sb \<and>
     blocks_count sb \<le> first_data_block sb + s_groups_count sb * e2fs_bpg sb \<and>
     first_data_block sb + s_groups_count sb * e2fs_bpg sb \<le> 2 ^ 31"

definition no_bitmap_cache :: "m_ext2fs \<Rightarrow> bool" where
  "no_bitmap_cache sb \<longleftrightarrow> s_loaded_block_bitmaps sb = 0 \<and> s_block_bitmap sb = replicate 8 None"

definition bitmaps_ok :: "ext2mount \<Rightarrow> bool" where
  "bitmaps_ok m \<longleftrightarrow> (let sb = um_e2fs m in
     (\<forall>g < s_groups_count sb. \<not> d_err (um_devvp m) (bitmap_addr sb g) \<and> length (bbm m g) = s_blocksize sb) \<and>
     (\<forall>g < s_groups_count sb. \<forall>h < s_groups_count sb. bitmap_addr sb g = bitmap_addr sb h \<longrightarrow> g = h))"

definition reserved_used :: "ext2mount \<Rightarrow> bool" where
  "reserved_used m \<longleftrightarrow> (let sb = um_e2fs m in
     \<forall>g < s_groups_count sb. \<forall>j < e2fs_bpg sb.
       sys_zone sb g (block_no sb g j) \<or> block_no sb g j = 0 \<or> blocks_count sb \<le> block_no sb g j \<longrightarrow>
       bm_bit (bbm m g) j)"

definition counts_ok :: "ext2mount \<Rightarrow> bool" where
  "counts_ok m \<longleftrightarrow> (let sb = um_e2fs m in
     (\<forall>g < s_groups_count sb.
        unat (bg_free_blocks_count (gdesc sb g)) = count_zeros (bm_bit (bbm m g)) (e2fs_bpg sb)) \<and>
     unat (s_free_blocks_count (s_es sb)) = (\<Sum>g < s_groups_count sb. unat (bg_free_blocks_count (gdesc sb g))))"

definition balloc_wf :: "ext2mount \<Rightarrow> bool" where
  "balloc_wf m \<longleftrightarrow> geometry_ok (um_e2fs m) \<and> gds_loaded (um_e2fs m) \<and> no_bitmap_cache (um_e2fs m) \<and>
     bitmaps_ok m \<and> reserved_used m \<and> counts_ok m"

abbreviation free_of :: "m_ext2fs \<Rightarrow> nat \<Rightarrow> nat" where
  "free_of sb g \<equiv> unat (bg_free_blocks_count (gdesc sb g))"

text \<open>The target of a search is a clear bit of the group.\<close>

definition target_ok :: "u8 list \<Rightarrow> nat \<Rightarrow> nb_target \<Rightarrow> bool" where
  "target_ok data bpg t = (case t of Got_block j \<Rightarrow> j < bpg \<and> \<not> bm_bit data j
     | Search_back j \<Rightarrow> j < bpg \<and> \<not> bm_bit data j | Not_found \<Rightarrow> True)"

definition choice_ok :: "ext2mount \<Rightarrow> nb_choice \<Rightarrow> bool" where
  "choice_ok m c = (case c of (g, p, bp, j) \<Rightarrow>
     g < s_groups_count (um_e2fs m) \<and> p = gd_ptr (um_e2fs m) g \<and>
     bp = (bitmap_addr (um_e2fs m) g, bbm m g) \<and> j < e2fs_bpg (um_e2fs m) \<and> \<not> bm_bit (bbm m g) j)"

definition choose_spec :: "ext2mount \<Rightarrow> (nb_choice option \<times> ext2mount) outcome \<Rightarrow> bool" where
  "choose_spec m r = (\<exists>c. r = Return (c, m) \<and>
     (case c of None \<Rightarrow> \<forall>g < s_groups_count (um_e2fs m). free_of (um_e2fs m) g = 0
      | Some c \<Rightarrow> choice_ok m c))"

text \<open>\<open>d'\<close> is \<open>d\<close> with the clear bits \<open>[lo, hi)\<close> set.\<close>

definition marks :: "nat \<Rightarrow> nat \<Rightarrow> u8 list \<Rightarrow> u8 list \<Rightarrow> bool" where
  "marks lo hi d d' \<longleftrightarrow> length d' = length d \<and> hi \<le> 8 * length d \<and>
     (\<forall>i. lo \<le> i \<and> i < hi \<longrightarrow> \<not> bm_bit d i) \<and>
     (\<forall>i < 8 * length d. bm_bit d' i \<longleftrightarrow> bm_bit d i \<or> (lo \<le> i \<and> i < hi))"

definition unmarks :: "nat \<Rightarrow> nat \<Rightarrow> u8 list \<Rightarrow> u8 list \<Rightarrow> bool" where
  "unmarks lo hi d d' \<longleftrightarrow> length d' = length d \<and>
     (\<forall>i < 8 * length d. bm_bit d' i \<longleftrightarrow> bm_bit d i \<and> \<not> (lo \<le> i \<and> i < hi))"

definition set_bits :: "u8 list \<Rightarrow> nat \<Rightarrow> nat \<Rightarrow> nat" where
  "set_bits d lo hi = length (filter (bm_bit d) [lo..<hi])"

text \<open>What no allocator changes: the geometry and the place of the bitmaps.\<close>

definition same_layout :: "m_ext2fs \<Rightarrow> m_ext2fs \<Rightarrow> bool" where
  "same_layout sb sb' \<longleftrightarrow>
     e2fs_bpg sb' = e2fs_bpg sb \<and> e2fs_itpg sb' = e2fs_itpg sb \<and> e2fs_ipg sb' = e2fs_ipg sb \<and>
     s_groups_count sb' = s_groups_count sb \<and> s_blocksize sb' = s_blocksize sb \<and> s_fsbtodb sb' = s_fsbtodb sb \<and>
     s_loaded_block_bitmaps sb' = s_loaded_block_bitmaps sb \<and> s_block_bitmap sb' = s_block_bitmap sb \<and>
     first_data_block sb' = first_data_block sb \<and> blocks_count sb' = blocks_count sb \<and>
     (gds_loaded sb \<longrightarrow> gds_loaded sb') \<and>
     (\<forall>g < s_groups_count sb. bg_block_bitmap (gdesc sb' g) = bg_block_bitmap (gdesc sb g) \<and>
        bg_inode_bitmap (gdesc sb' g) = bg_inode_bitmap (gdesc sb g) \<and>
        bg_inode_table (gdesc sb' g) = bg_inode_table (gdesc sb g))"

text \<open>
  What the block allocator may change in the super block: the free block counters and
  the dirty marks. On the device it writes block bitmaps only.
\<close>

definition only_free_counts :: "m_ext2fs \<Rightarrow> m_ext2fs \<Rightarrow> bool" where
  "only_free_counts sb sb' \<longleftrightarrow>
     (\<exists>n ds D d. sb' = sb\<lparr>s_es := (s_es sb)\<lparr>s_free_blocks_count := n\<rparr>, s_group_desc := ds,
        s_gd_dirty := D, s_dirt := d\<rparr>) \<and>
     (\<forall>g < s_groups_count sb. \<exists>n. gdesc sb' g = (gdesc sb g)\<lparr>bg_free_blocks_count := n\<rparr>)"

definition blocks_frame :: "ext2mount \<Rightarrow> ext2mount \<Rightarrow> bool" where
  "blocks_frame m m' \<longleftrightarrow> um_nindir m' = um_nindir m \<and> um_bptrtodb m' = um_bptrtodb m \<and> um_seqinc m' = um_seqinc m \<and>
     only_free_counts (um_e2fs m) (um_e2fs m') \<and>
     d_err (um_devvp m') = d_err (um_devvp m) \<and> d_addr (um_devvp m') = d_addr (um_devvp m) \<and>
     (\<forall>a. (\<forall>g < s_groups_count (um_e2fs m). a \<noteq> bitmap_addr (um_e2fs m) g) \<longrightarrow>
        d_data (um_devvp m') a = d_data (um_devvp m) a)"

text \<open>The counters of group \<open>g\<close> and of the super block have gone down by \<open>n\<close>.\<close>

definition took :: "m_ext2fs \<Rightarrow> nat \<Rightarrow> nat \<Rightarrow> m_ext2fs \<Rightarrow> bool" where
  "took sb g n sb' \<longleftrightarrow> same_layout sb sb' \<and> only_free_counts sb sb' \<and> gd_ptr sb' = gd_ptr sb \<and>
     s_es sb' = (s_es sb)\<lparr>s_free_blocks_count := s_free_blocks_count (s_es sb) - of_nat n\<rparr> \<and>
     (\<forall>h < s_groups_count sb. bg_free_blocks_count (gdesc sb' h) =
        bg_free_blocks_count (gdesc sb h) - (if h = g then of_nat n else 0))"

text \<open>The counters after \<open>n\<close> bits of group \<open>g\<close> have been cleared.\<close>

definition gave :: "m_ext2fs \<Rightarrow> nat \<Rightarrow> nat \<Rightarrow> m_ext2fs \<Rightarrow> bool" where
  "gave sb g n sb' \<longleftrightarrow> same_layout sb sb' \<and> only_free_counts sb sb' \<and>
     s_free_blocks_count (s_es sb') = s_free_blocks_count (s_es sb) + of_nat n \<and>
     (\<forall>h < s_groups_count sb. bg_free_blocks_count (gdesc sb' h) =
        bg_free_blocks_count (gdesc sb h) + (if h = g then of_nat n else 0))"

text \<open>
  What allocating the blocks \<open>b, \<dots>, b + c\<close> does: they were free blocks of the file
  system, they are used afterwards, no other block changes and the free count drops by
  their number.
\<close>

definition allocated :: "ext2mount \<Rightarrow> nat \<Rightarrow> nat \<Rightarrow> ext2mount \<Rightarrow> bool" where
  "allocated m b c m' \<longleftrightarrow> (let sb = um_e2fs m in
     0 < b \<and> first_data_block sb \<le> b \<and> b + c < blocks_count sb \<and>
     dtogd sb b + c < e2fs_bpg sb \<and> same_layout sb (um_e2fs m') \<and> blocks_frame m m' \<and>
     (\<forall>x. b \<le> x \<and> x \<le> b + c \<longrightarrow> \<not> block_used m x) \<and>
     (\<forall>x. first_data_block sb \<le> x \<and> x < blocks_count sb \<longrightarrow>
        (block_used m' x \<longleftrightarrow> block_used m x \<or> (b \<le> x \<and> x \<le> b + c))) \<and>
     unat (s_free_blocks_count (s_es (um_e2fs m'))) + c + 1 = unat (s_free_blocks_count (s_es sb)))"

text \<open>What freeing \<open>c\<close> blocks from \<open>b\<close> does to the blocks of the file system and the count.\<close>

definition freed :: "ext2mount \<Rightarrow> nat \<Rightarrow> nat \<Rightarrow> ext2mount \<Rightarrow> bool" where
  "freed m b c m' \<longleftrightarrow> (let sb = um_e2fs m in
     same_layout sb (um_e2fs m') \<and> blocks_frame m m' \<and>
     (\<forall>x. first_data_block sb \<le> x \<and> x < blocks_count sb \<longrightarrow>
        (block_used m' x \<longleftrightarrow> block_used m x \<and> \<not> (b \<le> x \<and> x < b + c))) \<and>
     unat (s_free_blocks_count (s_es (um_e2fs m'))) =
       unat (s_free_blocks_count (s_es sb)) + length (filter (block_used m) [b..<b + c]))"

text \<open>
  The allocator as steps on the set of free blocks: \<open>block_take\<close> is a successful
  \<^verbatim>\<open>ext2_new_block\<close> and \<open>block_give\<close> an \<^verbatim>\<open>ext2_free_blocks\<close> of data blocks in one group.
\<close>

definition free_blocks :: "ext2mount \<Rightarrow> nat set" where
  "free_blocks m = {b. first_data_block (um_e2fs m) \<le> b \<and> b < blocks_count (um_e2fs m) \<and> \<not> block_used m b}"

definition block_take :: "ext2mount \<Rightarrow> nat set \<Rightarrow> ext2mount \<Rightarrow> bool" where
  "block_take m A m' \<longleftrightarrow> (\<exists>goal want n pre. ext2_new_block m goal want = Some (Return (n, pre, m')) \<and> 0 < n \<and>
     A = {nat n..nat n + (case pre of None \<Rightarrow> 0 | Some (c, b) \<Rightarrow> c)})"

definition data_range :: "m_ext2fs \<Rightarrow> nat \<Rightarrow> nat \<Rightarrow> bool" where
  "data_range sb b c \<longleftrightarrow> first_data_block sb \<le> b \<and> b + c \<le> blocks_count sb \<and> 0 < b \<and> 0 < c \<and>
     dtogd sb b + c \<le> e2fs_bpg sb \<and> (\<forall>x \<in> {b..<b + c}. \<not> sys_zone sb (dtog sb b) x)"

definition block_give :: "ext2mount \<Rightarrow> nat set \<Rightarrow> ext2mount \<Rightarrow> bool" where
  "block_give m A m' \<longleftrightarrow> (\<exists>b c. data_range (um_e2fs m) b c \<and> ext2_free_blocks m b c = Return m' \<and> A = {b..<b + c})"

section \<open>Loading\<close>

lemma load_block_bitmap_wf:
  assumes "balloc_wf m" "g < s_groups_count (um_e2fs m)"
  shows "load_block_bitmap m g = Return ((bitmap_addr (um_e2fs m) g, bbm m g), m)"
proof -
  have "read_block_bitmap m g = Return (bitmap_addr (um_e2fs m) g, bbm m g)"
    using assms by (simp add: balloc_wf_def bitmaps_ok_def read_block_bitmap_def get_group_desc_loaded
        buf_meta_bread_def bbm_def bitmap_addr_def gdesc_def Let_def)
  then show ?thesis using assms
    by (simp add: balloc_wf_def no_bitmap_cache_def load_block_bitmap_def load__block_bitmap_def Let_def)
qed

section \<open>Searches\<close>

lemma search_back_zero:
  "\<not> bm_bit data j \<Longrightarrow> \<not> bm_bit data (nb_search_back data k j) \<and> nb_search_back data k j \<le> j"
  by (induction data k j rule: nb_search_back.induct) (auto intro: le_trans)

lemma settle_ok: "target_ok data bpg t \<Longrightarrow> nb_settle data t = Some j \<Longrightarrow> j < bpg \<and> \<not> bm_bit data j"
  using search_back_zero [of data _ 7]
  by (fastforce simp: target_ok_def nb_settle_def split: nb_target.splits)

lemma zero_byte_bit: "data ! i = 0 \<Longrightarrow> \<not> bm_bit data (8 * i)"
  by (simp add: bm_bit_def)

lemma memscan_zero_byte:
  assumes "8 * (off + n) < 2 ^ 31" "ulong (memscan_bitno (memscan a data off 0 n) a) < 8 * (off + n)"
  shows "nat (memscan_bitno (memscan a data off 0 n) a) < 8 * (off + n) \<and>
         \<not> bm_bit data (nat (memscan_bitno (memscan a data off 0 n) a))"
proof (cases "scasb data 0 off n")
  case None
  then show ?thesis using assms by (simp add: memscan_bitno_eq ulong_def)
next
  case (Some i)
  then show ?thesis using scasb_Some [OF Some] zero_byte_bit [of data i] assms(1)
    by (simp add: memscan_bitno_eq nat_mult_distrib)
qed

lemma first_zero_int32:
  assumes "lo \<le> hi" "hi < 2 ^ 31"
  shows "int32 (int (first_zero d lo hi)) = int (first_zero d lo hi)"
    "ulong (int (first_zero d lo hi)) = first_zero d lo hi"
  using first_zero_bounds [OF assms(1), of d] assms(2) by (auto simp: int32_id ulong_def)

lemma rest_of_group_ok:
  assumes "64 dvd bpg" "bpg < 2 ^ 16" "8 dvd j" "j \<le> bpg"
  shows "target_ok data bpg (nb_rest_of_group a data bpg j)"
    and "nb_rest_of_group a data bpg j = Not_found \<Longrightarrow> \<forall>i. j \<le> i \<and> i < bpg \<longrightarrow> bm_bit data i"
proof -
  let ?n = "ulong (int bpg - int j + 7) div 8" and ?f = "first_zero data j bpg"
  have "8 dvd bpg" using assms(1) by (rule dvd_trans [rotated]) simp
  then obtain q p where q: "bpg = 8 * q" "j = 8 * p" using assms(3) by (auto elim!: dvdE)
  have "ulong (int bpg - int j + 7) = 7 + 8 * (q - p)"
    using assms(2,4) q by (simp add: ulong_def)
  then have n: "8 * (j div 8 + ?n) = bpg" using q assms(4) by simp
  have small: "8 * (j div 8 + ?n) < 2 ^ 31" using n assms(2) by simp
  have f: "ext2_find_next_zero_bit data bpg j = ?f"
    using assms by (intro find_next_first_zero) simp_all
  note mz = memscan_zero_byte [OF small, of a data, unfolded n]
  note fz = first_zero_int32 [OF assms(4), of data]
  show "target_ok data bpg (nb_rest_of_group a data bpg j)"
    using mz f fz assms(2,4) first_zero_is_zero [of data j bpg]
    by (auto simp: nb_rest_of_group_def target_ok_def Let_def)
  show "\<forall>i. j \<le> i \<and> i < bpg \<longrightarrow> bm_bit data i" if "nb_rest_of_group a data bpg j = Not_found"
    using that f fz assms(2,4) first_zero_below [of j _ data bpg]
    by (auto simp: nb_rest_of_group_def Let_def split: if_splits)
qed


lemma near_goal_ok:
  assumes "64 dvd bpg" "bpg < 2 ^ 16" "j < bpg"
  shows "target_ok data bpg (nb_near_goal a data bpg j)"
proof (cases "bm_bit data j \<and> j \<noteq> 0")
  case True
  let ?e = "(j + 63) div 64 * 64"
  obtain q where q: "bpg = 64 * q" using assms(1) by (rule dvdE)
  have "j \<le> ?e" "(j + 63) div 64 \<le> q" using assms(3) q by linarith+
  then have e: "j \<le> ?e" "?e \<le> bpg" "64 dvd ?e" using q by simp_all
  have "ext2_find_next_zero_bit data ?e j = first_zero data j ?e"
    using e assms(2) by (intro find_next_first_zero) simp_all
  moreover have "first_zero data j ?e \<le> ?e" using first_zero_bounds [OF e(1)] by simp
  moreover have "first_zero data j ?e < ?e \<Longrightarrow> \<not> bm_bit data (first_zero data j ?e)"
    using first_zero_is_zero e(1) by blast
  moreover have "8 dvd ?e" using e(3) by (rule dvd_trans [rotated]) simp
  ultimately show ?thesis
    using True e rest_of_group_ok(1) [OF assms(1,2), of ?e data a]
    by (auto simp: nb_near_goal_def Let_def target_ok_def)
next
  case False
  then show ?thesis using rest_of_group_ok(1) [OF assms(1,2), of 0 data a] assms(3)
    by (auto simp: nb_near_goal_def target_ok_def)
qed

lemma scan_group_ok:
  assumes "64 dvd bpg" "bpg < 2 ^ 16"
  shows "target_ok data bpg (nb_scan_group a data bpg)"
    and "nb_scan_group a data bpg = Not_found \<Longrightarrow> \<forall>i < bpg. bm_bit data i"
proof -
  let ?f = "first_zero data 0 bpg"
  have "8 dvd bpg" using assms(1) by (rule dvd_trans [rotated]) simp
  then have n: "8 * (0 + bpg div 8) = bpg" by simp
  have small: "8 * (0 + bpg div 8) < 2 ^ 31" using n assms(2) by simp
  have f: "ext2_find_first_zero_bit data bpg = ?f"
    using find_first_zero_bit_at_first_zero [of 0 data bpg] by (simp add: ext2_find_first_zero_bit_def)
  note mz = memscan_zero_byte [OF small, of a data, unfolded n]
  note fz = first_zero_int32 [of 0 bpg data]
  show "target_ok data bpg (nb_scan_group a data bpg)"
    using mz f fz assms(2) first_zero_is_zero [of data 0 bpg]
    by (auto simp: nb_scan_group_def target_ok_def Let_def)
  show "\<forall>i < bpg. bm_bit data i" if "nb_scan_group a data bpg = Not_found"
    using that f fz assms(2) first_zero_below [of 0 _ data bpg]
    by (auto simp: nb_scan_group_def Let_def split: if_splits)
qed

section \<open>The walk over the groups\<close>

lemma next_group_ok:
  assumes "gds_loaded sb" "i < s_groups_count sb"
  shows "\<exists>r. nb_next_group n sb i = Return r \<and>
     (case r of None \<Rightarrow> \<forall>k. 1 \<le> k \<and> k \<le> n \<longrightarrow> free_of sb ((i + k) mod s_groups_count sb) = 0
      | Some (g, p) \<Rightarrow> g < s_groups_count sb \<and> p = gd_ptr sb g \<and> 0 < free_of sb g)"
  using assms(2)
proof (induction n arbitrary: i)
  case (Suc n)
  let ?N = "s_groups_count sb" and ?i = "if i + 1 \<ge> s_groups_count sb then 0 else i + 1"
  have i: "?i < ?N" "?i = (i + 1) mod ?N"
    using Suc.prems by (cases "Suc i = ?N"; auto)+
  show ?case
  proof (cases "free_of sb ?i = 0")
    case True
    then have step: "nb_next_group (Suc n) sb i = nb_next_group n sb ?i"
      using i get_group_desc_loaded [OF assms(1) i(1)] by (simp add: Let_def gdesc_def word_neq_0_conv [symmetric] unat_eq_0)
    have shift: "(?i + k) mod ?N = (i + Suc k) mod ?N" for k
    proof -
      have "(?i + k) mod ?N = ((i + 1) mod ?N + k) mod ?N" by (simp only: i(2))
      then show ?thesis by (simp add: mod_add_left_eq)
    qed
    have all: "free_of sb ((i + k) mod ?N) = 0"
      if "\<forall>k. 1 \<le> k \<and> k \<le> n \<longrightarrow> free_of sb ((?i + k) mod ?N) = 0" "1 \<le> k" "k \<le> Suc n" for k
    proof (cases "k = 1")
      case True
      then show ?thesis using \<open>free_of sb ?i = 0\<close> unfolding i(2) by simp
    next
      case False
      then have l: "k = Suc (k - 1)" "1 \<le> k - 1" "k - 1 \<le> n" using that(2,3) by simp_all
      then show ?thesis using that(1) shift [of "k - 1"] by metis
    qed
    obtain r where r: "nb_next_group n sb ?i = Return r"
      "case r of None \<Rightarrow> \<forall>k. 1 \<le> k \<and> k \<le> n \<longrightarrow> free_of sb ((?i + k) mod ?N) = 0
       | Some (g, p) \<Rightarrow> g < ?N \<and> p = gd_ptr sb g \<and> 0 < free_of sb g"
      using Suc.IH [OF i(1)] by blast
    show ?thesis unfolding step using r all by (intro exI [of _ r]) (cases r; simp)
  next
    case False
    then show ?thesis using i get_group_desc_loaded [OF assms(1) i(1)]
      by (auto simp: Let_def gdesc_def word_gt_0)
  qed
qed simp

lemma next_group_none:
  assumes "gds_loaded sb" "i < s_groups_count sb" "nb_next_group (s_groups_count sb) sb i = Return None"
    "g < s_groups_count sb"
  shows "free_of sb g = 0"
proof -
  let ?N = "s_groups_count sb" and ?k = "if g > i then g - i else g + s_groups_count sb - i"
  have k: "1 \<le> ?k" "?k \<le> ?N" "(i + ?k) mod ?N = g" using assms(2,4) by auto
  from next_group_ok [OF assms(1,2), of ?N] assms(3)
  have "\<forall>k. 1 \<le> k \<and> k \<le> ?N \<longrightarrow> free_of sb ((i + k) mod ?N) = 0" by simp
  then show ?thesis using k by metis
qed


section \<open>The choice of a block\<close>

lemma other_groups_ok:
  assumes "balloc_wf m" "i < s_groups_count (um_e2fs m)"
  shows "choose_spec m (nb_other_groups m i)"
proof -
  let ?sb = "um_e2fs m"
  have gl: "gds_loaded ?sb" and geo: "64 dvd e2fs_bpg ?sb" "e2fs_bpg ?sb < 2 ^ 16"
    using assms(1) by (simp_all add: balloc_wf_def geometry_ok_def)
  obtain r where r: "nb_next_group (s_groups_count ?sb) ?sb i = Return r"
    "case r of None \<Rightarrow> True | Some (g, p) \<Rightarrow> g < s_groups_count ?sb \<and> p = gd_ptr ?sb g \<and> 0 < free_of ?sb g"
    using next_group_ok [OF gl assms(2)] by (metis (no_types, lifting) option.case_eq_if)
  show ?thesis
  proof (cases r)
    case None
    then show ?thesis using r(1) next_group_none [OF gl assms(2)]
      by (simp add: choose_spec_def nb_other_groups_def Let_def)
  next
    case (Some gp)
    then obtain g p where g: "r = Some (g, p)" "g < s_groups_count ?sb" "p = gd_ptr ?sb g" "0 < free_of ?sb g"
      using r(2) by (cases gp) auto
    let ?t = "nb_scan_group (d_addr (um_devvp m) (bitmap_addr ?sb g)) (bbm m g) (e2fs_bpg ?sb)"
    have "\<exists>j < e2fs_bpg ?sb. \<not> bm_bit (bbm m g) j"
      using assms(1) g(2,4) by (simp add: balloc_wf_def counts_ok_def Let_def count_zeros_pos)
    then have "?t \<noteq> Not_found" using scan_group_ok(2) [OF geo] by blast
    then obtain j where j: "nb_settle (bbm m g) ?t = Some j" by (cases ?t) (auto simp: nb_settle_def)
    then show ?thesis
      using settle_ok [OF scan_group_ok(1) [OF geo] j] r(1) g load_block_bitmap_wf [OF assms(1) g(2)]
      by (simp add: choose_spec_def choice_ok_def nb_other_groups_def Let_def)
  qed
qed

lemma choose_ok:
  assumes "balloc_wf m" "first_data_block (um_e2fs m) \<le> goal" "goal < blocks_count (um_e2fs m)"
  shows "choose_spec m (nb_choose m goal)"
proof -
  let ?sb = "um_e2fs m" and ?i = "(goal - first_data_block (um_e2fs m)) div e2fs_bpg (um_e2fs m)"
  let ?j = "(goal - first_data_block (um_e2fs m)) mod e2fs_bpg (um_e2fs m)"
  have geo: "64 dvd e2fs_bpg ?sb" "e2fs_bpg ?sb < 2 ^ 16" "0 < e2fs_bpg ?sb"
    using assms(1) by (simp_all add: balloc_wf_def geometry_ok_def)
  have "goal - first_data_block ?sb < s_groups_count ?sb * e2fs_bpg ?sb"
    using assms by (auto simp: balloc_wf_def geometry_ok_def)
  then have i: "?i < s_groups_count ?sb" by (rule less_mult_imp_div_less)
  have j: "?j < e2fs_bpg ?sb" using geo(3) by simp
  let ?t = "nb_near_goal (d_addr (um_devvp m) (bitmap_addr ?sb ?i)) (bbm m ?i) (e2fs_bpg ?sb) ?j"
  have gp: "get_group_desc ?sb ?i = Return (gd_ptr ?sb ?i)"
    using assms(1) i by (simp add: balloc_wf_def get_group_desc_loaded)
  note settled = settle_ok [OF near_goal_ok [OF geo(1,2) j]]
  show ?thesis
  proof (cases "bg_free_blocks_count (gdp_read ?sb (gd_ptr ?sb ?i)) > 0")
    case True
    show ?thesis
    proof (cases "nb_settle (bbm m ?i) ?t")
      case None
      then show ?thesis using True gp load_block_bitmap_wf [OF assms(1) i] other_groups_ok [OF assms(1) i]
        by (simp add: nb_choose_def Let_def)
    next
      case (Some j')
      then show ?thesis using True gp load_block_bitmap_wf [OF assms(1) i] settled [OF Some] i
        by (simp add: nb_choose_def Let_def choose_spec_def choice_ok_def)
    qed
  next
    case False
    then show ?thesis using gp other_groups_ok [OF assms(1) i] by (simp add: nb_choose_def Let_def)
  qed
qed

section \<open>Runs of bits\<close>

lemma marks_count:
  assumes "marks lo hi d d'" "hi \<le> n" "n \<le> 8 * length d"
  shows "count_zeros (bm_bit d) n = count_zeros (bm_bit d') n + (hi - lo)"
proof -
  have "{i. i < n \<and> \<not> bm_bit d i} = {i. i < n \<and> \<not> bm_bit d' i} \<union> {lo..<hi}"
    using assms unfolding marks_def by auto
  moreover have "{i. i < n \<and> \<not> bm_bit d' i} \<inter> {lo..<hi} = {}"
    using assms unfolding marks_def by auto
  ultimately show ?thesis by (simp add: count_zeros_card card_Un_disjoint)
qed

lemma marks_step:
  assumes "lo < 8 * length d" "\<not> bm_bit d lo" "marks (Suc lo) hi (snd (ext2_set_bit lo d)) d'" "lo < hi"
  shows "marks lo hi d d'"
proof -
  have e: "bm_bit (snd (ext2_set_bit lo d)) i \<longleftrightarrow> i = lo \<or> bm_bit d i" if "i < 8 * length d" for i
    using bm.tst_ins assms(1) that by blast
  have hi: "hi \<le> 8 * length d" using assms(3) by (simp add: marks_def)
  have "\<not> bm_bit d i" if "lo \<le> i" "i < hi" for i
    using assms(2,3) e [of i] that hi by (cases "i = lo") (auto simp: marks_def)
  moreover have "bm_bit d' i \<longleftrightarrow> bm_bit d i \<or> (lo \<le> i \<and> i < hi)" if "i < 8 * length d" for i
    using assms(3,4) e [of i] that by (cases "i = lo") (auto simp: marks_def)
  ultimately show ?thesis using assms(3) by (simp add: marks_def)
qed

lemma prealloc_marks:
  assumes "nb_prealloc bpg n b data c = (data', c')" "bpg \<le> 8 * length data" "b \<le> bpg"
  shows "marks b (b + (c' - c)) data data' \<and> c \<le> c' \<and> c' \<le> c + n \<and> b + (c' - c) \<le> bpg"
  using assms
proof (induction bpg n b data c rule: nb_prealloc.induct)
  case (2 bpg n b data c)
  let ?d = "snd (ext2_set_bit b data)"
  consider (stop) "bpg = b" | (hit) "b < bpg" "bm_bit data b" | (go) "b < bpg" "\<not> bm_bit data b"
    using 2(4) by linarith
  then show ?case
  proof cases
    case stop
    then show ?thesis using 2(2-) by (auto simp: marks_def)
  next
    case hit
    then have "data' = ?d" "c' = c" using 2(2) set_bit_old [of b data] by (auto simp: split_def Let_def)
    then show ?thesis using hit 2(3) bm.tst_ins [of b data] by (auto simp: marks_def)
  next
    case go
    then have "nb_prealloc bpg n (Suc b) ?d (c + 1) = (data', c')"
      using 2(2) set_bit_old [of b data] by (auto simp: split_def Let_def)
    then have ih: "marks (Suc b) (Suc b + (c' - Suc c)) ?d data' \<and> Suc c \<le> c' \<and> c' \<le> Suc c + n \<and> Suc b + (c' - Suc c) \<le> bpg"
      using 2(1) [OF go(1) refl, of "fst (ext2_set_bit b data)" ?d] go set_bit_old [of b data] 2(3) by (auto simp: prod_eq_iff)
    from ih have "Suc c \<le> c'" by blast
    then have e: "Suc b + (c' - Suc c) = b + (c' - c)" by simp
    show ?thesis using marks_step [of b data "b + (c' - c)" data'] ih go 2(3) unfolding e by auto
  qed
qed (auto simp: marks_def)



section \<open>Updates of the state\<close>

lemma block_no_inv:
  assumes "j < e2fs_bpg sb"
  shows "dtog sb (block_no sb g j) = g" "dtogd sb (block_no sb g j) = j"
  using assms by (simp_all add: dtog_def dtogd_def block_no_def)

lemma block_no_dtog:
  assumes "first_data_block sb \<le> b"
  shows "block_no sb (dtog sb b) (dtogd sb b) = b"
  using assms by (simp add: dtog_def dtogd_def block_no_def)

lemma geometry_dtog:
  assumes "geometry_ok sb" "first_data_block sb \<le> b" "b < blocks_count sb"
  shows "dtog sb b < s_groups_count sb" "dtogd sb b < e2fs_bpg sb"
proof -
  have "b - first_data_block sb < s_groups_count sb * e2fs_bpg sb"
    using assms by (auto simp: geometry_ok_def)
  then show "dtog sb b < s_groups_count sb" unfolding dtog_def by (rule less_mult_imp_div_less)
  show "dtogd sb b < e2fs_bpg sb" using assms(1) by (simp add: dtogd_def geometry_ok_def)
qed

lemma block_no_bound:
  assumes "geometry_ok sb" "g < s_groups_count sb" "j < e2fs_bpg sb"
  shows "block_no sb g j < 2 ^ 31"
proof -
  have "g * e2fs_bpg sb + j < Suc g * e2fs_bpg sb" using assms(3) by simp
  also have "\<dots> \<le> s_groups_count sb * e2fs_bpg sb" using assms(2) by (intro mult_right_mono) auto
  finally show ?thesis using assms(1) by (simp add: block_no_def geometry_ok_def)
qed

lemma same_layoutD:
  assumes "same_layout sb sb'"
  shows "g < s_groups_count sb \<Longrightarrow> bitmap_addr sb' g = bitmap_addr sb g"
    "g < s_groups_count sb \<Longrightarrow> sys_zone sb' g b = sys_zone sb g b"
    "block_no sb' = block_no sb" "dtog sb' = dtog sb" "dtogd sb' = dtogd sb"
    "geometry_ok sb' = geometry_ok sb"
    "no_bitmap_cache sb' = no_bitmap_cache sb"
  using assms
  by (simp_all add: same_layout_def bitmap_addr_def fsbtodb_def sys_zone_def block_no_def [abs_def]
      dtog_def [abs_def] dtogd_def [abs_def] geometry_ok_def no_bitmap_cache_def)

lemma bbm_update:
  assumes "bitmaps_ok m" "same_layout (um_e2fs m) sb'" "g < s_groups_count (um_e2fs m)" "h < s_groups_count (um_e2fs m)"
  shows "bbm (m\<lparr>um_e2fs := sb', um_devvp := buf_write (bitmap_addr (um_e2fs m) g, data) (um_devvp m)\<rparr>) h
         = (if h = g then data else bbm m h)"
  using assms(1,3,4) same_layoutD(1) [OF assms(2)]
  by (auto simp: bbm_def buf_write_def bitmaps_ok_def Let_def)

lemma wf_update:
  fixes m sb' g data
  defines "m' \<equiv> m\<lparr>um_e2fs := sb', um_devvp := buf_write (bitmap_addr (um_e2fs m) g, data) (um_devvp m)\<rparr>"
  assumes "balloc_wf m" "same_layout (um_e2fs m) sb'" "g < s_groups_count (um_e2fs m)"
    and len: "length data = length (bbm m g)"
    and res: "\<And>j. j < e2fs_bpg (um_e2fs m) \<Longrightarrow> bm_bit (bbm m g) j \<Longrightarrow> \<not> bm_bit data j \<Longrightarrow>
       \<not> sys_zone (um_e2fs m) g (block_no (um_e2fs m) g j) \<and> block_no (um_e2fs m) g j \<noteq> 0 \<and>
       block_no (um_e2fs m) g j < blocks_count (um_e2fs m)"
    and cnt: "free_of sb' g = count_zeros (bm_bit data) (e2fs_bpg (um_e2fs m))"
      "\<And>h. h < s_groups_count (um_e2fs m) \<Longrightarrow> h \<noteq> g \<Longrightarrow> free_of sb' h = free_of (um_e2fs m) h"
      "unat (s_free_blocks_count (s_es sb')) = (\<Sum>h < s_groups_count (um_e2fs m). free_of sb' h)"
  shows "balloc_wf m'"
proof -
  let ?sb = "um_e2fs m"
  have bm: "bbm m' h = (if h = g then data else bbm m h)" if "h < s_groups_count ?sb" for h
    unfolding m'_def using assms(2-4) that by (intro bbm_update) (simp_all add: balloc_wf_def)
  note L = same_layoutD [OF assms(3)]
  have N: "s_groups_count sb' = s_groups_count ?sb" "e2fs_bpg sb' = e2fs_bpg ?sb" "s_blocksize sb' = s_blocksize ?sb"
    "blocks_count sb' = blocks_count ?sb" using assms(3) by (simp_all add: same_layout_def)
  have m': "um_e2fs m' = sb'" "d_err (um_devvp m') = d_err (um_devvp m)" by (simp_all add: m'_def buf_write_def)
  have "bitmaps_ok m'"
    using assms(2,4) len by (simp add: balloc_wf_def bitmaps_ok_def Let_def m' N L(1) bm)
  moreover have "reserved_used m'"
    unfolding reserved_used_def Let_def m' N L(3)
  proof (intro allI impI)
    fix h j assume h: "h < s_groups_count ?sb" and j: "j < e2fs_bpg ?sb"
      and z: "sys_zone sb' h (block_no ?sb h j) \<or> block_no ?sb h j = 0 \<or> blocks_count ?sb \<le> block_no ?sb h j"
    then have "bm_bit (bbm m h) j"
      using assms(2) L(2) [OF h] by (auto simp: balloc_wf_def reserved_used_def Let_def)
    then show "bm_bit (bbm m' h) j"
      using res [OF j] z L(2) [OF h] bm [OF h]
      by (cases "h = g"; cases "bm_bit data j") auto
  qed
  moreover have "counts_ok m'"
    using assms(2) cnt by (simp add: balloc_wf_def counts_ok_def Let_def m' N bm)
  ultimately show ?thesis
    using assms(2,3) by (simp add: balloc_wf_def m' L same_layout_def)
qed

section \<open>Committing an allocation\<close>

lemma only_free_counts_refl: "only_free_counts sb sb"
proof -
  have "sb = sb\<lparr>s_es := (s_es sb)\<lparr>s_free_blocks_count := s_free_blocks_count (s_es sb)\<rparr>,
      s_group_desc := s_group_desc sb, s_gd_dirty := s_gd_dirty sb, s_dirt := s_dirt sb\<rparr>" by simp
  moreover have "gdesc sb g = (gdesc sb g)\<lparr>bg_free_blocks_count := bg_free_blocks_count (gdesc sb g)\<rparr>" for g by simp
  ultimately show ?thesis unfolding only_free_counts_def by blast
qed

lemma only_free_counts_trans:
  assumes "only_free_counts a b" "only_free_counts b c"
  shows "only_free_counts a c"
proof -
  obtain n ds D d where b: "b = a\<lparr>s_es := (s_es a)\<lparr>s_free_blocks_count := n\<rparr>, s_group_desc := ds,
        s_gd_dirty := D, s_dirt := d\<rparr>" using assms(1) by (auto simp: only_free_counts_def)
  obtain n' ds' D' d' where c: "c = b\<lparr>s_es := (s_es b)\<lparr>s_free_blocks_count := n'\<rparr>, s_group_desc := ds',
        s_gd_dirty := D', s_dirt := d'\<rparr>" using assms(2) by (auto simp: only_free_counts_def)
  have e: "c = a\<lparr>s_es := (s_es a)\<lparr>s_free_blocks_count := n'\<rparr>, s_group_desc := ds',
        s_gd_dirty := D', s_dirt := d'\<rparr>" unfolding c b by simp
  have g: "\<exists>n. gdesc c g = (gdesc a g)\<lparr>bg_free_blocks_count := n\<rparr>" if "g < s_groups_count a" for g
  proof -
    have "g < s_groups_count b" using that unfolding b by simp
    then obtain l where l: "gdesc c g = (gdesc b g)\<lparr>bg_free_blocks_count := l\<rparr>"
      using assms(2) unfolding only_free_counts_def by blast
    obtain k where "gdesc b g = (gdesc a g)\<lparr>bg_free_blocks_count := k\<rparr>"
      using assms(1) \<open>g < s_groups_count a\<close> unfolding only_free_counts_def by blast
    with l have "gdesc c g = (gdesc a g)\<lparr>bg_free_blocks_count := l\<rparr>" by simp
    then show ?thesis by auto
  qed
  show ?thesis unfolding only_free_counts_def using e g by blast
qed

lemma only_free_counts_write:
  assumes "gds_loaded sb" "g < s_groups_count sb"
  shows "only_free_counts sb ((gdp_write (gd_ptr sb g) ((gdesc sb g)\<lparr>bg_free_blocks_count := n\<rparr>) sb)
     \<lparr>s_es := (s_es sb)\<lparr>s_free_blocks_count := k\<rparr>\<rparr>)"
proof -
  let ?sb' = "(gdp_write (gd_ptr sb g) ((gdesc sb g)\<lparr>bg_free_blocks_count := n\<rparr>) sb)\<lparr>s_es := (s_es sb)\<lparr>s_free_blocks_count := k\<rparr>\<rparr>"
  have "?sb' = sb\<lparr>s_es := (s_es sb)\<lparr>s_free_blocks_count := k\<rparr>, s_group_desc := s_group_desc ?sb',
      s_gd_dirty := s_gd_dirty sb, s_dirt := s_dirt sb\<rparr>" by (simp add: gdp_write_def)
  moreover have "gdesc ?sb' h = (gdesc sb h)\<lparr>bg_free_blocks_count := if h = g then n else bg_free_blocks_count (gdesc sb h)\<rparr>"
    if "h < s_groups_count sb" for h using gdt.get_put [OF assms that] by simp
  ultimately show ?thesis unfolding only_free_counts_def by blast
qed

lemma only_free_counts_dirty: "only_free_counts sb ((mark_buffer_dirty p sb)\<lparr>s_dirt := v\<rparr>)"
proof -
  have "(mark_buffer_dirty p sb)\<lparr>s_dirt := v\<rparr> = sb\<lparr>s_es := (s_es sb)\<lparr>s_free_blocks_count := s_free_blocks_count (s_es sb)\<rparr>,
      s_group_desc := s_group_desc sb, s_gd_dirty := insert (fst p) (s_gd_dirty sb), s_dirt := v\<rparr>"
    by (simp add: mark_buffer_dirty_def)
  moreover have "gdesc ((mark_buffer_dirty p sb)\<lparr>s_dirt := v\<rparr>) g =
      (gdesc sb g)\<lparr>bg_free_blocks_count := bg_free_blocks_count (gdesc sb g)\<rparr>" for g by simp
  ultimately show ?thesis unfolding only_free_counts_def by blast
qed

lemma blocks_frame_write:
  assumes "only_free_counts (um_e2fs m) sb'" "g < s_groups_count (um_e2fs m)"
  shows "blocks_frame m (m\<lparr>um_e2fs := sb', um_devvp := buf_write (bitmap_addr (um_e2fs m) g, data) (um_devvp m)\<rparr>)"
  using assms by (auto simp: blocks_frame_def buf_write_def)

lemma take_free_simps:
  fixes sb g n
  defines "sb' \<equiv> take_free (gd_ptr sb g) n sb"
  assumes "gds_loaded sb" "g < s_groups_count sb"
  shows "same_layout sb sb'" and "only_free_counts sb sb'"
    and "h < s_groups_count sb \<Longrightarrow> bg_free_blocks_count (gdesc sb' h) =
           (if h = g then bg_free_blocks_count (gdesc sb g) - of_nat n else bg_free_blocks_count (gdesc sb h))"
    and "s_free_blocks_count (s_es sb') = s_free_blocks_count (s_es sb) - of_nat n"
    and "gd_ptr sb' = gd_ptr sb" "gds_loaded sb'" "s_groups_count sb' = s_groups_count sb"
    and "s_es sb' = (s_es sb)\<lparr>s_free_blocks_count := s_free_blocks_count (s_es sb) - of_nat n\<rparr>"
  using assms(2,3) gdt.get_put [OF assms(2,3)] gdt.ok_put [OF assms(2,3)] only_free_counts_write [OF assms(2,3)]
  by (simp_all add: sb'_def take_free_def Let_def same_layout_def gdesc_def [symmetric])


lemma took_refl: "took sb g 0 sb"
  by (simp add: took_def same_layout_def only_free_counts_refl)

lemma same_layout_trans: "same_layout a b \<Longrightarrow> same_layout b c \<Longrightarrow> same_layout a c"
  by (simp add: same_layout_def)

lemma took_take_free:
  assumes "took sb g n sb'" "gds_loaded sb" "g < s_groups_count sb"
  shows "took sb g (n + k) (take_free (gd_ptr sb g) k sb')"
proof -
  have s: "gds_loaded sb'" "s_groups_count sb' = s_groups_count sb" "gd_ptr sb' = gd_ptr sb"
    using assms by (simp_all add: took_def same_layout_def)
  then have g: "g < s_groups_count sb'" using assms(3) by simp
  note t = take_free_simps [OF s(1) g, where n = k, unfolded s(2,3)]
  show ?thesis using assms(1) t same_layout_trans [OF _ t(1)] only_free_counts_trans [OF _ t(2)]
    by (auto simp: took_def s(3))
qed

lemma took_blocks_count: "took sb g n sb' \<Longrightarrow> blocks_count sb' = blocks_count sb"
  by (simp add: took_def)

lemma took_dirty: "took sb g n sb' \<Longrightarrow> took sb g n ((mark_buffer_dirty p sb')\<lparr>s_dirt := True\<rparr>)"
  using only_free_counts_trans [OF _ only_free_counts_dirty [where sb = sb' and p = p and v = True], of sb]
  by (simp add: took_def same_layout_def) (simp add: mark_buffer_dirty_def)

lemma free_total_ge:
  assumes "balloc_wf m" "g < s_groups_count (um_e2fs m)"
  shows "free_of (um_e2fs m) g \<le> unat (s_free_blocks_count (s_es (um_e2fs m)))"
  using assms member_le_sum [of g "{..< s_groups_count (um_e2fs m)}" "free_of (um_e2fs m)"]
  by (simp add: balloc_wf_def counts_ok_def Let_def)

lemma reserved_usedD:
  assumes "reserved_used m" "g < s_groups_count (um_e2fs m)" "j < e2fs_bpg (um_e2fs m)" "\<not> bm_bit (bbm m g) j"
  shows "\<not> sys_zone (um_e2fs m) g (block_no (um_e2fs m) g j)" "block_no (um_e2fs m) g j \<noteq> 0"
    "block_no (um_e2fs m) g j < blocks_count (um_e2fs m)"
  using assms unfolding reserved_used_def Let_def by (meson not_le)+

lemma run_in_group:
  assumes "block_no sb g j \<le> x" "x \<le> block_no sb g (j + c)"
  obtains i where "x = block_no sb g i" "j \<le> i" "i \<le> j + c"
  using assms that [of "x - block_no sb g 0"] by (simp add: block_no_def)

lemma run_iff:
  assumes "j + c < e2fs_bpg sb" "first_data_block sb \<le> x"
  shows "block_no sb g j \<le> x \<and> x \<le> block_no sb g (j + c) \<longleftrightarrow>
         dtog sb x = g \<and> j \<le> dtogd sb x \<and> dtogd sb x \<le> j + c"
proof
  assume "block_no sb g j \<le> x \<and> x \<le> block_no sb g (j + c)"
  then obtain i where i: "x = block_no sb g i" "j \<le> i" "i \<le> j + c" using run_in_group by blast
  then show "dtog sb x = g \<and> j \<le> dtogd sb x \<and> dtogd sb x \<le> j + c"
    using assms(1) block_no_inv [of i sb g] by simp
next
  assume a: "dtog sb x = g \<and> j \<le> dtogd sb x \<and> dtogd sb x \<le> j + c"
  have "x = block_no sb (dtog sb x) (dtogd sb x)" using block_no_dtog [OF assms(2)] by simp
  then have "x = block_no sb g (dtogd sb x)" using a by simp
  then show "block_no sb g j \<le> x \<and> x \<le> block_no sb g (j + c)"
    using a by (metis block_no_def nat_add_left_cancel_le)
qed

lemma commit_used:
  assumes "geometry_ok (um_e2fs m)" "bitmaps_ok m" "same_layout (um_e2fs m) sb'" "g < s_groups_count (um_e2fs m)"
    and "marks j (j + Suc c) (bbm m g) data" "j + c < e2fs_bpg (um_e2fs m)"
    and x: "first_data_block (um_e2fs m) \<le> x" "x < blocks_count (um_e2fs m)"
  defines "m' \<equiv> m\<lparr>um_e2fs := sb', um_devvp := buf_write (bitmap_addr (um_e2fs m) g, data) (um_devvp m)\<rparr>"
  shows "block_used m' x \<longleftrightarrow> block_used m x \<or> (block_no (um_e2fs m) g j \<le> x \<and> x \<le> block_no (um_e2fs m) g (j + c))"
proof -
  let ?sb = "um_e2fs m" let ?h = "dtog ?sb x" and ?i = "dtogd ?sb x"
  have hi: "?h < s_groups_count ?sb" "?i < e2fs_bpg ?sb" using geometry_dtog [OF assms(1) x] .
  have bx: "block_used m' x = bm_bit (if ?h = g then data else bbm m ?h) ?i"
    using bbm_update [OF assms(2-4) hi(1), of data] same_layoutD(4,5) [OF assms(3)]
    by (simp add: block_used_def m'_def)
  have "length (bbm m g) = s_blocksize ?sb" using assms(2,4) by (simp add: bitmaps_ok_def Let_def)
  then have "?i < 8 * length (bbm m g)" using assms(1) hi(2) by (simp add: geometry_ok_def)
  then have "bm_bit data ?i \<longleftrightarrow> bm_bit (bbm m g) ?i \<or> (j \<le> ?i \<and> ?i \<le> j + c)"
    using assms(5) by (simp add: marks_def less_Suc_eq_le)
  then show ?thesis using bx by (simp add: block_used_def run_iff [OF assms(6) x(1)])
qed

lemma commit_counts:
  assumes wf: "balloc_wf m" and g: "g < s_groups_count (um_e2fs m)"
    and mk: "marks j (j + n) (bbm m g) data" "j + n \<le> e2fs_bpg (um_e2fs m)"
    and tk: "took (um_e2fs m) g n sb'"
  shows "free_of sb' g = count_zeros (bm_bit data) (e2fs_bpg (um_e2fs m))"
    and "h < s_groups_count (um_e2fs m) \<Longrightarrow> h \<noteq> g \<Longrightarrow> free_of sb' h = free_of (um_e2fs m) h"
    and "unat (s_free_blocks_count (s_es sb')) + n = unat (s_free_blocks_count (s_es (um_e2fs m)))"
    and "unat (s_free_blocks_count (s_es sb')) = (\<Sum>h < s_groups_count (um_e2fs m). free_of sb' h)"
proof -
  let ?sb = "um_e2fs m"
  have "e2fs_bpg ?sb \<le> 8 * length (bbm m g)" and co: "counts_ok m"
    using wf g by (simp_all add: balloc_wf_def bitmaps_ok_def geometry_ok_def Let_def)
  from marks_count [OF mk this(1)] co g
  have fg: "free_of ?sb g = count_zeros (bm_bit data) (e2fs_bpg ?sb) + n" by (simp add: counts_ok_def Let_def)
  then show fg': "free_of sb' g = count_zeros (bm_bit data) (e2fs_bpg ?sb)"
    using tk g unat_minus_of_nat [of n "bg_free_blocks_count (gdesc ?sb g)"] by (simp add: took_def)
  have fh: "free_of sb' h = free_of ?sb h" if "h < s_groups_count ?sb" "h \<noteq> g" for h
    using tk that by (simp add: took_def)
  then show "h < s_groups_count ?sb \<Longrightarrow> h \<noteq> g \<Longrightarrow> free_of sb' h = free_of ?sb h" .
  have "n \<le> unat (s_free_blocks_count (s_es ?sb))" using free_total_ge [OF wf g] fg by simp
  then show es: "unat (s_free_blocks_count (s_es sb')) + n = unat (s_free_blocks_count (s_es ?sb))"
    using tk unat_minus_of_nat [of n "s_free_blocks_count (s_es ?sb)"] by (simp add: took_def)
  have "(\<Sum>h < s_groups_count ?sb. free_of sb' h) + free_of ?sb g = (\<Sum>h < s_groups_count ?sb. free_of ?sb h) + free_of sb' g"
    using g fh by (simp add: sum.remove [of _ g])
  then show "unat (s_free_blocks_count (s_es sb')) = (\<Sum>h < s_groups_count ?sb. free_of sb' h)"
    using es fg fg' co by (simp add: counts_ok_def Let_def)
qed

lemma commit_allocated:
  assumes wf: "balloc_wf m" and g: "g < s_groups_count (um_e2fs m)"
    and mk: "marks j (j + Suc c) (bbm m g) data" "j + Suc c \<le> e2fs_bpg (um_e2fs m)"
    and tk: "took (um_e2fs m) g (Suc c) sb'"
  defines "m' \<equiv> m\<lparr>um_e2fs := sb', um_devvp := buf_write (bitmap_addr (um_e2fs m) g, data) (um_devvp m)\<rparr>"
  shows "balloc_wf m' \<and> allocated m (block_no (um_e2fs m) g j) c m'"
proof -
  let ?sb = "um_e2fs m"
  have sl: "same_layout ?sb sb'" using tk by (simp add: took_def)
  have geo: "geometry_ok ?sb" and bo: "bitmaps_ok m" and ru: "reserved_used m"
    using wf by (simp_all add: balloc_wf_def)
  note cnt = commit_counts [OF wf g mk tk]
  have clear: "\<not> bm_bit (bbm m g) i" if "j \<le> i" "i \<le> j + c" for i using mk(1) that by (simp add: marks_def)
  have in_group: "i < e2fs_bpg ?sb" if "i \<le> j + c" for i using mk(2) that by simp
  have wf': "balloc_wf m'" unfolding m'_def
  proof (rule wf_update [OF wf sl g])
    have "e2fs_bpg ?sb \<le> 8 * length (bbm m g)"
      using geo bo g by (simp add: geometry_ok_def bitmaps_ok_def Let_def)
    then show "bm_bit (bbm m g) i \<Longrightarrow> \<not> bm_bit data i \<Longrightarrow> i < e2fs_bpg ?sb \<Longrightarrow>
        \<not> sys_zone ?sb g (block_no ?sb g i) \<and> block_no ?sb g i \<noteq> 0 \<and> block_no ?sb g i < blocks_count ?sb" for i
      using mk(1) by (simp add: marks_def)
  qed (use mk(1) cnt in \<open>simp_all add: marks_def\<close>)
  have unused: "\<not> block_used m x" if x: "block_no ?sb g j \<le> x" "x \<le> block_no ?sb g (j + c)" for x
  proof -
    obtain i where i: "x = block_no ?sb g i" "j \<le> i" "i \<le> j + c" using run_in_group [OF x] .
    then show ?thesis using clear [of i] block_no_inv [of i ?sb g] in_group by (simp add: block_used_def)
  qed
  have "block_no ?sb g i \<noteq> 0 \<and> block_no ?sb g i < blocks_count ?sb" if "j \<le> i" "i \<le> j + c" for i
    using reserved_usedD(2,3) [OF ru g in_group clear] that by blast
  from this [of j] this [of "j + c"] have "0 < block_no ?sb g j" "block_no ?sb g j + c < blocks_count ?sb"
    by (simp_all add: block_no_def add.assoc)
  moreover have "dtogd ?sb (block_no ?sb g j) + c < e2fs_bpg ?sb" using block_no_inv(2) [of j ?sb g] mk(2) by simp
  ultimately show ?thesis
    using wf' unused cnt(3) sl commit_used [OF geo bo sl g mk(1) in_group]
      blocks_frame_write [OF _ g, of sb' data] tk [unfolded took_def]
    by (simp add: allocated_def Let_def m'_def) (simp add: block_no_def add.assoc)
qed

section \<open>One pass\<close>

lemma not_in_system_zone:
  assumes "geometry_ok sb" "b < 2 ^ 31" "\<not> sys_zone sb g b"
  shows "\<not> nb_in_system_zone sb (gdesc sb g) (int b)"
proof -
  have "unat (bg_inode_table (gdesc sb g)) < 2 ^ 32" using unsigned_less [of "bg_inode_table (gdesc sb g)"] by simp
  then have "ulong (int (unat (bg_inode_table (gdesc sb g))) + int (e2fs_itpg sb) - 1) + 1 =
      unat (bg_inode_table (gdesc sb g)) + e2fs_itpg sb"
    using assms(1) by (subst ulong_pred) (auto simp: geometry_ok_def)
  then show ?thesis using assms(2,3) uint32_id [of b] ulong_id [of b]
    by (auto simp: nb_in_system_zone_def sys_zone_def)
qed

lemma got_block_ok:
  assumes wf: "balloc_wf m" and ch: "choice_ok m (g, p, bp, j)"
  defines "b \<equiv> block_no (um_e2fs m) g j"
  shows "\<exists>c m'. nb_got_block m want (g, p, bp, j) =
      Return (Nb_return (int b) (if want then Some (c, b + 1) else None) m') \<and>
      balloc_wf m' \<and> allocated m b c m' \<and> c < prealloc_goal (s_es (um_e2fs m)) \<and> (\<not> want \<longrightarrow> c = 0)"
proof -
  let ?sb = "um_e2fs m" let ?d = "snd (ext2_set_bit j (bbm m g))"
  let ?goal = "prealloc_goal (s_es ?sb)"
  have c: "g < s_groups_count ?sb" "p = gd_ptr ?sb g" "bp = (bitmap_addr ?sb g, bbm m g)"
    "j < e2fs_bpg ?sb" "\<not> bm_bit (bbm m g) j" using ch by (simp_all add: choice_ok_def)
  have geo: "geometry_ok ?sb" and gl: "gds_loaded ?sb" using wf by (simp_all add: balloc_wf_def)
  have len: "e2fs_bpg ?sb \<le> 8 * length (bbm m g)"
    using wf c(1) by (simp add: balloc_wf_def geometry_ok_def bitmaps_ok_def Let_def)
  have ru: "\<not> sys_zone ?sb g b" "b < blocks_count ?sb"
    unfolding b_def using reserved_usedD [OF _ c(1,4,5)] wf by (simp_all add: balloc_wf_def)
  have b31: "b < 2 ^ 31" unfolding b_def by (rule block_no_bound [OF geo c(1,4)])
  have be: "j + g * e2fs_bpg ?sb + first_data_block ?sb = b" by (simp add: b_def block_no_def)
  have tmp: "int32 (int (j + g * e2fs_bpg ?sb + first_data_block ?sb)) = int b"
    unfolding be using b31 by (simp add: int32_id)
  have goal: "0 < ?goal" by (simp add: prealloc_goal_def unat_gt_0)
  obtain data n where dn: "(if want then nb_prealloc (e2fs_bpg ?sb) (?goal - 1) (j + 1) ?d 0 else (?d, 0)) = (data, n)"
    by fastforce
  have run: "marks (Suc j) (Suc j + n) ?d data \<and> n < ?goal \<and> Suc j + n \<le> e2fs_bpg ?sb"
    using prealloc_marks [of "e2fs_bpg ?sb" "?goal - 1" "j + 1" ?d 0 data n] dn goal len c(4)
    by (cases want) (auto simp: marks_def)
  have mk: "marks j (j + Suc n) (bbm m g) data"
    using marks_step [of j "bbm m g" "Suc j + n" data] run len c(4,5) by simp
  let ?sb1 = "if want then take_free p n ?sb else ?sb"
  let ?sb2 = "(mark_buffer_dirty p (take_free p 1 ?sb1))\<lparr>s_dirt := True\<rparr>"
  have n0: "\<not> want \<Longrightarrow> n = 0" using dn by simp
  have t1: "took ?sb g n ?sb1" using took_take_free [OF took_refl gl c(1), of n] took_refl n0 by (simp add: c(2))
  then have bc: "blocks_count ?sb1 = blocks_count ?sb" by (rule took_blocks_count)
  have tk: "took ?sb g (Suc n) ?sb2"
    using took_dirty [OF took_take_free [OF t1 gl c(1)], where k1 = 1] unfolding c(2) Suc_eq_plus1 .
  have zone: "\<not> nb_in_system_zone ?sb (gdp_read ?sb (gd_ptr ?sb g)) (int b)"
    using not_in_system_zone [OF geo b31 ru(1)] by (simp add: gdesc_def)
  have old: "fst (ext2_set_bit j (bbm m g)) = 0" using c(5) by (simp add: set_bit_old)
  have b_u32: "uint32 (int b) = b" "uint32 (int b + 1) = b + 1"
    using b31 uint32_id [of b] uint32_id [of "b + 1"] by (simp_all add: add.commute)
  let ?m' = "m\<lparr>um_e2fs := ?sb2, um_devvp := buf_write (fst bp, data) (um_devvp m)\<rparr>"
  have "balloc_wf ?m' \<and> allocated m b n ?m'"
    using commit_allocated [OF wf c(1) mk _ tk] run by (simp add: b_def c(3))
  moreover have "nb_got_block m want (g, p, bp, j) =
      Return (Nb_return (int b) (if want then Some (n, b + 1) else None) ?m')"
  proof (cases want)
    case True
    then show ?thesis using zone old dn bc ru(2) tmp b_u32
      by (simp add: nb_got_block_def Let_def split_def c(2,3))
  next
    case False
    then show ?thesis using zone old dn ru(2) tmp b_u32
      by (simp add: nb_got_block_def Let_def split_def c(2,3))
  qed
  ultimately show ?thesis using run n0 by blast
qed


lemma new_block_ok:
  assumes "balloc_wf m"
  shows "\<exists>n pre m'. ext2_new_block m goal want = Some (Return (n, pre, m')) \<and> balloc_wf m' \<and>
     (if s_free_blocks_count (s_es (um_e2fs m)) = 0 then n = 0 \<and> pre = None \<and> m' = m
      else \<exists>b c. n = int b \<and> pre = (if want then Some (c, b + 1) else None) \<and> allocated m b c m' \<and>
             c < prealloc_goal (s_es (um_e2fs m)) \<and> (\<not> want \<longrightarrow> c = 0))"
proof -
  let ?sb = "um_e2fs m" and ?goal = "nb_goal (um_e2fs m) goal"
  have "first_data_block ?sb < blocks_count ?sb" using assms by (auto simp: balloc_wf_def geometry_ok_def)
  then have goal: "first_data_block ?sb \<le> ?goal" "?goal < blocks_count ?sb" by (simp_all add: nb_goal_def)
  obtain ch where ch: "nb_choose m ?goal = Return (ch, m)"
    "case ch of None \<Rightarrow> \<forall>g < s_groups_count ?sb. free_of ?sb g = 0 | Some c \<Rightarrow> choice_ok m c"
    using choose_ok [OF assms goal] by (auto simp: choose_spec_def)
  have tot: "unat (s_free_blocks_count (s_es ?sb)) = (\<Sum>g < s_groups_count ?sb. free_of ?sb g)"
    using assms by (simp add: balloc_wf_def counts_ok_def Let_def)
  show ?thesis
  proof (cases ch)
    case None
    then have "nb_pass m goal want = Return (Nb_return 0 None m)" using ch(1) by (simp add: nb_pass_def)
    moreover have "s_free_blocks_count (s_es ?sb) = 0" using tot ch(2) None by (simp add: unat_eq_0)
    ultimately show ?thesis using assms by (subst ext2_new_block.simps) simp
  next
    case (Some c)
    obtain g p bp j where c: "c = (g, p, bp, j)" by (metis prod_cases4)
    then obtain k m' where k: "nb_got_block m want c =
        Return (Nb_return (int (block_no ?sb g j)) (if want then Some (k, block_no ?sb g j + 1) else None) m')"
      "balloc_wf m'" "allocated m (block_no ?sb g j) k m'" "k < prealloc_goal (s_es ?sb)" "\<not> want \<longrightarrow> k = 0"
      using got_block_ok [OF assms, of g p bp j want] ch(2) Some by auto
    then have "nb_pass m goal want =
        Return (Nb_return (int (block_no ?sb g j)) (if want then Some (k, block_no ?sb g j + 1) else None) m')"
      using ch(1) Some by (simp add: nb_pass_def)
    moreover have "s_free_blocks_count (s_es ?sb) \<noteq> 0" using k(3) by (auto simp: allocated_def Let_def)
    ultimately show ?thesis using k by (subst ext2_new_block.simps) auto
  qed
qed


section \<open>What freeing does\<close>

lemma set_bits_card: "set_bits d lo hi = card {i. lo \<le> i \<and> i < hi \<and> bm_bit d i}"
  unfolding set_bits_def by (subst distinct_card [symmetric]) (auto intro: arg_cong [of _ _ card])

lemma unmarks_count:
  assumes "unmarks lo hi d d'" "hi \<le> n" "n \<le> 8 * length d"
  shows "count_zeros (bm_bit d') n = count_zeros (bm_bit d) n + set_bits d lo hi"
proof -
  let ?S = "{i. lo \<le> i \<and> i < hi \<and> bm_bit d i}"
  have "{i. i < n \<and> \<not> bm_bit d' i} = {i. i < n \<and> \<not> bm_bit d i} \<union> ?S"
    using assms unfolding unmarks_def by auto
  moreover have "{i. i < n \<and> \<not> bm_bit d i} \<inter> ?S = {}" by auto
  moreover have "finite ?S" by (rule finite_subset [of _ "{..<hi}"]) auto
  ultimately show ?thesis by (simp add: count_zeros_card set_bits_card card_Un_disjoint)
qed

lemma free_bits_spec:
  assumes "b + count \<le> 8 * length data"
  shows "\<exists>data'. free_bits b count (data, gd, es) =
      (data', gd\<lparr>bg_free_blocks_count := bg_free_blocks_count gd + of_nat (set_bits data b (b + count))\<rparr>,
       es\<lparr>s_free_blocks_count := s_free_blocks_count es + of_nat (set_bits data b (b + count))\<rparr>) \<and>
      unmarks b (b + count) data data'"
  using assms
proof (induction count arbitrary: b data gd es)
  case 0
  then show ?case by (auto simp: set_bits_def unmarks_def)
next
  case (Suc n)
  let ?d = "snd (ext2_clear_bit b data)"
  have e: "bm_bit ?d i \<longleftrightarrow> i \<noteq> b \<and> bm_bit data i" if "i < 8 * length data" for i
    using bm.tst_del [of b data i] that Suc.prems by simp
  have same: "set_bits ?d (Suc b) (Suc b + n) = set_bits data (Suc b) (Suc b + n)"
    unfolding set_bits_def using e Suc.prems by (intro arg_cong [of _ _ length] filter_cong) auto
  have split: "set_bits data b (b + Suc n) = (if bm_bit data b then 1 else 0) + set_bits data (Suc b) (Suc b + n)"
    by (simp add: set_bits_def upt_conv_Cons del: upt_Suc)
  have um: "unmarks b (b + Suc n) data d'" if "unmarks (Suc b) (Suc b + n) ?d d'" for d'
    unfolding unmarks_def
  proof (intro conjI allI impI)
    show "bm_bit d' i \<longleftrightarrow> bm_bit data i \<and> \<not> (b \<le> i \<and> i < b + Suc n)" if "i < 8 * length data" for i
      using e [OF that] \<open>unmarks (Suc b) (Suc b + n) ?d d'\<close> that
      by (cases "i = b") (auto simp: unmarks_def)
  qed (use that in \<open>simp add: unmarks_def\<close>)
  have old: "fst (ext2_clear_bit b data) = 0 \<longleftrightarrow> \<not> bm_bit data b" by (simp add: clear_bit_old)
  let ?k = "if bm_bit data b then 1 else 0"
  obtain d' where d': "free_bits (Suc b) n (?d, gd\<lparr>bg_free_blocks_count := bg_free_blocks_count gd + ?k\<rparr>,
        es\<lparr>s_free_blocks_count := s_free_blocks_count es + ?k\<rparr>) =
      (d', gd\<lparr>bg_free_blocks_count := bg_free_blocks_count gd + ?k + of_nat (set_bits data (Suc b) (Suc b + n))\<rparr>,
       es\<lparr>s_free_blocks_count := s_free_blocks_count es + ?k + of_nat (set_bits data (Suc b) (Suc b + n))\<rparr>)"
    "unmarks (Suc b) (Suc b + n) ?d d'"
    using Suc.IH [of "Suc b" ?d "gd\<lparr>bg_free_blocks_count := bg_free_blocks_count gd + ?k\<rparr>"
        "es\<lparr>s_free_blocks_count := s_free_blocks_count es + ?k\<rparr>"] Suc.prems same by auto
  have "free_bits b (Suc n) (data, gd, es) = free_bits (Suc b) n (?d, gd\<lparr>bg_free_blocks_count := bg_free_blocks_count gd + ?k\<rparr>,
        es\<lparr>s_free_blocks_count := s_free_blocks_count es + ?k\<rparr>)"
    using old by (simp add: split_def Let_def)
  then show ?case using d' um [OF d'(2)] split by (auto simp: add.assoc)
qed


lemma block_range_group:
  assumes "first_data_block sb \<le> block" "dtogd sb block + count \<le> e2fs_bpg sb" "i < count"
  shows "dtog sb (block + i) = dtog sb block" "dtogd sb (block + i) = dtogd sb block + i"
proof -
  have "block + i = block_no sb (dtog sb block) (dtogd sb block + i)"
    using block_no_dtog [OF assms(1)] by (simp add: block_no_def)
  moreover have "dtogd sb block + i < e2fs_bpg sb" using assms(2,3) by simp
  ultimately show "dtog sb (block + i) = dtog sb block" "dtogd sb (block + i) = dtogd sb block + i"
    using block_no_inv [of "dtogd sb block + i" sb "dtog sb block"] by simp_all
qed

lemma set_bits_used:
  assumes "first_data_block (um_e2fs m) \<le> block" "dtogd (um_e2fs m) block + count \<le> e2fs_bpg (um_e2fs m)"
  shows "set_bits (bbm m (dtog (um_e2fs m) block)) (dtogd (um_e2fs m) block) (dtogd (um_e2fs m) block + count)
         = length (filter (block_used m) [block..<block + count])"
proof -
  have shift: "length (filter P [a..<a + n]) = length (filter (\<lambda>i. P (a + i)) [0..<n])" for P :: "nat \<Rightarrow> bool" and a n
    by (induction n) simp_all
  show ?thesis unfolding set_bits_def shift
    using block_range_group [OF assms]
    by (intro arg_cong [of _ _ length] filter_cong) (simp_all add: block_used_def)
qed

lemma counts_total_bound:
  assumes "geometry_ok sb" "\<And>g. g < s_groups_count sb \<Longrightarrow> f g \<le> e2fs_bpg sb"
  shows "(\<Sum>g < s_groups_count sb. f g) < 2 ^ 32"
proof -
  have "(\<Sum>g < s_groups_count sb. f g) \<le> s_groups_count sb * e2fs_bpg sb"
    using sum_bounded_above [of "{..<s_groups_count sb}" f "e2fs_bpg sb"] assms(2) by simp
  also have "\<dots> \<le> 2 ^ 31" using assms(1) by (simp add: geometry_ok_def)
  finally show ?thesis by simp
qed


lemma gave_write:
  assumes "gds_loaded sb" "g < s_groups_count sb"
  shows "gave sb g n ((mark_buffer_dirty p (gdp_write (gd_ptr sb g)
      ((gdesc sb g)\<lparr>bg_free_blocks_count := bg_free_blocks_count (gdesc sb g) + of_nat n\<rparr>) sb))
      \<lparr>s_es := (s_es sb)\<lparr>s_free_blocks_count := s_free_blocks_count (s_es sb) + of_nat n\<rparr>, s_dirt := True\<rparr>)"
proof -
  let ?d = "(gdesc sb g)\<lparr>bg_free_blocks_count := bg_free_blocks_count (gdesc sb g) + of_nat n\<rparr>"
  let ?w = "gdp_write (gd_ptr sb g) ?d sb"
  let ?es = "(s_es sb)\<lparr>s_free_blocks_count := s_free_blocks_count (s_es sb) + of_nat n\<rparr>"
  have e: "(mark_buffer_dirty p ?w)\<lparr>s_es := ?es, s_dirt := True\<rparr> = (mark_buffer_dirty p (?w\<lparr>s_es := ?es\<rparr>))\<lparr>s_dirt := True\<rparr>"
    by (simp add: mark_buffer_dirty_def)
  have "only_free_counts sb ((mark_buffer_dirty p ?w)\<lparr>s_es := ?es, s_dirt := True\<rparr>)"
    unfolding e by (rule only_free_counts_trans [OF only_free_counts_write [OF assms] only_free_counts_dirty])
  then show ?thesis using assms gdt.get_put [OF assms] gdt.ok_put [OF assms]
    by (simp add: gave_def same_layout_def) (simp add: mark_buffer_dirty_def)
qed

lemma gave_counts:
  assumes wf: "balloc_wf m" and g: "g < s_groups_count (um_e2fs m)"
    and um: "unmarks j (j + n) (bbm m g) data" "j + n \<le> e2fs_bpg (um_e2fs m)"
    and gv: "gave (um_e2fs m) g (set_bits (bbm m g) j (j + n)) sb'"
  shows "free_of sb' g = count_zeros (bm_bit data) (e2fs_bpg (um_e2fs m))"
    and "h < s_groups_count (um_e2fs m) \<Longrightarrow> h \<noteq> g \<Longrightarrow> free_of sb' h = free_of (um_e2fs m) h"
    and "unat (s_free_blocks_count (s_es sb')) =
         unat (s_free_blocks_count (s_es (um_e2fs m))) + set_bits (bbm m g) j (j + n)"
    and "unat (s_free_blocks_count (s_es sb')) = (\<Sum>h < s_groups_count (um_e2fs m). free_of sb' h)"
proof -
  let ?sb = "um_e2fs m" and ?k = "set_bits (bbm m g) j (j + n)"
  have len: "e2fs_bpg ?sb \<le> 8 * length (bbm m g)" and co: "counts_ok m" and geo: "geometry_ok ?sb"
    using wf g by (simp_all add: balloc_wf_def bitmaps_ok_def geometry_ok_def Let_def)
  have fg: "count_zeros (bm_bit data) (e2fs_bpg ?sb) = free_of ?sb g + ?k"
    using unmarks_count [OF um len] co g by (simp add: counts_ok_def Let_def)
  then have "free_of ?sb g + ?k < 2 ^ 16"
    using count_zeros_le [of "bm_bit data" "e2fs_bpg ?sb"] geo by (simp add: geometry_ok_def)
  then show fg': "free_of sb' g = count_zeros (bm_bit data) (e2fs_bpg ?sb)"
    using gv g fg unat_plus_of_nat [of "bg_free_blocks_count (gdesc ?sb g)" ?k] by (simp add: gave_def)
  have fh: "free_of sb' h = free_of ?sb h" if "h < s_groups_count ?sb" "h \<noteq> g" for h
    using gv that by (simp add: gave_def)
  then show "h < s_groups_count ?sb \<Longrightarrow> h \<noteq> g \<Longrightarrow> free_of sb' h = free_of ?sb h" .
  have sum: "(\<Sum>h < s_groups_count ?sb. free_of sb' h) = (\<Sum>h < s_groups_count ?sb. free_of ?sb h) + ?k"
    using g fh fg fg' by (simp add: sum.remove [of _ g])
  have le: "free_of sb' h \<le> e2fs_bpg ?sb" if "h < s_groups_count ?sb" for h
    using fg' fh that co count_zeros_le by (cases "h = g") (simp_all add: counts_ok_def Let_def)
  have "unat (s_free_blocks_count (s_es ?sb)) + ?k < 2 ^ 32"
    using counts_total_bound [OF geo, of "free_of sb'"] le sum co unfolding counts_ok_def Let_def by metis
  then show es: "unat (s_free_blocks_count (s_es sb')) = unat (s_free_blocks_count (s_es ?sb)) + ?k"
    using gv unat_plus_of_nat [of "s_free_blocks_count (s_es ?sb)" ?k] by (simp add: gave_def)
  then show "unat (s_free_blocks_count (s_es sb')) = (\<Sum>h < s_groups_count ?sb. free_of sb' h)"
    using sum co by (simp add: counts_ok_def Let_def)
qed

lemma unmarks_used:
  assumes "geometry_ok (um_e2fs m)" "bitmaps_ok m" "same_layout (um_e2fs m) sb'"
    and b: "first_data_block (um_e2fs m) \<le> b" "b < blocks_count (um_e2fs m)"
      "dtogd (um_e2fs m) b + c \<le> e2fs_bpg (um_e2fs m)"
    and um: "unmarks (dtogd (um_e2fs m) b) (dtogd (um_e2fs m) b + c) (bbm m (dtog (um_e2fs m) b)) data"
    and x: "first_data_block (um_e2fs m) \<le> x" "x < blocks_count (um_e2fs m)"
  defines "m' \<equiv> m\<lparr>um_e2fs := sb',
      um_devvp := buf_write (bitmap_addr (um_e2fs m) (dtog (um_e2fs m) b), data) (um_devvp m)\<rparr>"
  shows "block_used m' x \<longleftrightarrow> block_used m x \<and> \<not> (b \<le> x \<and> x < b + c)"
proof -
  let ?sb = "um_e2fs m" let ?g = "dtog ?sb b" and ?j = "dtogd ?sb b" and ?h = "dtog ?sb x" and ?i = "dtogd ?sb x"
  have hi: "?h < s_groups_count ?sb" "?i < e2fs_bpg ?sb" using geometry_dtog [OF assms(1) x] .
  have g: "?g < s_groups_count ?sb" using geometry_dtog [OF assms(1) b(1,2)] by blast
  have bx: "block_used m' x = bm_bit (if ?h = ?g then data else bbm m ?h) ?i"
    using bbm_update [OF assms(2,3) g hi(1), of data] same_layoutD(4,5) [OF assms(3)]
    by (simp add: block_used_def m'_def)
  have "length (bbm m ?g) = s_blocksize ?sb" using assms(2) g by (simp add: bitmaps_ok_def Let_def)
  then have "?i < 8 * length (bbm m ?g)" using assms(1) hi(2) by (simp add: geometry_ok_def)
  then have d: "bm_bit data ?i \<longleftrightarrow> bm_bit (bbm m ?g) ?i \<and> \<not> (?j \<le> ?i \<and> ?i < ?j + c)"
    using um by (simp add: unmarks_def)
  have "b \<le> x \<and> x < b + c \<longleftrightarrow> ?h = ?g \<and> ?j \<le> ?i \<and> ?i < ?j + c"
  proof (cases c)
    case (Suc k)
    have e: "block_no ?sb ?g ?j = b" "block_no ?sb ?g (?j + k) = b + k"
      using block_no_dtog [OF b(1)] by (simp_all add: block_no_def)
    have "?j + k < e2fs_bpg ?sb" using b(3) Suc by simp
    from run_iff [OF this x(1), of ?g] show ?thesis unfolding e Suc by (simp add: less_Suc_eq_le)
  qed auto
  then show ?thesis using bx d by (simp add: block_used_def)
qed


lemma free_blocks_eq:
  assumes wf: "balloc_wf m" and b: "first_data_block (um_e2fs m) \<le> b" "b + c \<le> blocks_count (um_e2fs m)" "0 < c"
      "dtogd (um_e2fs m) b + c \<le> e2fs_bpg (um_e2fs m)"
    and nz: "\<not> fb_in_system_zone (um_e2fs m) (gdesc (um_e2fs m) (dtog (um_e2fs m) b)) b c"
  shows "\<exists>data sb'. ext2_free_blocks m b c = Return (m\<lparr>um_e2fs := sb',
        um_devvp := buf_write (bitmap_addr (um_e2fs m) (dtog (um_e2fs m) b), data) (um_devvp m)\<rparr>) \<and>
      unmarks (dtogd (um_e2fs m) b) (dtogd (um_e2fs m) b + c) (bbm m (dtog (um_e2fs m) b)) data \<and>
      gave (um_e2fs m) (dtog (um_e2fs m) b)
        (set_bits (bbm m (dtog (um_e2fs m) b)) (dtogd (um_e2fs m) b) (dtogd (um_e2fs m) b + c)) sb'"
proof -
  let ?sb = "um_e2fs m" let ?g = "dtog ?sb b" and ?j = "dtogd ?sb b"
  have geo: "geometry_ok ?sb" and gl: "gds_loaded ?sb" using wf by (simp_all add: balloc_wf_def)
  have g: "?g < s_groups_count ?sb" using geometry_dtog [OF geo b(1)] b(2,3) by simp
  have bc: "blocks_count ?sb < 2 ^ 32" using unsigned_less [of "s_blocks_count (s_es ?sb)"] by simp
  have u1: "ulong (int b + int c) = b + c" using ulong_id [of "b + c"] b(2) bc by simp
  have u2: "ulong (int ?j + int c) = ?j + c"
    using ulong_id [of "?j + c"] b(4) geo by (simp add: geometry_ok_def)
  have len: "?j + c \<le> 8 * length (bbm m ?g)"
    using wf g b(4) by (simp add: balloc_wf_def geometry_ok_def bitmaps_ok_def Let_def)
  obtain data where d: "free_bits ?j c (bbm m ?g, gdesc ?sb ?g, s_es ?sb) =
      (data, (gdesc ?sb ?g)\<lparr>bg_free_blocks_count := bg_free_blocks_count (gdesc ?sb ?g) + of_nat (set_bits (bbm m ?g) ?j (?j + c))\<rparr>,
       (s_es ?sb)\<lparr>s_free_blocks_count := s_free_blocks_count (s_es ?sb) + of_nat (set_bits (bbm m ?g) ?j (?j + c))\<rparr>)"
    "unmarks ?j (?j + c) (bbm m ?g) data"
    using free_bits_spec [OF len] by blast
  let ?sb' = "(mark_buffer_dirty (gd_ptr ?sb ?g) (gdp_write (gd_ptr ?sb ?g)
      ((gdesc ?sb ?g)\<lparr>bg_free_blocks_count := bg_free_blocks_count (gdesc ?sb ?g) + of_nat (set_bits (bbm m ?g) ?j (?j + c))\<rparr>) ?sb))
      \<lparr>s_es := (s_es ?sb)\<lparr>s_free_blocks_count := s_free_blocks_count (s_es ?sb) + of_nat (set_bits (bbm m ?g) ?j (?j + c))\<rparr>, s_dirt := True\<rparr>"
  have "ext2_free_blocks m b c = Return (m\<lparr>um_e2fs := ?sb', um_devvp := buf_write (bitmap_addr ?sb ?g, data) (um_devvp m)\<rparr>)"
    using b u1 u2 load_block_bitmap_wf [OF wf g] get_group_desc_loaded [OF gl g] nz d(1)
    unfolding ext2_free_blocks_def Let_def dtog_def [symmetric] dtogd_def [symmetric]
    by (simp add: gdesc_def [symmetric])
  then show ?thesis using d(2) gave_write [OF gl g] by blast
qed

lemma free_blocks_ok:
  assumes wf: "balloc_wf m" and b: "first_data_block (um_e2fs m) \<le> b" "b + c \<le> blocks_count (um_e2fs m)" "0 < c"
      "dtogd (um_e2fs m) b + c \<le> e2fs_bpg (um_e2fs m)"
    and nz: "\<not> fb_in_system_zone (um_e2fs m) (gdesc (um_e2fs m) (dtog (um_e2fs m) b)) b c"
  shows "\<exists>m'. ext2_free_blocks m b c = Return m' \<and> freed m b c m' \<and>
     ((\<forall>x. b \<le> x \<and> x < b + c \<longrightarrow> 0 < x \<and> \<not> sys_zone (um_e2fs m) (dtog (um_e2fs m) b) x) \<longrightarrow> balloc_wf m')"
proof -
  let ?sb = "um_e2fs m" let ?g = "dtog ?sb b" and ?j = "dtogd ?sb b"
  obtain data sb' where e: "ext2_free_blocks m b c = Return (m\<lparr>um_e2fs := sb', um_devvp := buf_write (bitmap_addr ?sb ?g, data) (um_devvp m)\<rparr>)"
    and um: "unmarks ?j (?j + c) (bbm m ?g) data" and gv: "gave ?sb ?g (set_bits (bbm m ?g) ?j (?j + c)) sb'"
    using free_blocks_eq [OF assms] by blast
  let ?m' = "m\<lparr>um_e2fs := sb', um_devvp := buf_write (bitmap_addr ?sb ?g, data) (um_devvp m)\<rparr>"
  have geo: "geometry_ok ?sb" and bo: "bitmaps_ok m" using wf by (simp_all add: balloc_wf_def)
  have sl: "same_layout ?sb sb'" using gv by (simp add: gave_def)
  have bl: "b < blocks_count ?sb" using b(2,3) by simp
  have g: "?g < s_groups_count ?sb" using geometry_dtog [OF geo b(1) bl] by blast
  note cnt = gave_counts [OF wf g um b(4) gv]
  have "freed m b c ?m'"
    using unmarks_used [OF geo bo sl b(1) bl b(4) um] cnt(3) sl set_bits_used [OF b(1,4)]
      blocks_frame_write [OF _ g, of sb' data] gv [unfolded gave_def]
    by (simp add: freed_def Let_def)
  moreover have "balloc_wf ?m'" if ok: "\<forall>x. b \<le> x \<and> x < b + c \<longrightarrow> 0 < x \<and> \<not> sys_zone ?sb ?g x"
  proof (rule wf_update [OF wf sl g _ _ cnt(1,2,4)])
    show "length data = length (bbm m ?g)" using um by (simp add: unmarks_def)
    fix i assume i: "i < e2fs_bpg ?sb" "bm_bit (bbm m ?g) i" "\<not> bm_bit data i"
    have "e2fs_bpg ?sb \<le> 8 * length (bbm m ?g)"
      using geo bo g by (simp add: geometry_ok_def bitmaps_ok_def Let_def)
    then have "?j \<le> i \<and> i < ?j + c" using um i by (auto simp: unmarks_def)
    then have "b \<le> block_no ?sb ?g i \<and> block_no ?sb ?g i < b + c"
      using block_no_dtog [OF b(1)] by (simp add: block_no_def)
    then show "\<not> sys_zone ?sb ?g (block_no ?sb ?g i) \<and> block_no ?sb ?g i \<noteq> 0 \<and> block_no ?sb ?g i < blocks_count ?sb"
      using ok b(2) by auto
  qed
  ultimately show ?thesis using e by blast
qed

section \<open>The allocator meets its contract\<close>

lemma in_range_iff:
  "0 < len \<Longrightarrow> first + len < 2 ^ 64 \<Longrightarrow> in_range b first len \<longleftrightarrow> first \<le> b \<and> b < first + len"
  by (auto simp: in_range_def ulong_pred)

lemma data_range_zone:
  assumes "geometry_ok sb" "data_range sb b c"
  shows "\<not> fb_in_system_zone sb (gdesc sb (dtog sb b)) b c"
proof -
  let ?g = "gdesc sb (dtog sb b)"
  have bc: "blocks_count sb < 2 ^ 32" "unat (bg_inode_table ?g) < 2 ^ 32"
    using unsigned_less [of "s_blocks_count (s_es sb)"] unsigned_less [of "bg_inode_table ?g"] by simp_all
  have d: "b + c \<le> blocks_count sb" "0 < c" "\<And>x. b \<le> x \<Longrightarrow> x < b + c \<Longrightarrow> \<not> sys_zone sb (dtog sb b) x"
    using assms(2) by (auto simp: data_range_def)
  have i: "in_range x b c \<longleftrightarrow> b \<le> x \<and> x < b + c" for x using d(1,2) bc(1) by (intro in_range_iff) simp_all
  have j: "in_range x (unat (bg_inode_table ?g)) (e2fs_itpg sb) \<longleftrightarrow>
      unat (bg_inode_table ?g) \<le> x \<and> x < unat (bg_inode_table ?g) + e2fs_itpg sb" for x
    using assms(1) bc(2) by (intro in_range_iff) (auto simp: geometry_ok_def)
  have u: "ulong (int b + int c - 1) = b + c - 1" using d(1,2) bc(1) by (intro ulong_pred) simp_all
  show ?thesis unfolding fb_in_system_zone_def i j u
    using d(2) d(3) [of b] d(3) [of "b + c - 1"] d(3) [of "unat (bg_block_bitmap ?g)"] d(3) [of "unat (bg_inode_bitmap ?g)"]
    by (auto simp: sys_zone_def)
qed

lemma free_data_blocks:
  assumes "balloc_wf m" "data_range (um_e2fs m) b c"
  shows "\<exists>m'. ext2_free_blocks m b c = Return m' \<and> freed m b c m' \<and> balloc_wf m'"
proof -
  have "geometry_ok (um_e2fs m)" using assms(1) by (simp add: balloc_wf_def)
  from data_range_zone [OF this assms(2)] show ?thesis
    using free_blocks_ok [OF assms(1), of b c] assms(2) by (auto simp: data_range_def)
qed

interpretation blocks: resource_allocator balloc_wf free_blocks block_take block_give
proof
  fix m A m'
  assume wf: "balloc_wf m"
  show "balloc_wf m' \<and> A \<subseteq> free_blocks m \<and> free_blocks m' = free_blocks m - A" if t: "block_take m A m'"
  proof -
    obtain goal want n pre where n: "ext2_new_block m goal want = Some (Return (n, pre, m'))" "0 < n"
      "A = {nat n..nat n + (case pre of None \<Rightarrow> 0 | Some (c, b) \<Rightarrow> c)}" using t by (auto simp: block_take_def)
    have "balloc_wf m' \<and> (\<exists>b c. n = int b \<and> pre = (if want then Some (c, b + 1) else None) \<and>
        allocated m b c m' \<and> c < prealloc_goal (s_es (um_e2fs m)) \<and> (\<not> want \<longrightarrow> c = 0))"
    proof (cases "s_free_blocks_count (s_es (um_e2fs m)) = 0")
      case True
      then show ?thesis using new_block_ok [OF wf, of goal want] n(1,2) by simp
    next
      case False
      then show ?thesis using new_block_ok [OF wf, of goal want] unfolding n(1) if_not_P [OF False] by blast
    qed
    then obtain b c where b: "n = int b" "pre = (if want then Some (c, b + 1) else None)" "allocated m b c m'"
      "\<not> want \<longrightarrow> c = 0" "balloc_wf m'" by blast
    then have A: "A = {b..b + c}" using n(3) by (cases want) auto
    have "first_data_block (um_e2fs m') = first_data_block (um_e2fs m)" "blocks_count (um_e2fs m') = blocks_count (um_e2fs m)"
      using b(3) by (simp_all add: allocated_def same_layout_def Let_def)
    then show ?thesis using b(3,5) unfolding A free_blocks_def by (auto simp: allocated_def Let_def)
  qed
  show "balloc_wf m' \<and> free_blocks m' = free_blocks m \<union> A" if t: "block_give m A m'"
  proof -
    obtain b c where b: "data_range (um_e2fs m) b c" "ext2_free_blocks m b c = Return m'" "A = {b..<b + c}"
      using t by (auto simp: block_give_def)
    then have f: "freed m b c m'" "balloc_wf m'" using free_data_blocks [OF wf b(1)] by auto
    have "first_data_block (um_e2fs m') = first_data_block (um_e2fs m)" "blocks_count (um_e2fs m') = blocks_count (um_e2fs m)"
      using f(1) by (simp_all add: freed_def same_layout_def Let_def)
    then show ?thesis using f b(1,3) unfolding free_blocks_def by (auto simp: freed_def Let_def data_range_def)
  qed
qed

lemma same_layout_refl: "same_layout sb sb" by (simp add: same_layout_def)

lemma blocks_frame_refl: "blocks_frame m m"
proof -
  have "um_e2fs m = (um_e2fs m)\<lparr>s_es := (s_es (um_e2fs m))\<lparr>s_free_blocks_count := s_free_blocks_count (s_es (um_e2fs m))\<rparr>,
      s_group_desc := s_group_desc (um_e2fs m), s_gd_dirty := s_gd_dirty (um_e2fs m), s_dirt := s_dirt (um_e2fs m)\<rparr>" by simp
  moreover have "gdesc (um_e2fs m) g = (gdesc (um_e2fs m) g)\<lparr>bg_free_blocks_count := bg_free_blocks_count (gdesc (um_e2fs m) g)\<rparr>" for g
    by simp
  ultimately show ?thesis unfolding blocks_frame_def only_free_counts_def by blast
qed

lemma blocks_frame_trans:
  assumes "blocks_frame m m1" "same_layout (um_e2fs m) (um_e2fs m1)" "blocks_frame m1 m2"
  shows "blocks_frame m m2"
proof -
  have g: "s_groups_count (um_e2fs m1) = s_groups_count (um_e2fs m)" using assms(2) by (simp add: same_layout_def)
  obtain n ds D d n' ds' D' d' where
    1: "um_e2fs m1 = (um_e2fs m)\<lparr>s_es := (s_es (um_e2fs m))\<lparr>s_free_blocks_count := n\<rparr>, s_group_desc := ds, s_gd_dirty := D, s_dirt := d\<rparr>"
    and 2: "um_e2fs m2 = (um_e2fs m1)\<lparr>s_es := (s_es (um_e2fs m1))\<lparr>s_free_blocks_count := n'\<rparr>, s_group_desc := ds', s_gd_dirty := D', s_dirt := d'\<rparr>"
    using assms(1,3) by (auto simp: blocks_frame_def only_free_counts_def)
  have "um_e2fs m2 = (um_e2fs m)\<lparr>s_es := (s_es (um_e2fs m))\<lparr>s_free_blocks_count := n'\<rparr>, s_group_desc := ds', s_gd_dirty := D', s_dirt := d'\<rparr>"
    unfolding 2 1 by simp
  moreover have "\<exists>n. gdesc (um_e2fs m2) h = (gdesc (um_e2fs m) h)\<lparr>bg_free_blocks_count := n\<rparr>" if h: "h < s_groups_count (um_e2fs m)" for h
  proof -
    obtain k where k: "gdesc (um_e2fs m1) h = (gdesc (um_e2fs m) h)\<lparr>bg_free_blocks_count := k\<rparr>"
      using assms(1) h unfolding blocks_frame_def only_free_counts_def by blast
    obtain k' where "gdesc (um_e2fs m2) h = (gdesc (um_e2fs m1) h)\<lparr>bg_free_blocks_count := k'\<rparr>"
      using assms(3) h g unfolding blocks_frame_def only_free_counts_def by auto
    then have "gdesc (um_e2fs m2) h = (gdesc (um_e2fs m) h)\<lparr>bg_free_blocks_count := k'\<rparr>" unfolding k by simp
    then show ?thesis by blast
  qed
  ultimately have "only_free_counts (um_e2fs m) (um_e2fs m2)" unfolding only_free_counts_def by blast
  moreover have "d_data (um_devvp m2) a = d_data (um_devvp m) a" if "\<forall>g < s_groups_count (um_e2fs m). a \<noteq> bitmap_addr (um_e2fs m) g" for a
    using assms(1,3) that g same_layoutD(1) [OF assms(2)] by (simp add: blocks_frame_def)
  ultimately show ?thesis using assms(1,3) by (simp add: blocks_frame_def)
qed

end
