(* ===== verification/Ext2_Ialloc.thy ===== *)
theory Ext2_Ialloc
  imports Ext2_Balloc_Linux
begin

text \<open>
  The inode allocator of \<^verbatim>\<open>gnu/ext2fs/ext2_linux_ialloc.c\<close>: \<^verbatim>\<open>ext2_new_inode\<close> with its
  two placement policies, \<^verbatim>\<open>ext2_free_inode\<close> and the loading of inode bitmaps.

  \<open>bp2\<close> of the source, the descriptor buffer of the group that \<^verbatim>\<open>get_group_desc\<close> was
  last asked for, is kept apart from \<open>gdp\<close>, the descriptor that was chosen: the routine
  changes the one and marks the other dirty.
\<close>

section \<open>Loading an inode bitmap\<close>

definition read_inode_bitmap :: "ext2mount \<Rightarrow> nat \<Rightarrow> buf outcome" where
  "read_inode_bitmap m block_group =
     (let sb = um_e2fs m in
      bindp (get_group_desc sb block_group) (\<lambda>gdp.
        let lbn = uint (bg_inode_bitmap (gdp_read sb gdp)) in
        case buf_meta_bread (um_devvp m) (fsbtodb sb lbn) of
          None \<Rightarrow> Panic Cannot_read_bitmap
        | Some bp \<Rightarrow> Return bp))"

definition load__inode_bitmap :: "ext2mount \<Rightarrow> nat \<Rightarrow> (nat \<times> buf option \<times> ext2mount) outcome" where
  "load__inode_bitmap m block_group =
     (let sb = um_e2fs m in
      if block_group \<ge> s_groups_count sb then Panic Group_out_of_range
      else if s_loaded_inode_bitmaps sb > 0 \<and> s_inode_bitmap_number sb ! 0 = block_group
      then Return (0, None, m)
      else if s_groups_count sb \<le> 8 then
        (if s_inode_bitmap sb ! block_group \<noteq> None then
           (if s_inode_bitmap_number sb ! block_group \<noteq> block_group
            then Panic Bitmap_number_mismatch
            else Return (block_group, None, m))
         else bindp (read_inode_bitmap m block_group) (\<lambda>bp. Return (block_group, Some bp, m)))
      else
        let i = lru_find 0 (s_loaded_inode_bitmaps sb) (s_inode_bitmap_number sb) block_group in
        if i < s_loaded_inode_bitmaps sb \<and> s_inode_bitmap_number sb ! i = block_group then
          Return (0, None, m\<lparr>um_e2fs := sb\<lparr>
            s_inode_bitmap_number := lru_to_front i (s_inode_bitmap_number sb),
            s_inode_bitmap := lru_to_front i (s_inode_bitmap sb)\<rparr>\<rparr>)
        else bindp (read_inode_bitmap m block_group) (\<lambda>bp. Return (0, Some bp, m)))"

text \<open>\<^verbatim>\<open>load_inode_bitmap\<close> and the use of \<^verbatim>\<open>bp\<close> after it.\<close>

definition load_inode_bitmap :: "ext2mount \<Rightarrow> nat \<Rightarrow> (buf \<times> ext2mount) outcome" where
  "load_inode_bitmap m block_group =
     bindp (load__inode_bitmap m block_group) (\<lambda>(bitmap_nr, bpp, m').
       case bpp of None \<Rightarrow> Panic Wild_pointer | Some bp \<Rightarrow> Return (bp, m'))"

section \<open>Freeing an inode\<close>

definition give_inode :: "gdptr \<Rightarrow> bool \<Rightarrow> m_ext2fs \<Rightarrow> m_ext2fs" where
  "give_inode gdp isdir sb =
     (let gd = gdp_read sb gdp;
          gd = gd\<lparr>bg_free_inodes_count := bg_free_inodes_count gd + 1\<rparr>;
          gd = (if isdir then gd\<lparr>bg_used_dirs_count := bg_used_dirs_count gd - 1\<rparr> else gd);
          sb = (if isdir then sb\<lparr>s_dircount := s_dircount sb - 1\<rparr> else sb);
          es = s_es sb in
      (mark_buffer_dirty gdp (gdp_write gdp gd sb))
        \<lparr>s_es := es\<lparr>s_free_inodes_count := s_free_inodes_count es + 1\<rparr>\<rparr>)"

definition ext2_free_inode :: "ext2mount \<Rightarrow> inode \<Rightarrow> ext2mount outcome" where
  "ext2_free_inode m ip =
     (let sb = um_e2fs m in
      if i_nlink ip \<noteq> 0 then Return m
      else if i_number ip < 11 \<or> i_number ip > unat (s_inodes_count (s_es sb)) then Return m
      else
        let block_group = (i_number ip - 1) div e2fs_ipg sb;
            b = (i_number ip - 1) mod e2fs_ipg sb in
        bindp (load_inode_bitmap m block_group) (\<lambda>(bp, m).
        let sb = um_e2fs m;
            (old, data) = ext2_clear_bit b (snd bp);
            dev = buf_write (fst bp, data) (um_devvp m) in
        if old = 0 then Return (m\<lparr>um_e2fs := sb\<lparr>s_dirt := True\<rparr>, um_devvp := dev\<rparr>)
        else
          bindp (get_group_desc sb block_group) (\<lambda>gdp.
          Return (m\<lparr>um_e2fs := (give_inode gdp (S_ISDIR (i_mode ip)) sb)\<lparr>s_dirt := True\<rparr>,
                    um_devvp := dev\<rparr>))))"

section \<open>Choosing a group\<close>

text \<open>
  The loop for a directory from group \<open>j\<close> on: among the groups with at least the average
  number of free inodes, the first with the most free blocks.
\<close>

fun ni_dir_scan ::
    "nat \<Rightarrow> m_ext2fs \<Rightarrow> nat \<Rightarrow> nat \<Rightarrow> (nat \<times> gdptr) option \<Rightarrow> gdptr option \<Rightarrow>
     ((nat \<times> gdptr) option \<times> gdptr option) outcome" where
  "ni_dir_scan 0 sb avefreei j best bp2 = Return (best, bp2)"
| "ni_dir_scan (Suc n) sb avefreei j best bp2 =
     bindp (get_group_desc sb j) (\<lambda>tmp.
       let gd = gdp_read sb tmp;
           better = (case best of None \<Rightarrow> True
             | Some (i, gdp) \<Rightarrow> bg_free_blocks_count gd > bg_free_blocks_count (gdp_read sb gdp));
           best = (if bg_free_inodes_count gd \<noteq> 0 \<and> unat (bg_free_inodes_count gd) \<ge> avefreei \<and> better
                   then Some (j, tmp) else best) in
       ni_dir_scan n sb avefreei (Suc j) best (Some tmp))"

text \<open>The quadratic hash: \<open>2 ^ k\<close> is the loop variable \<^verbatim>\<open>j\<close>.\<close>

function ni_quad :: "m_ext2fs \<Rightarrow> nat \<Rightarrow> nat \<Rightarrow> gdptr option \<Rightarrow> ((nat \<times> gdptr) option \<times> gdptr option) outcome" where
  "ni_quad sb k i bp2 =
     (if 2 ^ k < s_groups_count sb then
        let i = i + 2 ^ k;
            i = (if i \<ge> s_groups_count sb then i - s_groups_count sb else i) in
        bindp (get_group_desc sb i) (\<lambda>tmp.
          if bg_free_inodes_count (gdp_read sb tmp) \<noteq> 0 then Return (Some (i, tmp), Some tmp)
          else ni_quad sb (Suc k) i (Some tmp))
      else Return (None, bp2))"
  by pat_completeness auto
termination
  by (relation "measure (\<lambda>(sb, k, i, bp2). s_groups_count sb - 2 ^ k)") (auto simp: diff_less_mono2)

declare ni_quad.simps [simp del]

fun ni_linear :: "nat \<Rightarrow> m_ext2fs \<Rightarrow> nat \<Rightarrow> gdptr option \<Rightarrow> ((nat \<times> gdptr) option \<times> gdptr option) outcome" where
  "ni_linear 0 sb i bp2 = Return (None, bp2)"
| "ni_linear (Suc n) sb i bp2 =
     (let i = (if i + 1 \<ge> s_groups_count sb then 0 else i + 1) in
      bindp (get_group_desc sb i) (\<lambda>tmp.
        if bg_free_inodes_count (gdp_read sb tmp) \<noteq> 0 then Return (Some (i, tmp), Some tmp)
        else ni_linear n sb i (Some tmp)))"

definition ni_file_group :: "m_ext2fs \<Rightarrow> nat \<Rightarrow> ((nat \<times> gdptr) option \<times> gdptr option) outcome" where
  "ni_file_group sb i =
     bindp (get_group_desc sb i) (\<lambda>tmp.
       if bg_free_inodes_count (gdp_read sb tmp) \<noteq> 0 then Return (Some (i, tmp), Some tmp)
       else
         bindp (ni_quad sb 0 i (Some tmp)) (\<lambda>(found, bp2).
           case found of
             Some c \<Rightarrow> Return (Some c, bp2)
           | None \<Rightarrow> ni_linear (s_groups_count sb) sb i bp2))"

definition ni_group :: "m_ext2fs \<Rightarrow> inode \<Rightarrow> u16 \<Rightarrow> ((nat \<times> gdptr) option \<times> gdptr option) outcome" where
  "ni_group sb dir mode =
     (if S_ISDIR mode then
        (if s_groups_count sb = 0 then Panic Divide_error
         else ni_dir_scan (s_groups_count sb) sb (unat (s_free_inodes_count (s_es sb)) div s_groups_count sb) 0 None None)
      else ni_file_group sb (i_block_group dir))"

section \<open>Allocating an inode\<close>

definition take_inode :: "gdptr \<Rightarrow> gdptr \<Rightarrow> bool \<Rightarrow> m_ext2fs \<Rightarrow> m_ext2fs" where
  "take_inode gdp bp2 isdir sb =
     (let gd = gdp_read sb gdp;
          gd = gd\<lparr>bg_free_inodes_count := bg_free_inodes_count gd - 1\<rparr>;
          gd = (if isdir then gd\<lparr>bg_used_dirs_count := bg_used_dirs_count gd + 1\<rparr> else gd);
          sb = (if isdir then sb\<lparr>s_dircount := s_dircount sb + 1\<rparr> else sb);
          es = s_es sb in
      (mark_buffer_dirty bp2 (gdp_write gdp gd sb))
        \<lparr>s_es := es\<lparr>s_free_inodes_count := s_free_inodes_count es - 1\<rparr>, s_dirt := True\<rparr>)"

datatype ni_result = Ni_return nat ext2mount | Ni_repeat ext2mount

definition ni_take_bit :: "ext2mount \<Rightarrow> u16 \<Rightarrow> nat \<Rightarrow> gdptr \<Rightarrow> gdptr \<Rightarrow> buf \<Rightarrow> ni_result" where
  "ni_take_bit m mode i gdp bp2 bp =
     (let sb = um_e2fs m;
          j = int32 (int (ext2_find_first_zero_bit (snd bp) (e2fs_ipg sb))) in
      if ulong j < e2fs_ipg sb then
        let (old, data) = ext2_set_bit (nat j) (snd bp) in
        if old \<noteq> 0 then Ni_repeat m
        else
          let j = int32 (j + int (i * e2fs_ipg sb) + 1) in
          if j < 11 \<or> uint32 j > unat (s_inodes_count (s_es sb)) then Ni_return 0 m
          else Ni_return (nat j)
            (m\<lparr>um_e2fs := take_inode gdp bp2 (S_ISDIR mode) sb,
               um_devvp := buf_write (fst bp, data) (um_devvp m)\<rparr>)
      else if bg_free_inodes_count (gdp_read sb gdp) \<noteq> 0 then Ni_return 0 m
      else Ni_repeat m)"

definition ni_pass :: "ext2mount \<Rightarrow> inode \<Rightarrow> u16 \<Rightarrow> ni_result outcome" where
  "ni_pass m dir mode =
     bindp (ni_group (um_e2fs m) dir mode) (\<lambda>(found, bp2).
       case found of
         None \<Rightarrow> Return (Ni_return 0 m)
       | Some (i, gdp) \<Rightarrow>
           bindp (load_inode_bitmap m i) (\<lambda>(bp, m).
             Return (ni_take_bit m mode i gdp (the bp2) bp)))"

partial_function (option) ext2_new_inode ::
    "ext2mount \<Rightarrow> inode \<Rightarrow> u16 \<Rightarrow> (nat \<times> ext2mount) outcome option" where
  "ext2_new_inode m dir mode =
     (case ni_pass m dir mode of
        Panic p \<Rightarrow> Some (Panic p)
      | Return (Ni_return ino m') \<Rightarrow> Some (Return (ino, m'))
      | Return (Ni_repeat m') \<Rightarrow> ext2_new_inode m' dir mode)"

section \<open>Well-formed inode bitmaps\<close>

text \<open>
  As for blocks: readable bitmaps that do not overlap, counters that agree with them, and
  the inodes below the first ordinary one marked used.
\<close>

definition ibitmap_addr :: "m_ext2fs \<Rightarrow> nat \<Rightarrow> int" where
  "ibitmap_addr sb g = fsbtodb sb (uint (bg_inode_bitmap (gdesc sb g)))"

definition ibm :: "ext2mount \<Rightarrow> nat \<Rightarrow> u8 list" where
  "ibm m g = d_data (um_devvp m) (ibitmap_addr (um_e2fs m) g)"

definition ino_no :: "m_ext2fs \<Rightarrow> nat \<Rightarrow> nat \<Rightarrow> nat" where
  "ino_no sb g j = g * e2fs_ipg sb + j + 1"

definition ino_bit :: "m_ext2fs \<Rightarrow> nat \<Rightarrow> nat" where
  "ino_bit sb ino = (ino - 1) mod e2fs_ipg sb"

definition inode_used :: "ext2mount \<Rightarrow> nat \<Rightarrow> bool" where
  "inode_used m ino = bm_bit (ibm m (ino_to_cg (um_e2fs m) ino)) (ino_bit (um_e2fs m) ino)"

abbreviation inodes_count :: "m_ext2fs \<Rightarrow> nat" where
  "inodes_count sb \<equiv> unat (s_inodes_count (s_es sb))"

abbreviation ifree_of :: "m_ext2fs \<Rightarrow> nat \<Rightarrow> nat" where
  "ifree_of sb g \<equiv> unat (bg_free_inodes_count (gdesc sb g))"

abbreviation ifree :: "m_ext2fs \<Rightarrow> nat" where
  "ifree sb \<equiv> unat (s_free_inodes_count (s_es sb))"

definition igeometry_ok :: "m_ext2fs \<Rightarrow> bool" where
  "igeometry_ok sb \<longleftrightarrow> 0 < s_groups_count sb \<and> 0 < e2fs_ipg sb \<and> e2fs_ipg sb \<le> 8 * s_blocksize sb \<and>
     e2fs_ipg sb < 2 ^ 16 \<and> inodes_count sb = s_groups_count sb * e2fs_ipg sb \<and> inodes_count sb < 2 ^ 31 \<and>
     s_loaded_inode_bitmaps sb = 0 \<and> s_inode_bitmap sb = replicate 8 None"

definition ibitmaps_ok :: "ext2mount \<Rightarrow> bool" where
  "ibitmaps_ok m \<longleftrightarrow> (let sb = um_e2fs m in
     (\<forall>g < s_groups_count sb. \<not> d_err (um_devvp m) (ibitmap_addr sb g) \<and> length (ibm m g) = s_blocksize sb) \<and>
     (\<forall>g < s_groups_count sb. \<forall>h < s_groups_count sb. ibitmap_addr sb g = ibitmap_addr sb h \<longrightarrow> g = h))"

definition ireserved_used :: "ext2mount \<Rightarrow> bool" where
  "ireserved_used m \<longleftrightarrow> (\<forall>g < s_groups_count (um_e2fs m). \<forall>j < e2fs_ipg (um_e2fs m).
     ino_no (um_e2fs m) g j < 11 \<longrightarrow> bm_bit (ibm m g) j)"

definition icounts_ok :: "ext2mount \<Rightarrow> bool" where
  "icounts_ok m \<longleftrightarrow> (let sb = um_e2fs m in
     (\<forall>g < s_groups_count sb. ifree_of sb g = count_zeros (bm_bit (ibm m g)) (e2fs_ipg sb)) \<and>
     ifree sb = (\<Sum>g < s_groups_count sb. ifree_of sb g))"

definition ialloc_wf :: "ext2mount \<Rightarrow> bool" where
  "ialloc_wf m \<longleftrightarrow> igeometry_ok (um_e2fs m) \<and> gds_loaded (um_e2fs m) \<and> ibitmaps_ok m \<and>
     ireserved_used m \<and> icounts_ok m"

text \<open>Groups a directory may go to.\<close>

definition dir_eligible :: "m_ext2fs \<Rightarrow> nat \<Rightarrow> nat \<Rightarrow> bool" where
  "dir_eligible sb av g \<longleftrightarrow> 0 < ifree_of sb g \<and> av \<le> ifree_of sb g"

definition group_found :: "m_ext2fs \<Rightarrow> ((nat \<times> gdptr) option \<times> gdptr option) outcome \<Rightarrow> bool" where
  "group_found sb r \<longleftrightarrow> (\<exists>i bp2. i < s_groups_count sb \<and> 0 < ifree_of sb i \<and>
     r = Return (Some (i, gd_ptr sb i), Some bp2))"

text \<open>
  \<open>best\<close> is the best of the first \<open>j\<close> groups: eligible, and no eligible group before
  \<open>j\<close> has more free blocks.
\<close>

definition best_ok :: "m_ext2fs \<Rightarrow> nat \<Rightarrow> nat \<Rightarrow> (nat \<times> gdptr) option \<Rightarrow> bool" where
  "best_ok sb av j best = (case best of None \<Rightarrow> \<forall>g < j. \<not> dir_eligible sb av g
     | Some (i, p) \<Rightarrow> i < j \<and> p = gd_ptr sb i \<and> dir_eligible sb av i \<and>
         (\<forall>g < j. dir_eligible sb av g \<longrightarrow> free_of sb g \<le> free_of sb i))"

text \<open>What the inode allocator may change in the super block.\<close>

definition only_inode_counts :: "m_ext2fs \<Rightarrow> m_ext2fs \<Rightarrow> bool" where
  "only_inode_counts sb sb' \<longleftrightarrow>
     (\<exists>n ds D d c. sb' = sb\<lparr>s_es := (s_es sb)\<lparr>s_free_inodes_count := n\<rparr>, s_group_desc := ds,
        s_gd_dirty := D, s_dirt := d, s_dircount := c\<rparr>) \<and>
     (gds_loaded sb \<longrightarrow> gds_loaded sb') \<and>
     (\<forall>g < s_groups_count sb. \<exists>n u. gdesc sb' g = (gdesc sb g)\<lparr>bg_free_inodes_count := n, bg_used_dirs_count := u\<rparr>)"

definition inodes_frame :: "ext2mount \<Rightarrow> ext2mount \<Rightarrow> bool" where
  "inodes_frame m m' \<longleftrightarrow> only_inode_counts (um_e2fs m) (um_e2fs m') \<and>
     d_err (um_devvp m') = d_err (um_devvp m) \<and> d_addr (um_devvp m') = d_addr (um_devvp m) \<and>
     (\<forall>a. (\<forall>g < s_groups_count (um_e2fs m). a \<noteq> ibitmap_addr (um_e2fs m) g) \<longrightarrow>
        d_data (um_devvp m') a = d_data (um_devvp m) a)"

text \<open>What allocating the inode \<open>ino\<close>, and freeing it, does.\<close>

definition allocated_inode :: "ext2mount \<Rightarrow> nat \<Rightarrow> bool \<Rightarrow> ext2mount \<Rightarrow> bool" where
  "allocated_inode m ino isdir m' \<longleftrightarrow> (let sb = um_e2fs m; sb' = um_e2fs m' in
     11 \<le> ino \<and> ino \<le> inodes_count sb \<and> \<not> inode_used m ino \<and> inodes_frame m m' \<and>
     (\<forall>x. 1 \<le> x \<and> x \<le> inodes_count sb \<longrightarrow> (inode_used m' x \<longleftrightarrow> inode_used m x \<or> x = ino)) \<and>
     ifree sb' + 1 = ifree sb \<and> s_dircount sb' = s_dircount sb + (if isdir then 1 else 0) \<and>
     (\<forall>g < s_groups_count sb. bg_used_dirs_count (gdesc sb' g) =
        bg_used_dirs_count (gdesc sb g) + (if isdir \<and> g = ino_to_cg sb ino then 1 else 0)))"

definition freed_inode :: "ext2mount \<Rightarrow> nat \<Rightarrow> bool \<Rightarrow> ext2mount \<Rightarrow> bool" where
  "freed_inode m ino isdir m' \<longleftrightarrow> (let sb = um_e2fs m; sb' = um_e2fs m' in
     inodes_frame m m' \<and>
     (\<forall>x. 1 \<le> x \<and> x \<le> inodes_count sb \<longrightarrow> (inode_used m' x \<longleftrightarrow> inode_used m x \<and> x \<noteq> ino)) \<and>
     ifree sb' = ifree sb + 1 \<and> s_dircount sb' = s_dircount sb - (if isdir then 1 else 0) \<and>
     (\<forall>g < s_groups_count sb. bg_used_dirs_count (gdesc sb' g) =
        bg_used_dirs_count (gdesc sb g) - (if isdir \<and> g = ino_to_cg sb ino then 1 else 0)))"

text \<open>The allocator as steps on the set of free inodes.\<close>

definition free_inodes :: "ext2mount \<Rightarrow> nat set" where
  "free_inodes m = {x. 1 \<le> x \<and> x \<le> inodes_count (um_e2fs m) \<and> \<not> inode_used m x}"

definition inode_take :: "ext2mount \<Rightarrow> nat set \<Rightarrow> ext2mount \<Rightarrow> bool" where
  "inode_take m A m' \<longleftrightarrow> (\<exists>dir mode ino. i_block_group dir < s_groups_count (um_e2fs m) \<and>
     ext2_new_inode m dir mode = Some (Return (ino, m')) \<and> 0 < ino \<and> A = {ino})"

definition inode_give :: "ext2mount \<Rightarrow> nat set \<Rightarrow> ext2mount \<Rightarrow> bool" where
  "inode_give m A m' \<longleftrightarrow> (\<exists>ip. i_nlink ip = 0 \<and> 11 \<le> i_number ip \<and> i_number ip \<le> inodes_count (um_e2fs m) \<and>
     inode_used m (i_number ip) \<and> ext2_free_inode m ip = Return m' \<and> A = {i_number ip})"

text \<open>A file system in which both allocators can work: their bitmaps do not overlap.\<close>

definition fs_wf :: "ext2mount \<Rightarrow> bool" where
  "fs_wf m \<longleftrightarrow> balloc_wf m \<and> ialloc_wf m \<and>
     (\<forall>g < s_groups_count (um_e2fs m). \<forall>h < s_groups_count (um_e2fs m).
        bitmap_addr (um_e2fs m) g \<noteq> ibitmap_addr (um_e2fs m) h)"

section \<open>Loading a bitmap that is not cached\<close>

lemma load_inode_bitmap_wf:
  assumes "ialloc_wf m" "g < s_groups_count (um_e2fs m)"
  shows "load_inode_bitmap m g = Return ((ibitmap_addr (um_e2fs m) g, ibm m g), m)"
proof -
  have "read_inode_bitmap m g = Return (ibitmap_addr (um_e2fs m) g, ibm m g)"
    using assms by (simp add: ialloc_wf_def ibitmaps_ok_def read_inode_bitmap_def get_group_desc_loaded
        buf_meta_bread_def ibm_def ibitmap_addr_def gdesc_def Let_def)
  then show ?thesis using assms
    by (simp add: ialloc_wf_def igeometry_ok_def load_inode_bitmap_def load__inode_bitmap_def Let_def)
qed

section \<open>Directories\<close>

lemma dir_scan_ok:
  assumes "gds_loaded sb" "j + n \<le> s_groups_count sb" "best_ok sb av j best"
  shows "\<exists>best' bp2'. ni_dir_scan n sb av j best bp2 = Return (best', bp2') \<and>
     best_ok sb av (j + n) best' \<and> bp2' = (if n = 0 then bp2 else Some (gd_ptr sb (j + n - 1)))"
  using assms(2,3)
proof (induction n arbitrary: j best bp2)
  case 0
  then show ?case by simp
next
  case (Suc n)
  have j: "j < s_groups_count sb" using Suc.prems(1) by simp
  let ?gd = "gdesc sb j"
  let ?better = "case best of None \<Rightarrow> True
     | Some (i, gdp) \<Rightarrow> bg_free_blocks_count ?gd > bg_free_blocks_count (gdp_read sb gdp)"
  define best1 where "best1 = (if bg_free_inodes_count ?gd \<noteq> 0 \<and> unat (bg_free_inodes_count ?gd) \<ge> av \<and> ?better
     then Some (j, gd_ptr sb j) else best)"
  have step: "ni_dir_scan (Suc n) sb av j best bp2 = ni_dir_scan n sb av (Suc j) best1 (Some (gd_ptr sb j))"
    using get_group_desc_loaded [OF assms(1) j] unfolding best1_def gdesc_def by (simp add: Let_def)
  have el: "bg_free_inodes_count ?gd \<noteq> 0 \<and> unat (bg_free_inodes_count ?gd) \<ge> av \<longleftrightarrow> dir_eligible sb av j"
    by (auto simp: dir_eligible_def unat_gt_0)
  have inv: "best_ok sb av (Suc j) best1"
  proof (cases best)
    case None
    then show ?thesis using Suc.prems(2) el by (auto simp: best1_def best_ok_def less_Suc_eq)
  next
    case (Some b)
    then obtain i where i: "best = Some (i, gd_ptr sb i)" "i < j" "dir_eligible sb av i"
      "\<forall>g < j. dir_eligible sb av g \<longrightarrow> free_of sb g \<le> free_of sb i"
      using Suc.prems(2) by (cases b) (auto simp: best_ok_def)
    have "?better \<longleftrightarrow> free_of sb i < free_of sb j"
      using i(1) by (simp add: gdesc_def word_less_nat_alt)
    then show ?thesis using i el by (auto simp: best1_def best_ok_def less_Suc_eq)
  qed
  show ?case unfolding step using Suc.IH [OF _ inv, of "Some (gd_ptr sb j)"] Suc.prems(1)
    by (cases "n = 0") simp_all
qed

text \<open>Some group has at least the average number of free inodes.\<close>

lemma average_group:
  fixes f :: "nat \<Rightarrow> nat"
  assumes "0 < (\<Sum>g < n. f g)"
  shows "\<exists>g < n. 0 < f g \<and> (\<Sum>g < n. f g) div n \<le> f g"
proof (rule ccontr)
  let ?s = "\<Sum>g < n. f g"
  assume no: "\<not> (\<exists>g < n. 0 < f g \<and> ?s div n \<le> f g)"
  show False
  proof (cases "?s div n = 0")
    case True
    then show False using no assms by auto
  next
    case False
    then have lt: "f g < ?s div n" if "g < n" for g using no that by (cases "f g = 0") auto
    have "0 < n" using assms by (cases n) auto
    then have "?s < (\<Sum>g < n. ?s div n)" using lt by (intro sum_strict_mono) auto
    then show False by (simp add: leD [OF times_div_less_eq_dividend])
  qed
qed

lemma dir_group_found:
  assumes "ialloc_wf m" "0 < ifree (um_e2fs m)" "S_ISDIR mode"
  shows "group_found (um_e2fs m) (ni_group (um_e2fs m) dir mode)"
proof -
  let ?sb = "um_e2fs m" and ?N = "s_groups_count (um_e2fs m)" let ?av = "ifree ?sb div ?N"
  have tot: "ifree ?sb = (\<Sum>g < ?N. ifree_of ?sb g)" and N: "0 < ?N" and gl: "gds_loaded ?sb"
    using assms(1) by (simp_all add: ialloc_wf_def icounts_ok_def igeometry_ok_def Let_def)
  then obtain g where g: "g < ?N" "dir_eligible ?sb ?av g"
    using average_group [of "ifree_of ?sb" ?N] assms(2) by (auto simp: dir_eligible_def)
  obtain b p where b: "ni_dir_scan ?N ?sb ?av 0 None None = Return (b, p)" "best_ok ?sb ?av ?N b"
    "p = Some (gd_ptr ?sb (?N - 1))"
    using dir_scan_ok [OF gl, of 0 ?N ?av None None] N by (auto simp: best_ok_def [of ?sb ?av 0])
  then show ?thesis using g assms(3) N
    by (auto simp: group_found_def ni_group_def best_ok_def dir_eligible_def split: option.splits)
qed

section \<open>Other inodes\<close>

lemma quad_found:
  assumes "gds_loaded sb" "i < s_groups_count sb"
  shows "\<exists>bp. ni_quad sb k i bp2 = Return (None, bp) \<or> group_found sb (ni_quad sb k i bp2)"
  using assms
proof (induction sb k i bp2 rule: ni_quad.induct)
  case (1 sb k i bp2)
  let ?i = "if i + 2 ^ k \<ge> s_groups_count sb then i + 2 ^ k - s_groups_count sb else i + 2 ^ k"
  show ?case
  proof (cases "2 ^ k < s_groups_count sb")
    case True
    have i: "?i < s_groups_count sb" using True 1(3) by auto
    have gp: "get_group_desc sb ?i = Return (gd_ptr sb ?i)" using 1(2) i by (rule get_group_desc_loaded)
    show ?thesis
    proof (cases "ifree_of sb ?i = 0")
      case True
      then have "ni_quad sb k i bp2 = ni_quad sb (Suc k) ?i (Some (gd_ptr sb ?i))"
        using gp \<open>2 ^ k < s_groups_count sb\<close>
        by (subst ni_quad.simps) (simp add: Let_def gdesc_def unat_eq_0)
      moreover have "\<exists>bp. ni_quad sb (Suc k) ?i (Some (gd_ptr sb ?i)) = Return (None, bp) \<or>
          group_found sb (ni_quad sb (Suc k) ?i (Some (gd_ptr sb ?i)))"
        by (rule 1(1) [OF \<open>2 ^ k < s_groups_count sb\<close> refl refl _ 1(2) i])
           (use True in \<open>simp add: gdesc_def unat_eq_0\<close>)
      ultimately show ?thesis by simp
    next
      case False
      then have "ni_quad sb k i bp2 = Return (Some (?i, gd_ptr sb ?i), Some (gd_ptr sb ?i))"
        using gp True by (subst ni_quad.simps) (simp add: Let_def gdesc_def unat_eq_0)
      then show ?thesis using i False by (auto simp: group_found_def)
    qed
  next
    case False
    then show ?thesis by (subst ni_quad.simps) simp
  qed
qed

lemma linear_found:
  assumes "gds_loaded sb" "i < s_groups_count sb"
  shows "(\<exists>bp. ni_linear n sb i bp2 = Return (None, bp) \<and>
       (\<forall>k. 1 \<le> k \<and> k \<le> n \<longrightarrow> ifree_of sb ((i + k) mod s_groups_count sb) = 0)) \<or>
     group_found sb (ni_linear n sb i bp2)"
  using assms(2)
proof (induction n arbitrary: i bp2)
  case (Suc n)
  let ?N = "s_groups_count sb" and ?i = "if i + 1 \<ge> s_groups_count sb then 0 else i + 1"
  have i: "?i < ?N" "?i = (i + 1) mod ?N" using Suc.prems by (cases "Suc i = ?N"; auto)+
  have gp: "get_group_desc sb ?i = Return (gd_ptr sb ?i)" using assms(1) i(1) by (rule get_group_desc_loaded)
  show ?case
  proof (cases "ifree_of sb ?i = 0")
    case True
    have step: "ni_linear (Suc n) sb i bp2 = ni_linear n sb ?i (Some (gd_ptr sb ?i))"
      using True gp by (simp add: Let_def gdesc_def unat_eq_0)
    show ?thesis unfolding step
      using Suc.IH [OF i(1), of "Some (gd_ptr sb ?i)"] cyclic_Suc [OF i(2), where P = "\<lambda>g. ifree_of sb g = 0" and n = n] True by blast
  next
    case False
    then have "ni_linear (Suc n) sb i bp2 = Return (Some (?i, gd_ptr sb ?i), Some (gd_ptr sb ?i))"
      using gp by (simp add: Let_def gdesc_def unat_eq_0)
    then show ?thesis using i(1) False unfolding group_found_def by blast
  qed
qed simp


lemma file_group_found:
  assumes "ialloc_wf m" "0 < ifree (um_e2fs m)" "i < s_groups_count (um_e2fs m)"
  shows "group_found (um_e2fs m) (ni_file_group (um_e2fs m) i)"
proof -
  let ?sb = "um_e2fs m" and ?N = "s_groups_count (um_e2fs m)"
  have gl: "gds_loaded ?sb" and tot: "ifree ?sb = (\<Sum>g < ?N. ifree_of ?sb g)"
    using assms(1) by (simp_all add: ialloc_wf_def icounts_ok_def Let_def)
  have gp: "get_group_desc ?sb i = Return (gd_ptr ?sb i)" using gl assms(3) by (rule get_group_desc_loaded)
  have lin: "group_found ?sb (ni_linear ?N ?sb i bp)" for bp
  proof -
    have "\<exists>g < ?N. ifree_of ?sb g \<noteq> 0" using average_group [of "ifree_of ?sb" ?N] tot assms(2) by auto
    then obtain g where "g < ?N" "ifree_of ?sb g \<noteq> 0" by blast
    have no: "\<not> (\<forall>k. 1 \<le> k \<and> k \<le> ?N \<longrightarrow> ifree_of ?sb ((i + k) mod ?N) = 0)"
    proof
      assume "\<forall>k. 1 \<le> k \<and> k \<le> ?N \<longrightarrow> ifree_of ?sb ((i + k) mod ?N) = 0"
      then have "ifree_of ?sb g = 0"
        by (rule cyclic_all [OF assms(3) \<open>g < ?N\<close>, where P = "\<lambda>g. ifree_of ?sb g = 0"])
      with \<open>ifree_of ?sb g \<noteq> 0\<close> show False ..
    qed
    from linear_found [OF gl assms(3), of ?N bp] show ?thesis
    proof
      assume "\<exists>b. ni_linear ?N ?sb i bp = Return (None, b) \<and>
        (\<forall>k. 1 \<le> k \<and> k \<le> ?N \<longrightarrow> ifree_of ?sb ((i + k) mod ?N) = 0)"
      then have "\<forall>k. 1 \<le> k \<and> k \<le> ?N \<longrightarrow> ifree_of ?sb ((i + k) mod ?N) = 0" by (elim exE conjE)
      with no show ?thesis ..
    qed
  qed
  show ?thesis
  proof (cases "ifree_of ?sb i = 0")
    case True
    obtain bp where "ni_quad ?sb 0 i (Some (gd_ptr ?sb i)) = Return (None, bp) \<or>
        group_found ?sb (ni_quad ?sb 0 i (Some (gd_ptr ?sb i)))"
      using quad_found [OF gl assms(3)] by blast
    moreover have "ni_file_group ?sb i = bindp (ni_quad ?sb 0 i (Some (gd_ptr ?sb i))) (\<lambda>(found, bp2).
        case found of Some c \<Rightarrow> Return (Some c, bp2) | None \<Rightarrow> ni_linear ?N ?sb i bp2)"
      using gp True by (simp add: ni_file_group_def gdesc_def unat_eq_0)
    ultimately show ?thesis using lin by (auto simp: group_found_def)
  next
    case False
    then have "ni_file_group ?sb i = Return (Some (i, gd_ptr ?sb i), Some (gd_ptr ?sb i))"
      using gp by (simp add: ni_file_group_def gdesc_def unat_eq_0)
    then show ?thesis using assms(3) False by (auto simp: group_found_def)
  qed
qed

section \<open>Updates\<close>

lemma only_inode_countsD:
  assumes "only_inode_counts sb sb'"
  shows "s_groups_count sb' = s_groups_count sb" "e2fs_ipg sb' = e2fs_ipg sb" "s_blocksize sb' = s_blocksize sb"
    "inodes_count sb' = inodes_count sb" "igeometry_ok sb' = igeometry_ok sb"
    "ino_no sb' = ino_no sb" "ino_to_cg sb' = ino_to_cg sb" "ino_bit sb' = ino_bit sb"
    "g < s_groups_count sb \<Longrightarrow> ibitmap_addr sb' g = ibitmap_addr sb g"
    "same_layout sb sb'" "g < s_groups_count sb \<Longrightarrow> free_of sb' g = free_of sb g"
    "s_free_blocks_count (s_es sb') = s_free_blocks_count (s_es sb)"
proof -
  obtain n ds D d c where e: "sb' = sb\<lparr>s_es := (s_es sb)\<lparr>s_free_inodes_count := n\<rparr>, s_group_desc := ds,
        s_gd_dirty := D, s_dirt := d, s_dircount := c\<rparr>" using assms by (auto simp: only_inode_counts_def)
  show "s_groups_count sb' = s_groups_count sb" "e2fs_ipg sb' = e2fs_ipg sb" "s_blocksize sb' = s_blocksize sb"
    "inodes_count sb' = inodes_count sb" "igeometry_ok sb' = igeometry_ok sb"
    "ino_no sb' = ino_no sb" "ino_to_cg sb' = ino_to_cg sb" "ino_bit sb' = ino_bit sb"
    "s_free_blocks_count (s_es sb') = s_free_blocks_count (s_es sb)"
    unfolding e by (simp_all add: igeometry_ok_def ino_no_def [abs_def] ino_to_cg_def [abs_def] ino_bit_def [abs_def])
  have gd: "bg_block_bitmap (gdesc sb' g) = bg_block_bitmap (gdesc sb g) \<and>
      bg_inode_bitmap (gdesc sb' g) = bg_inode_bitmap (gdesc sb g) \<and>
      bg_inode_table (gdesc sb' g) = bg_inode_table (gdesc sb g) \<and>
      bg_free_blocks_count (gdesc sb' g) = bg_free_blocks_count (gdesc sb g)" if "g < s_groups_count sb" for g
  proof -
    have "\<forall>g < s_groups_count sb. \<exists>n u. gdesc sb' g = (gdesc sb g)\<lparr>bg_free_inodes_count := n, bg_used_dirs_count := u\<rparr>"
      using assms unfolding only_inode_counts_def by (elim conjE)
    then obtain n u where "gdesc sb' g = (gdesc sb g)\<lparr>bg_free_inodes_count := n, bg_used_dirs_count := u\<rparr>"
      using \<open>g < s_groups_count sb\<close> by blast
    then show ?thesis by simp
  qed
  have f: "s_fsbtodb sb' = s_fsbtodb sb" unfolding e by simp
  show "g < s_groups_count sb \<Longrightarrow> ibitmap_addr sb' g = ibitmap_addr sb g"
    using gd by (simp add: ibitmap_addr_def fsbtodb_def f)
  show "g < s_groups_count sb \<Longrightarrow> free_of sb' g = free_of sb g" using gd by simp
  have "gds_loaded sb \<longrightarrow> gds_loaded sb'" using assms by (simp add: only_inode_counts_def)
  moreover have "e2fs_bpg sb' = e2fs_bpg sb" "e2fs_itpg sb' = e2fs_itpg sb" "e2fs_ipg sb' = e2fs_ipg sb"
    "s_groups_count sb' = s_groups_count sb" "s_blocksize sb' = s_blocksize sb"
    "s_loaded_block_bitmaps sb' = s_loaded_block_bitmaps sb" "s_block_bitmap sb' = s_block_bitmap sb"
    "first_data_block sb' = first_data_block sb" "blocks_count sb' = blocks_count sb"
    unfolding e by simp_all
  ultimately show "same_layout sb sb'" using gd f by (simp add: same_layout_def)
qed


lemma ibm_update:
  assumes "ibitmaps_ok m" "only_inode_counts (um_e2fs m) sb'" "g < s_groups_count (um_e2fs m)" "h < s_groups_count (um_e2fs m)"
  shows "ibm (m\<lparr>um_e2fs := sb', um_devvp := buf_write (ibitmap_addr (um_e2fs m) g, data) (um_devvp m)\<rparr>) h
         = (if h = g then data else ibm m h)"
  using assms(1,3,4) only_inode_countsD(9) [OF assms(2)]
  by (auto simp: ibm_def buf_write_def ibitmaps_ok_def Let_def)

lemma inodes_frame_write:
  assumes "only_inode_counts (um_e2fs m) sb'" "g < s_groups_count (um_e2fs m)"
  shows "inodes_frame m (m\<lparr>um_e2fs := sb', um_devvp := buf_write (ibitmap_addr (um_e2fs m) g, data) (um_devvp m)\<rparr>)"
  using assms by (auto simp: inodes_frame_def buf_write_def)

lemma iwf_update:
  fixes m sb' g data
  defines "m' \<equiv> m\<lparr>um_e2fs := sb', um_devvp := buf_write (ibitmap_addr (um_e2fs m) g, data) (um_devvp m)\<rparr>"
  assumes wf: "ialloc_wf m" and oc: "only_inode_counts (um_e2fs m) sb'" and g: "g < s_groups_count (um_e2fs m)"
    and len: "length data = length (ibm m g)"
    and res: "\<And>j. j < e2fs_ipg (um_e2fs m) \<Longrightarrow> bm_bit (ibm m g) j \<Longrightarrow> \<not> bm_bit data j \<Longrightarrow> 11 \<le> ino_no (um_e2fs m) g j"
    and cnt: "ifree_of sb' g = count_zeros (bm_bit data) (e2fs_ipg (um_e2fs m))"
      "\<And>h. h < s_groups_count (um_e2fs m) \<Longrightarrow> h \<noteq> g \<Longrightarrow> ifree_of sb' h = ifree_of (um_e2fs m) h"
      "ifree sb' + ifree_of (um_e2fs m) g = ifree (um_e2fs m) + ifree_of sb' g"
  shows "ialloc_wf m'"
proof -
  let ?sb = "um_e2fs m"
  have bm: "ibm m' h = (if h = g then data else ibm m h)" if "h < s_groups_count ?sb" for h
    unfolding m'_def using wf oc g that by (intro ibm_update) (simp_all add: ialloc_wf_def)
  note D = only_inode_countsD [OF oc]
  have m': "um_e2fs m' = sb'" "d_err (um_devvp m') = d_err (um_devvp m)" by (simp_all add: m'_def buf_write_def)
  have "ibitmaps_ok m'" using wf g len by (simp add: ialloc_wf_def ibitmaps_ok_def Let_def m' D(1,3,9) bm)
  moreover have "ireserved_used m'"
    unfolding ireserved_used_def m' D(1,2,6)
  proof (intro allI impI)
    fix h j assume h: "h < s_groups_count ?sb" and j: "j < e2fs_ipg ?sb" and r: "ino_no ?sb h j < 11"
    then have "bm_bit (ibm m h) j" using wf by (simp add: ialloc_wf_def ireserved_used_def)
    then show "bm_bit (ibm m' h) j" using res [OF j] r bm [OF h] by (cases "h = g"; cases "bm_bit data j") auto
  qed
  moreover have s: "(\<Sum>h < s_groups_count ?sb. ifree_of sb' h) + ifree_of ?sb g = (\<Sum>h < s_groups_count ?sb. ifree_of ?sb h) + ifree_of sb' g"
    using g cnt(2) by (simp add: sum.remove [of _ g])
  have co: "icounts_ok m" using wf by (simp add: ialloc_wf_def)
  then have "ifree ?sb = (\<Sum>h < s_groups_count ?sb. ifree_of ?sb h)" by (simp add: icounts_ok_def Let_def)
  then have "ifree sb' = (\<Sum>h < s_groups_count ?sb. ifree_of sb' h)" using s cnt(3) by linarith
  moreover have "ifree_of sb' h = count_zeros (bm_bit (ibm m' h)) (e2fs_ipg ?sb)" if "h < s_groups_count ?sb" for h
    using cnt(1) cnt(2) [OF that] co that bm [OF that] by (cases "h = g") (simp_all add: icounts_ok_def Let_def)
  ultimately have "icounts_ok m'" by (simp add: icounts_ok_def Let_def m' D(1,2))
  moreover have "gds_loaded sb'" using wf oc by (simp add: ialloc_wf_def only_inode_counts_def)
  ultimately show ?thesis using wf \<open>ibitmaps_ok m'\<close> \<open>ireserved_used m'\<close> by (simp add: ialloc_wf_def m' D(5))
qed

text \<open>A change of the counters of one group.\<close>

lemma only_inode_counts_write:
  assumes "gds_loaded sb" "g < s_groups_count sb"
  shows "only_inode_counts sb ((mark_buffer_dirty p (gdp_write (gd_ptr sb g)
     ((gdesc sb g)\<lparr>bg_free_inodes_count := n, bg_used_dirs_count := u\<rparr>) (sb\<lparr>s_dircount := c\<rparr>)))
     \<lparr>s_es := (s_es sb)\<lparr>s_free_inodes_count := k\<rparr>, s_dirt := True\<rparr>)"
    (is "only_inode_counts sb ?sb'")
proof -
  let ?w = "gdp_write (gd_ptr sb g) ((gdesc sb g)\<lparr>bg_free_inodes_count := n, bg_used_dirs_count := u\<rparr>) sb"
  have e: "?sb' = sb\<lparr>s_es := (s_es sb)\<lparr>s_free_inodes_count := k\<rparr>, s_group_desc := s_group_desc ?w,
      s_gd_dirty := insert (fst p) (s_gd_dirty sb), s_dirt := True, s_dircount := c\<rparr>"
    by (simp add: gdp_write_def mark_buffer_dirty_def)
  have d: "gdesc ?sb' h = gdesc ?w h" for h by (simp add: gdp_write_dircount)
  have l: "gds_loaded ?sb' = gds_loaded ?w" by (simp add: gdp_write_dircount)
  have gd: "gdesc ?sb' h = (gdesc sb h)\<lparr>bg_free_inodes_count := if h = g then n else bg_free_inodes_count (gdesc sb h),
      bg_used_dirs_count := if h = g then u else bg_used_dirs_count (gdesc sb h)\<rparr>"
    if "h < s_groups_count sb" for h using gdt.get_put [OF assms that] unfolding d by simp
  show ?thesis unfolding only_inode_counts_def
  proof (intro conjI impI)
    show "\<exists>n ds D d c. ?sb' = sb\<lparr>s_es := (s_es sb)\<lparr>s_free_inodes_count := n\<rparr>, s_group_desc := ds,
        s_gd_dirty := D, s_dirt := d, s_dircount := c\<rparr>" using e by blast
    show "gds_loaded ?sb'" using gdt.ok_put [OF assms] l by simp
    show "\<forall>h < s_groups_count sb. \<exists>n u. gdesc ?sb' h = (gdesc sb h)\<lparr>bg_free_inodes_count := n, bg_used_dirs_count := u\<rparr>"
      using gd by blast
  qed
qed


lemma ino_no_inv:
  assumes "j < e2fs_ipg sb"
  shows "ino_to_cg sb (ino_no sb g j) = g" "ino_bit sb (ino_no sb g j) = j"
  using assms by (simp_all add: ino_to_cg_def ino_bit_def ino_no_def)

lemma ino_no_split:
  assumes "1 \<le> x"
  shows "ino_no sb (ino_to_cg sb x) (ino_bit sb x) = x"
  using assms by (simp add: ino_to_cg_def ino_bit_def ino_no_def)

lemma igeometry_bounds:
  assumes "igeometry_ok sb" "1 \<le> x" "x \<le> inodes_count sb"
  shows "ino_to_cg sb x < s_groups_count sb" "ino_bit sb x < e2fs_ipg sb"
proof -
  have "x - 1 < s_groups_count sb * e2fs_ipg sb" using assms unfolding igeometry_ok_def by linarith
  then show "ino_to_cg sb x < s_groups_count sb" unfolding ino_to_cg_def by (rule less_mult_imp_div_less)
  show "ino_bit sb x < e2fs_ipg sb" using assms(1) by (simp add: ino_bit_def igeometry_ok_def)
qed

lemma ino_no_bound:
  assumes "igeometry_ok sb" "g < s_groups_count sb" "j < e2fs_ipg sb"
  shows "ino_no sb g j \<le> inodes_count sb"
proof -
  have "g * e2fs_ipg sb + j + 1 \<le> Suc g * e2fs_ipg sb" using assms(3) by simp
  also have "\<dots> \<le> s_groups_count sb * e2fs_ipg sb" using assms(2) by (intro mult_right_mono) auto
  finally show ?thesis using assms(1) by (simp add: ino_no_def igeometry_ok_def)
qed

lemma inode_used_update:
  assumes "ialloc_wf m" "only_inode_counts (um_e2fs m) sb'" "g < s_groups_count (um_e2fs m)"
    "1 \<le> x" "x \<le> inodes_count (um_e2fs m)"
  shows "inode_used (m\<lparr>um_e2fs := sb', um_devvp := buf_write (ibitmap_addr (um_e2fs m) g, data) (um_devvp m)\<rparr>) x =
         bm_bit (if ino_to_cg (um_e2fs m) x = g then data else ibm m (ino_to_cg (um_e2fs m) x)) (ino_bit (um_e2fs m) x)"
proof -
  have io: "ibitmaps_ok m" and ig: "igeometry_ok (um_e2fs m)" using assms(1) by (simp_all add: ialloc_wf_def)
  have "ino_to_cg (um_e2fs m) x < s_groups_count (um_e2fs m)" using igeometry_bounds [OF ig assms(4,5)] by blast
  from ibm_update [OF io assms(2,3) this, of data] show ?thesis
    using only_inode_countsD(7,8) [OF assms(2)] by (simp add: inode_used_def)
qed

lemma inode_same_bit:
  assumes "1 \<le> x" "j < e2fs_ipg sb"
  shows "x = ino_no sb g j \<longleftrightarrow> ino_to_cg sb x = g \<and> ino_bit sb x = j"
  using assms ino_no_split [OF assms(1), of sb] ino_no_inv [OF assms(2), of g] by auto

lemma take_inode_eq:
  "take_inode (gd_ptr sb g) p isdir sb =
   (mark_buffer_dirty p (gdp_write (gd_ptr sb g)
     ((gdesc sb g)\<lparr>bg_free_inodes_count := bg_free_inodes_count (gdesc sb g) - 1,
        bg_used_dirs_count := bg_used_dirs_count (gdesc sb g) + (if isdir then 1 else 0)\<rparr>)
     (sb\<lparr>s_dircount := s_dircount sb + (if isdir then 1 else 0)\<rparr>)))
     \<lparr>s_es := (s_es sb)\<lparr>s_free_inodes_count := s_free_inodes_count (s_es sb) - 1\<rparr>, s_dirt := True\<rparr>"
  by (simp add: take_inode_def Let_def gdesc_def gdp_read_def)

lemma give_inode_eq:
  "(give_inode (gd_ptr sb g) isdir sb)\<lparr>s_dirt := True\<rparr> =
   (mark_buffer_dirty (gd_ptr sb g) (gdp_write (gd_ptr sb g)
     ((gdesc sb g)\<lparr>bg_free_inodes_count := bg_free_inodes_count (gdesc sb g) + 1,
        bg_used_dirs_count := bg_used_dirs_count (gdesc sb g) - (if isdir then 1 else 0)\<rparr>)
     (sb\<lparr>s_dircount := s_dircount sb - (if isdir then 1 else 0)\<rparr>)))
     \<lparr>s_es := (s_es sb)\<lparr>s_free_inodes_count := s_free_inodes_count (s_es sb) + 1\<rparr>, s_dirt := True\<rparr>"
  by (simp add: give_inode_def Let_def gdesc_def gdp_read_def)

text \<open>The fields of the super block after such a write.\<close>

lemma inode_write_fields:
  fixes sb g p n u c k
  defines "sb' \<equiv> (mark_buffer_dirty p (gdp_write (gd_ptr sb g)
     ((gdesc sb g)\<lparr>bg_free_inodes_count := n, bg_used_dirs_count := u\<rparr>) (sb\<lparr>s_dircount := c\<rparr>)))
     \<lparr>s_es := (s_es sb)\<lparr>s_free_inodes_count := k\<rparr>, s_dirt := True\<rparr>"
  assumes "gds_loaded sb" "g < s_groups_count sb"
  shows "h < s_groups_count sb \<Longrightarrow> bg_free_inodes_count (gdesc sb' h) = (if h = g then n else bg_free_inodes_count (gdesc sb h))"
    "h < s_groups_count sb \<Longrightarrow> bg_used_dirs_count (gdesc sb' h) = (if h = g then u else bg_used_dirs_count (gdesc sb h))"
    "s_dircount sb' = c" "s_free_inodes_count (s_es sb') = k" "s_gd_dirty sb' = insert (fst p) (s_gd_dirty sb)"
  using gdt.get_put [OF assms(2,3)]
  by (simp_all add: sb'_def gdp_write_dircount) (simp_all add: mark_buffer_dirty_def gdp_write_def)


lemma take_inode_fields:
  assumes "gds_loaded sb" "g < s_groups_count sb"
  shows "only_inode_counts sb (take_inode (gd_ptr sb g) p isdir sb)"
    "h < s_groups_count sb \<Longrightarrow> bg_free_inodes_count (gdesc (take_inode (gd_ptr sb g) p isdir sb) h) =
       (if h = g then bg_free_inodes_count (gdesc sb g) - 1 else bg_free_inodes_count (gdesc sb h))"
    "h < s_groups_count sb \<Longrightarrow> bg_used_dirs_count (gdesc (take_inode (gd_ptr sb g) p isdir sb) h) =
       (if h = g then bg_used_dirs_count (gdesc sb g) + (if isdir then 1 else 0) else bg_used_dirs_count (gdesc sb h))"
    "s_dircount (take_inode (gd_ptr sb g) p isdir sb) = s_dircount sb + (if isdir then 1 else 0)"
    "s_free_inodes_count (s_es (take_inode (gd_ptr sb g) p isdir sb)) = s_free_inodes_count (s_es sb) - 1"
    "s_gd_dirty (take_inode (gd_ptr sb g) p isdir sb) = insert (fst p) (s_gd_dirty sb)"
  unfolding take_inode_eq by (rule only_inode_counts_write [OF assms] inode_write_fields [OF assms] | assumption)+

lemma give_inode_fields:
  assumes "gds_loaded sb" "g < s_groups_count sb"
  shows "only_inode_counts sb ((give_inode (gd_ptr sb g) isdir sb)\<lparr>s_dirt := True\<rparr>)"
    "h < s_groups_count sb \<Longrightarrow> bg_free_inodes_count (gdesc ((give_inode (gd_ptr sb g) isdir sb)\<lparr>s_dirt := True\<rparr>) h) =
       (if h = g then bg_free_inodes_count (gdesc sb g) + 1 else bg_free_inodes_count (gdesc sb h))"
    "h < s_groups_count sb \<Longrightarrow> bg_used_dirs_count (gdesc ((give_inode (gd_ptr sb g) isdir sb)\<lparr>s_dirt := True\<rparr>) h) =
       (if h = g then bg_used_dirs_count (gdesc sb g) - (if isdir then 1 else 0) else bg_used_dirs_count (gdesc sb h))"
    "s_dircount ((give_inode (gd_ptr sb g) isdir sb)\<lparr>s_dirt := True\<rparr>) = s_dircount sb - (if isdir then 1 else 0)"
    "s_free_inodes_count (s_es ((give_inode (gd_ptr sb g) isdir sb)\<lparr>s_dirt := True\<rparr>)) = s_free_inodes_count (s_es sb) + 1"
  unfolding give_inode_eq by (rule only_inode_counts_write [OF assms] inode_write_fields [OF assms] | assumption)+

lemma ifree_le_total:
  assumes "ialloc_wf m" "g < s_groups_count (um_e2fs m)"
  shows "ifree_of (um_e2fs m) g \<le> ifree (um_e2fs m)"
  using assms member_le_sum [of g "{..< s_groups_count (um_e2fs m)}" "ifree_of (um_e2fs m)"]
  by (simp add: ialloc_wf_def icounts_ok_def Let_def)

lemma commit_inode:
  fixes p :: gdptr and isdir :: bool
  assumes wf: "ialloc_wf m" and g: "g < s_groups_count (um_e2fs m)"
    and j: "j < e2fs_ipg (um_e2fs m)" "\<not> bm_bit (ibm m g) j"
  defines "m' \<equiv> m\<lparr>um_e2fs := take_inode (gd_ptr (um_e2fs m) g) p isdir (um_e2fs m),
      um_devvp := buf_write (ibitmap_addr (um_e2fs m) g, snd (ext2_set_bit j (ibm m g))) (um_devvp m)\<rparr>"
  shows "ialloc_wf m'" "allocated_inode m (ino_no (um_e2fs m) g j) isdir m'"
    "s_gd_dirty (um_e2fs m') = insert (fst p) (s_gd_dirty (um_e2fs m))"
proof -
  let ?sb = "um_e2fs m" and ?d = "snd (ext2_set_bit j (ibm m g))" let ?sb' = "take_inode (gd_ptr ?sb g) p isdir ?sb"
  have gl: "gds_loaded ?sb" and ig: "igeometry_ok ?sb" and ru: "ireserved_used m" and co: "icounts_ok m"
    using wf by (simp_all add: ialloc_wf_def)
  have len: "e2fs_ipg ?sb \<le> 8 * length (ibm m g)"
    using wf g by (simp add: ialloc_wf_def igeometry_ok_def ibitmaps_ok_def Let_def)
  have oc: "only_inode_counts ?sb ?sb'" by (rule take_inode_fields [OF gl g])
  have cz: "count_zeros (bm_bit (ibm m g)) (e2fs_ipg ?sb) = Suc (count_zeros (bm_bit ?d) (e2fs_ipg ?sb))"
    using bm.zeros_ins [OF j(1) len j(2)] .
  then have fg: "ifree_of ?sb g = Suc (count_zeros (bm_bit ?d) (e2fs_ipg ?sb))"
    using co g by (simp add: icounts_ok_def Let_def)
  have f1: "ifree_of ?sb' g + 1 = ifree_of ?sb g"
    using g fg unat_minus_of_nat [of 1 "bg_free_inodes_count (gdesc ?sb g)"]
    by (simp add: take_inode_fields [OF gl g])
  have f2: "ifree_of ?sb' h = ifree_of ?sb h" if "h < s_groups_count ?sb" "h \<noteq> g" for h
    using that by (simp add: take_inode_fields [OF gl g])
  have f3: "ifree ?sb' + 1 = ifree ?sb"
    using ifree_le_total [OF wf g] fg unat_minus_of_nat [of 1 "s_free_inodes_count (s_es ?sb)"]
    by (simp add: take_inode_fields [OF gl g])
  have bit: "bm_bit ?d i \<longleftrightarrow> i = j \<or> bm_bit (ibm m g) i" if "i < e2fs_ipg ?sb" for i
    using bm.tst_ins [of j "ibm m g" i] that j(1) len by simp
  show wf': "ialloc_wf m'" unfolding m'_def
    using iwf_update [OF wf oc g, of ?d] bit fg f1 f2 f3 by simp
  have r: "11 \<le> ino_no ?sb g j" using ru g j by (force simp: ireserved_used_def)
  have used: "inode_used m' x \<longleftrightarrow> inode_used m x \<or> x = ino_no ?sb g j" if x: "1 \<le> x" "x \<le> inodes_count ?sb" for x
    using inode_used_update [OF wf oc g x, of ?d] bit [OF igeometry_bounds(2) [OF ig x]] inode_same_bit [OF x(1) j(1)]
    by (auto simp: m'_def inode_used_def)
  have "\<not> inode_used m (ino_no ?sb g j)" using j ino_no_inv [OF j(1), of g] by (simp add: inode_used_def)
  then show "allocated_inode m (ino_no ?sb g j) isdir m'"
    using r ino_no_bound [OF ig g j(1)] used f3 inodes_frame_write [OF oc g] ino_no_inv(1) [OF j(1), of g]
    unfolding allocated_inode_def Let_def m'_def by (simp add: take_inode_fields [OF gl g])
  show "s_gd_dirty (um_e2fs m') = insert (fst p) (s_gd_dirty ?sb)"
    unfolding m'_def by (simp add: take_inode_fields [OF gl g])
qed

lemma take_bit_ok:
  assumes wf: "ialloc_wf m" and g: "g < s_groups_count (um_e2fs m)" "0 < ifree_of (um_e2fs m) g"
  shows "\<exists>ino m'. ni_take_bit m mode g (gd_ptr (um_e2fs m) g) bp2 (ibitmap_addr (um_e2fs m) g, ibm m g) = Ni_return ino m' \<and>
     ialloc_wf m' \<and> allocated_inode m ino (S_ISDIR mode) m' \<and> ino_to_cg (um_e2fs m) ino = g \<and>
     s_gd_dirty (um_e2fs m') = insert (fst bp2) (s_gd_dirty (um_e2fs m))"
proof -
  let ?sb = "um_e2fs m" let ?j = "first_zero (ibm m g) 0 (e2fs_ipg ?sb)"
  have ig: "igeometry_ok ?sb" using wf by (simp add: ialloc_wf_def)
  have "\<exists>i < e2fs_ipg ?sb. \<not> bm_bit (ibm m g) i"
    using wf g by (simp add: ialloc_wf_def icounts_ok_def Let_def count_zeros_pos)
  then have j: "?j < e2fs_ipg ?sb" using first_zero_below [of 0 _ "ibm m g" "e2fs_ipg ?sb"]
    by (meson le0 le_less_linear less_le_trans)
  then have jz: "\<not> bm_bit (ibm m g) ?j" by (intro first_zero_is_zero) simp_all
  have f: "ext2_find_first_zero_bit (ibm m g) (e2fs_ipg ?sb) = ?j"
    using find_first_zero_bit_at_first_zero [of 0 "ibm m g" "e2fs_ipg ?sb"] by (simp add: ext2_find_first_zero_bit_def)
  have small: "e2fs_ipg ?sb < 2 ^ 31" using ig by (simp add: igeometry_ok_def)
  note fz = first_zero_int32 [of 0 "e2fs_ipg ?sb" "ibm m g", OF _ small]
  let ?ino = "ino_no ?sb g ?j"
  note c = commit_inode [OF wf g(1) j jz, where p = bp2 and isdir = "S_ISDIR mode"]
  have b: "11 \<le> ?ino" "?ino \<le> inodes_count ?sb" using c(2) by (simp_all add: allocated_inode_def Let_def)
  then have i31: "int ?ino < 2 ^ 31" using ig unfolding igeometry_ok_def by simp
  have ie: "int ?j + int (g * e2fs_ipg ?sb) + 1 = int ?ino" by (simp add: ino_no_def)
  have i32: "int32 (int ?j + int (g * e2fs_ipg ?sb) + 1) = int ?ino"
    unfolding ie using i31 by (intro int32_id) simp_all
  have u32: "uint32 (int ?ino) = ?ino" using i31 by (intro uint32_id) simp
  have "ni_take_bit m mode g (gd_ptr ?sb g) bp2 (ibitmap_addr ?sb g, ibm m g) = Ni_return ?ino
      (m\<lparr>um_e2fs := take_inode (gd_ptr ?sb g) bp2 (S_ISDIR mode) ?sb,
        um_devvp := buf_write (ibitmap_addr ?sb g, snd (ext2_set_bit ?j (ibm m g))) (um_devvp m)\<rparr>)"
    using f fz j jz b u32 i32 set_bit_old [of ?j "ibm m g"]
    unfolding ni_take_bit_def Let_def by (simp add: split_def)
  then show ?thesis using c ino_no_inv(1) [OF j] by blast
qed


lemma new_inode_ok:
  assumes wf: "ialloc_wf m" and d: "i_block_group dir < s_groups_count (um_e2fs m)" and f: "0 < ifree (um_e2fs m)"
  shows "\<exists>ino m' i bp2. ext2_new_inode m dir mode = Some (Return (ino, m')) \<and> ialloc_wf m' \<and>
     allocated_inode m ino (S_ISDIR mode) m' \<and>
     ni_group (um_e2fs m) dir mode = Return (Some (i, gd_ptr (um_e2fs m) i), Some bp2) \<and>
     ino_to_cg (um_e2fs m) ino = i \<and>
     s_gd_dirty (um_e2fs m') = insert (fst bp2) (s_gd_dirty (um_e2fs m))"
proof -
  let ?sb = "um_e2fs m"
  have "group_found ?sb (ni_group ?sb dir mode)"
    using dir_group_found [OF wf f, of mode dir] file_group_found [OF wf f d]
    by (cases "S_ISDIR mode") (simp_all add: ni_group_def)
  then obtain i bp2 where i: "i < s_groups_count ?sb" "0 < ifree_of ?sb i"
    "ni_group ?sb dir mode = Return (Some (i, gd_ptr ?sb i), Some bp2)" by (auto simp: group_found_def)
  obtain ino m' where t: "ni_take_bit m mode i (gd_ptr ?sb i) bp2 (ibitmap_addr ?sb i, ibm m i) = Ni_return ino m'"
    "ialloc_wf m'" "allocated_inode m ino (S_ISDIR mode) m'" "ino_to_cg ?sb ino = i"
    "s_gd_dirty (um_e2fs m') = insert (fst bp2) (s_gd_dirty ?sb)"
    using take_bit_ok [OF wf i(1,2), of mode bp2] by blast
  have "ni_pass m dir mode = Return (Ni_return ino m')"
    using i(3) t(1) load_inode_bitmap_wf [OF wf i(1)] by (simp add: ni_pass_def)
  then have "ext2_new_inode m dir mode = Some (Return (ino, m'))" by (subst ext2_new_inode.simps) simp
  then show ?thesis using t i(3) by blast
qed

lemma new_inode_none:
  assumes wf: "ialloc_wf m" and d: "i_block_group dir < s_groups_count (um_e2fs m)" and f: "ifree (um_e2fs m) = 0"
  shows "ext2_new_inode m dir mode = Some (Return (0, m))"
proof -
  let ?sb = "um_e2fs m"
  have gl: "gds_loaded ?sb" and N: "0 < s_groups_count ?sb"
    using wf by (simp_all add: ialloc_wf_def igeometry_ok_def)
  have z: "ifree_of ?sb g = 0" if "g < s_groups_count ?sb" for g using ifree_le_total [OF wf that] f by simp
  then have no: "\<not> group_found ?sb r" for r by (auto simp: group_found_def)
  have "\<exists>bp. ni_group ?sb dir mode = Return (None, bp)"
  proof (cases "S_ISDIR mode")
    case True
    let ?av = "ifree ?sb div s_groups_count ?sb"
    obtain b bp where "ni_dir_scan (s_groups_count ?sb) ?sb ?av 0 None None = Return (b, bp)"
        "best_ok ?sb ?av (s_groups_count ?sb) b"
      using dir_scan_ok [OF gl, of 0 "s_groups_count ?sb" ?av None None] by (auto simp: best_ok_def [of ?sb ?av 0])
    then show ?thesis using True N z
      by (auto simp: ni_group_def best_ok_def dir_eligible_def split: option.splits)
  next
    case False
    have gp: "get_group_desc ?sb (i_block_group dir) = Return (gd_ptr ?sb (i_block_group dir))"
      using gl d by (rule get_group_desc_loaded)
    obtain bp where q: "ni_quad ?sb 0 (i_block_group dir) (Some (gd_ptr ?sb (i_block_group dir))) = Return (None, bp)"
      using quad_found [OF gl d] no by blast
    obtain bp' where "ni_linear (s_groups_count ?sb) ?sb (i_block_group dir) bp = Return (None, bp')"
      using linear_found [OF gl d, of "s_groups_count ?sb" bp] no [of "ni_linear (s_groups_count ?sb) ?sb (i_block_group dir) bp"]
      by (elim disjE exE conjE) simp_all
    then show ?thesis using False gp q z [OF d]
      by (simp add: ni_group_def ni_file_group_def gdesc_def unat_eq_0)
  qed
  then have "ni_pass m dir mode = Return (Ni_return 0 m)" by (auto simp: ni_pass_def)
  then show ?thesis by (subst ext2_new_inode.simps) simp
qed

lemma give_inode_counts:
  fixes isdir :: bool
  assumes wf: "ialloc_wf m" and g: "g < s_groups_count (um_e2fs m)"
    and j: "j < e2fs_ipg (um_e2fs m)" and jb: "bm_bit (ibm m g) j"
  defines "sb' \<equiv> (give_inode (gd_ptr (um_e2fs m) g) isdir (um_e2fs m))\<lparr>s_dirt := True\<rparr>"
  shows "count_zeros (bm_bit (snd (ext2_clear_bit j (ibm m g)))) (e2fs_ipg (um_e2fs m)) = Suc (ifree_of (um_e2fs m) g)"
    "ifree_of sb' g = Suc (ifree_of (um_e2fs m) g)"
    "h < s_groups_count (um_e2fs m) \<Longrightarrow> h \<noteq> g \<Longrightarrow> ifree_of sb' h = ifree_of (um_e2fs m) h"
    "ifree sb' = Suc (ifree (um_e2fs m))"
proof -
  let ?sb = "um_e2fs m" and ?d = "snd (ext2_clear_bit j (ibm m g))"
  have gl: "gds_loaded ?sb" and ig: "igeometry_ok ?sb" and co: "icounts_ok m"
    using wf by (simp_all add: ialloc_wf_def)
  have len: "e2fs_ipg ?sb \<le> 8 * length (ibm m g)"
    using wf g by (simp add: ialloc_wf_def igeometry_ok_def ibitmaps_ok_def Let_def)
  note F = give_inode_fields [OF gl g, where isdir = isdir, folded sb'_def]
  have cz: "count_zeros (bm_bit ?d) (e2fs_ipg ?sb) = Suc (count_zeros (bm_bit (ibm m g)) (e2fs_ipg ?sb))"
    by (rule bm.zeros_del [OF j len jb])
  then show fg: "count_zeros (bm_bit ?d) (e2fs_ipg ?sb) = Suc (ifree_of ?sb g)"
    using co g by (simp add: icounts_ok_def Let_def)
  have "Suc (ifree_of ?sb g) < 2 ^ 16"
    using count_zeros_le [of "bm_bit ?d" "e2fs_ipg ?sb"] fg ig by (simp add: igeometry_ok_def)
  then show f1: "ifree_of sb' g = Suc (ifree_of ?sb g)"
    using g unat_plus_of_nat [of "bg_free_inodes_count (gdesc ?sb g)" 1] by (simp add: F)
  show "h < s_groups_count ?sb \<Longrightarrow> h \<noteq> g \<Longrightarrow> ifree_of sb' h = ifree_of ?sb h" by (simp add: F)
  have "ifree_of ?sb h \<le> e2fs_ipg ?sb" if "h < s_groups_count ?sb" for h
    using co that count_zeros_le by (simp add: icounts_ok_def Let_def)
  then have "ifree ?sb \<le> inodes_count ?sb"
    using sum_bounded_above [of "{..<s_groups_count ?sb}" "ifree_of ?sb" "e2fs_ipg ?sb"] co ig
    by (simp add: icounts_ok_def igeometry_ok_def Let_def)
  then show "ifree sb' = Suc (ifree ?sb)"
    using unat_plus_of_nat [of "s_free_inodes_count (s_es ?sb)" 1] ig by (simp add: F igeometry_ok_def)
qed

lemma free_inode_ok:
  assumes wf: "ialloc_wf m" and n: "i_nlink ip = 0" "11 \<le> i_number ip" "i_number ip \<le> inodes_count (um_e2fs m)"
    and u: "inode_used m (i_number ip)"
  shows "\<exists>m'. ext2_free_inode m ip = Return m' \<and> ialloc_wf m' \<and> freed_inode m (i_number ip) (S_ISDIR (i_mode ip)) m'"
proof -
  let ?sb = "um_e2fs m" let ?g = "ino_to_cg ?sb (i_number ip)" and ?j = "ino_bit ?sb (i_number ip)"
  let ?d = "snd (ext2_clear_bit ?j (ibm m ?g))"
  define sb' where "sb' = (give_inode (gd_ptr ?sb ?g) (S_ISDIR (i_mode ip)) ?sb)\<lparr>s_dirt := True\<rparr>"
  let ?m' = "m\<lparr>um_e2fs := sb', um_devvp := buf_write (ibitmap_addr ?sb ?g, ?d) (um_devvp m)\<rparr>"
  have gl: "gds_loaded ?sb" and ig: "igeometry_ok ?sb" and co: "icounts_ok m"
    using wf by (simp_all add: ialloc_wf_def)
  have n1: "1 \<le> i_number ip" using n(2) by simp
  have g: "?g < s_groups_count ?sb" and j: "?j < e2fs_ipg ?sb" using igeometry_bounds [OF ig n1 n(3)] .
  have jb: "bm_bit (ibm m ?g) ?j" using u by (simp add: inode_used_def)
  have len: "e2fs_ipg ?sb \<le> 8 * length (ibm m ?g)"
    using wf g by (simp add: ialloc_wf_def igeometry_ok_def ibitmaps_ok_def Let_def)
  note F = give_inode_fields [OF gl g, where isdir = "S_ISDIR (i_mode ip)", folded sb'_def]
  have eq: "ext2_free_inode m ip = Return ?m'"
    using n load_inode_bitmap_wf [OF wf g] get_group_desc_loaded [OF gl g] jb clear_bit_old [of ?j "ibm m ?g"]
    unfolding ext2_free_inode_def Let_def ino_to_cg_def [symmetric] ino_bit_def [symmetric]
    by (simp add: split_def sb'_def)
  note cnt = give_inode_counts(1) [OF wf g j jb] give_inode_counts(2-4) [OF wf g j jb, where isdir = "S_ISDIR (i_mode ip)", folded sb'_def]
  have bit: "bm_bit ?d i \<longleftrightarrow> i \<noteq> ?j \<and> bm_bit (ibm m ?g) i" if "i < e2fs_ipg ?sb" for i
    using bm.tst_del [of ?j "ibm m ?g" i] that j len by simp
  have oc: "only_inode_counts ?sb sb'" by (rule F(1))
  have "ialloc_wf ?m'"
    using iwf_update [OF wf oc g, of ?d] bit cnt ino_no_split [OF n1, of ?sb] n(2) by simp
  moreover have "inode_used ?m' x \<longleftrightarrow> inode_used m x \<and> x \<noteq> i_number ip" if x: "1 \<le> x" "x \<le> inodes_count ?sb" for x
    using inode_used_update [OF wf oc g x, of ?d] bit [OF igeometry_bounds(2) [OF ig x]]
      inode_same_bit [OF x(1) j, of ?g] ino_no_split [OF n1, of ?sb]
    by (auto simp: inode_used_def)
  then have "freed_inode m (i_number ip) (S_ISDIR (i_mode ip)) ?m'"
    using cnt(4) inodes_frame_write [OF oc g] unfolding freed_inode_def Let_def by (simp add: F)
  ultimately show ?thesis using eq by blast
qed

section \<open>The allocator meets its contract\<close>

interpretation inodes: resource_allocator ialloc_wf free_inodes inode_take inode_give
proof
  fix m A m'
  assume wf: "ialloc_wf m"
  show "ialloc_wf m' \<and> A \<subseteq> free_inodes m \<and> free_inodes m' = free_inodes m - A" if t: "inode_take m A m'"
  proof -
    obtain dir mode ino where i: "i_block_group dir < s_groups_count (um_e2fs m)"
      "ext2_new_inode m dir mode = Some (Return (ino, m'))" "0 < ino" "A = {ino}" using t by (auto simp: inode_take_def)
    have "0 < ifree (um_e2fs m)"
      using new_inode_none [OF wf i(1), of mode] i(2,3) by (cases "ifree (um_e2fs m) = 0") auto
    then have a: "ialloc_wf m'" "allocated_inode m ino (S_ISDIR mode) m'"
      using new_inode_ok [OF wf i(1), of mode] i(2) by auto
    have "inodes_count (um_e2fs m') = inodes_count (um_e2fs m)"
      using a(2) only_inode_countsD(4) by (auto simp: allocated_inode_def inodes_frame_def Let_def)
    then show ?thesis using a i(4) by (auto simp: allocated_inode_def free_inodes_def Let_def)
  qed
  show "ialloc_wf m' \<and> free_inodes m' = free_inodes m \<union> A" if t: "inode_give m A m'"
  proof -
    obtain ip where i: "i_nlink ip = 0" "11 \<le> i_number ip" "i_number ip \<le> inodes_count (um_e2fs m)"
      "inode_used m (i_number ip)" "ext2_free_inode m ip = Return m'" "A = {i_number ip}" using t by (auto simp: inode_give_def)
    then have a: "ialloc_wf m'" "freed_inode m (i_number ip) (S_ISDIR (i_mode ip)) m'"
      using free_inode_ok [OF wf i(1-4)] by auto
    have "inodes_count (um_e2fs m') = inodes_count (um_e2fs m)"
      using a(2) only_inode_countsD(4) by (auto simp: freed_inode_def inodes_frame_def Let_def)
    then show ?thesis using a i by (auto simp: freed_inode_def free_inodes_def Let_def)
  qed
qed

section \<open>The two allocators do not disturb each other\<close>

lemma inodes_frame_blocks:
  assumes "fs_wf m" "inodes_frame m m'"
  shows "balloc_wf m'"
    and "first_data_block (um_e2fs m) \<le> x \<Longrightarrow> x < blocks_count (um_e2fs m) \<Longrightarrow> block_used m' x = block_used m x"
proof -
  let ?sb = "um_e2fs m" and ?sb' = "um_e2fs m'"
  have oc: "only_inode_counts ?sb ?sb'" and er: "d_err (um_devvp m') = d_err (um_devvp m)"
    using assms(2) by (simp_all add: inodes_frame_def)
  note D = only_inode_countsD [OF oc]
  have wf: "balloc_wf m" using assms(1) by (simp add: fs_wf_def)
  have sl: "same_layout ?sb ?sb'" by (rule D(10))
  note L = same_layoutD [OF sl]
  have N: "e2fs_bpg ?sb' = e2fs_bpg ?sb" "blocks_count ?sb' = blocks_count ?sb" using sl by (simp_all add: same_layout_def)
  have bm: "bbm m' g = bbm m g" if "g < s_groups_count ?sb" for g
    using assms that L(1) [OF that] by (simp add: bbm_def fs_wf_def inodes_frame_def)
  have "bitmaps_ok m'"
    using wf by (simp add: balloc_wf_def bitmaps_ok_def Let_def D(1,3) L(1) bm er)
  moreover have "reserved_used m'"
    using wf by (simp add: balloc_wf_def reserved_used_def Let_def D(1) N L(2,3) bm)
  moreover have "counts_ok m'"
    using wf by (simp add: balloc_wf_def counts_ok_def Let_def D(1,11,12) N bm)
  ultimately show "balloc_wf m'" using wf sl by (simp add: balloc_wf_def L(6,7) same_layout_def)
  have "geometry_ok ?sb" using wf by (simp add: balloc_wf_def)
  then show "first_data_block ?sb \<le> x \<Longrightarrow> x < blocks_count ?sb \<Longrightarrow> block_used m' x = block_used m x"
    using geometry_dtog(1) bm by (simp add: block_used_def L(4,5))
qed

lemma blocks_frame_inodes:
  assumes "fs_wf m" "blocks_frame m m'" "same_layout (um_e2fs m) (um_e2fs m')"
  shows "ialloc_wf m'" and "g < s_groups_count (um_e2fs m) \<Longrightarrow> ibm m' g = ibm m g"
    "g < s_groups_count (um_e2fs m) \<Longrightarrow> ibitmap_addr (um_e2fs m') g = ibitmap_addr (um_e2fs m) g"
proof -
  let ?sb = "um_e2fs m" and ?sb' = "um_e2fs m'"
  have oc: "only_free_counts ?sb ?sb'" and er: "d_err (um_devvp m') = d_err (um_devvp m)"
    using assms(2) by (simp_all add: blocks_frame_def)
  then obtain n ds D d where e: "?sb' = ?sb\<lparr>s_es := (s_es ?sb)\<lparr>s_free_blocks_count := n\<rparr>, s_group_desc := ds,
        s_gd_dirty := D, s_dirt := d\<rparr>" by (auto simp: only_free_counts_def)
  have S: "s_groups_count ?sb' = s_groups_count ?sb" "e2fs_ipg ?sb' = e2fs_ipg ?sb" "s_blocksize ?sb' = s_blocksize ?sb"
    "igeometry_ok ?sb' = igeometry_ok ?sb" "ino_no ?sb' = ino_no ?sb" "ifree ?sb' = ifree ?sb" "s_fsbtodb ?sb' = s_fsbtodb ?sb"
    unfolding e by (simp_all add: igeometry_ok_def ino_no_def [abs_def])
  have "\<forall>g < s_groups_count ?sb. \<exists>n. gdesc ?sb' g = (gdesc ?sb g)\<lparr>bg_free_blocks_count := n\<rparr>"
    using oc by (simp add: only_free_counts_def)
  then have G: "bg_inode_bitmap (gdesc ?sb' g) = bg_inode_bitmap (gdesc ?sb g)" "ifree_of ?sb' g = ifree_of ?sb g"
    if "g < s_groups_count ?sb" for g using that by fastforce+
  have A: "ibitmap_addr ?sb' g = ibitmap_addr ?sb g" if "g < s_groups_count ?sb" for g
    using G that by (simp add: ibitmap_addr_def fsbtodb_def S)
  then show "g < s_groups_count ?sb \<Longrightarrow> ibitmap_addr ?sb' g = ibitmap_addr ?sb g" .
  have bm: "ibm m' g = ibm m g" if "g < s_groups_count ?sb" for g
    using assms(1,2) that A [OF that] unfolding ibm_def fs_wf_def blocks_frame_def by metis
  then show "g < s_groups_count ?sb \<Longrightarrow> ibm m' g = ibm m g" .
  have wf: "ialloc_wf m" using assms(1) by (simp add: fs_wf_def)
  have "ibitmaps_ok m'" using wf by (simp add: ialloc_wf_def ibitmaps_ok_def Let_def S(1,3) A bm er)
  moreover have "ireserved_used m'" using wf by (simp add: ialloc_wf_def ireserved_used_def S(1,2,5) bm)
  moreover have "icounts_ok m'" using wf by (simp add: ialloc_wf_def icounts_ok_def Let_def S(1,2,6) G bm)
  ultimately show "ialloc_wf m'" using wf assms(3) by (simp add: ialloc_wf_def S(4) same_layout_def)
qed

lemma fs_wf_blocks:
  assumes "fs_wf m" "blocks_frame m m'" "same_layout (um_e2fs m) (um_e2fs m')" "balloc_wf m'"
  shows "fs_wf m'"
  using assms(1,4) blocks_frame_inodes [OF assms(1-3)] same_layoutD(1) [OF assms(3)] assms(3)
  by (simp add: fs_wf_def same_layout_def)

lemma fs_wf_inodes:
  assumes "fs_wf m" "inodes_frame m m'" "ialloc_wf m'"
  shows "fs_wf m'"
proof -
  have oc: "only_inode_counts (um_e2fs m) (um_e2fs m')" using assms(2) by (simp add: inodes_frame_def)
  show ?thesis using assms(1,3) inodes_frame_blocks(1) [OF assms(1,2)]
      only_inode_countsD(1,9) [OF oc] same_layoutD(1) [OF only_inode_countsD(10) [OF oc]]
    by (simp add: fs_wf_def)
qed

lemma free_inode_counted:
  assumes "ialloc_wf m" "1 \<le> ino" "ino \<le> inodes_count (um_e2fs m)" "\<not> inode_used m ino"
  shows "0 < ifree (um_e2fs m)"
proof -
  let ?sb = "um_e2fs m"
  have g: "ino_to_cg ?sb ino < s_groups_count ?sb" "ino_bit ?sb ino < e2fs_ipg ?sb"
    using igeometry_bounds [of ?sb ino] assms by (simp_all add: ialloc_wf_def)
  then have "0 < ifree_of ?sb (ino_to_cg ?sb ino)"
    using assms(1,4) by (auto simp: ialloc_wf_def icounts_ok_def Let_def count_zeros_pos inode_used_def)
  then show ?thesis using ifree_le_total [OF assms(1) g(1)] by simp
qed

lemma dir_group_best:
  assumes "ialloc_wf m" "S_ISDIR mode" "ni_group (um_e2fs m) dir mode = Return (best, Some bp2)"
  shows "best_ok (um_e2fs m) (ifree (um_e2fs m) div s_groups_count (um_e2fs m)) (s_groups_count (um_e2fs m)) best"
    and "bp2 = gd_ptr (um_e2fs m) (s_groups_count (um_e2fs m) - 1)"
proof -
  let ?sb = "um_e2fs m" let ?av = "ifree ?sb div s_groups_count ?sb"
  have gl: "gds_loaded ?sb" "0 < s_groups_count ?sb" using assms(1) by (simp_all add: ialloc_wf_def igeometry_ok_def)
  have s: "ni_dir_scan (s_groups_count ?sb) ?sb ?av 0 None None = Return (best, Some bp2)"
    using assms(2,3) gl(2) by (simp add: ni_group_def)
  show "best_ok ?sb ?av (s_groups_count ?sb) best" "bp2 = gd_ptr ?sb (s_groups_count ?sb - 1)"
    using dir_scan_ok [OF gl(1), of 0 "s_groups_count ?sb" ?av None None] gl(2) s
    by (auto simp: best_ok_def [of ?sb ?av 0])
qed

lemma inode_take_count:
  assumes "ialloc_wf m" "inode_take m A m'"
  shows "inodes_count (um_e2fs m') = inodes_count (um_e2fs m)"
proof -
  obtain dir mode ino where i: "i_block_group dir < s_groups_count (um_e2fs m)"
    "ext2_new_inode m dir mode = Some (Return (ino, m'))" "0 < ino" using assms(2) by (auto simp: inode_take_def)
  have "0 < ifree (um_e2fs m)"
    using new_inode_none [OF assms(1) i(1), of mode] i(2,3) by (cases "ifree (um_e2fs m) = 0") auto
  then have "allocated_inode m ino (S_ISDIR mode) m'" using new_inode_ok [OF assms(1) i(1), of mode] i(2) by auto
  then show ?thesis using only_inode_countsD(4) by (auto simp: allocated_inode_def inodes_frame_def Let_def)
qed

lemma new_block_keeps_fs_wf:
  assumes "fs_wf m"
  shows "\<exists>n pre m'. ext2_new_block m goal want = Some (Return (n, pre, m')) \<and> fs_wf m'"
proof (cases "s_free_blocks_count (s_es (um_e2fs m)) = 0")
  case True
  then show ?thesis using new_block_ok [of m goal want] assms by (auto simp: fs_wf_def)
next
  case False
  have wf: "balloc_wf m" using assms by (simp add: fs_wf_def)
  obtain n pre m' b c where r: "ext2_new_block m goal want = Some (Return (n, pre, m'))" "balloc_wf m'" "allocated m b c m'"
    using new_block_ok [OF wf, of goal want] unfolding if_not_P [OF False] by blast
  then have "fs_wf m'" using fs_wf_blocks [OF assms] by (auto simp: allocated_def Let_def)
  then show ?thesis using r(1) by blast
qed

lemma new_inode_keeps_fs_wf:
  assumes "fs_wf m" "i_block_group dir < s_groups_count (um_e2fs m)"
  shows "\<exists>ino m'. ext2_new_inode m dir mode = Some (Return (ino, m')) \<and> fs_wf m'"
proof -
  have wf: "ialloc_wf m" using assms by (simp add: fs_wf_def)
  show ?thesis
  proof (cases "ifree (um_e2fs m) = 0")
    case True
    then show ?thesis using new_inode_none [OF wf assms(2) True] assms(1) by simp
  next
    case False
    then obtain ino m' where "ext2_new_inode m dir mode = Some (Return (ino, m'))" "ialloc_wf m'"
      "allocated_inode m ino (S_ISDIR mode) m'" using new_inode_ok [OF wf assms(2), of mode] by auto
    then show ?thesis using fs_wf_inodes [OF assms(1)] by (auto simp: allocated_inode_def Let_def)
  qed
qed

end
