(* ===== verification/Ext2_Allocators.thy ===== *)
theory Ext2_Allocators
  imports Ext2_Ialloc
begin

text \<open>
  The properties of the block and the inode allocator, and a small file system at which
  they are instantiated. The lemmas they rest on are in the theories of the two
  components; this theory states what they give to the rest of the driver.
\<close>

section \<open>A small file system\<close>

text \<open>
  Two groups of 64 blocks and 16 inodes, each with its bitmaps and one block of inode
  table behind a free block; the first block is block 1. The concrete state at which the properties of the
  allocators are instantiated.
\<close>

definition tiny_gd0 :: ext2_group_desc where
  "tiny_gd0 = \<lparr>bg_block_bitmap = 2, bg_inode_bitmap = 3, bg_inode_table = 5,
     bg_free_blocks_count = 60, bg_free_inodes_count = 5, bg_used_dirs_count = 1\<rparr>"

definition tiny_gd1 :: ext2_group_desc where
  "tiny_gd1 = \<lparr>bg_block_bitmap = 66, bg_inode_bitmap = 67, bg_inode_table = 69,
     bg_free_blocks_count = 61, bg_free_inodes_count = 16, bg_used_dirs_count = 0\<rparr>"

definition tiny_es :: ext2fs where
  "tiny_es = \<lparr>s_inodes_count = 32, s_blocks_count = 129, s_r_blocks_count = 6, s_free_blocks_count = 121,
     s_free_inodes_count = 21, s_first_data_block = 1, s_log_block_size = 0, s_log_frag_size = 0,
     s_blocks_per_group = 64, s_frags_per_group = 64, s_inodes_per_group = 16, s_mtime = 0, s_mnt_count = 1,
     s_max_mnt_count = 20, s_magic = 0xEF53, s_state = 1,
     s_rev_level = 0, s_first_ino = 11, s_inode_size = 128, s_feature_incompat = 0,
     s_feature_ro_compat = 0, es_hash_seed = [0, 0, 0, 0], es_def_hash_version = 0, s_prealloc_blocks = 0\<rparr>"

definition tiny_sb :: m_ext2fs where
  "tiny_sb = \<lparr>e2fs_fsize = 32, e2fs_fpb = 1, e2fs_bpg = 64, e2fs_fpg = 64, e2fs_ipg = 16, e2fs_ipb = 16,
     e2fs_itpg = 1, e2fs_dbpg = 2, s_desc_per_block = 1, s_groups_count = 2, e2fs_isize = 128, s_es = tiny_es,
     s_group_desc = [Some [tiny_gd0], Some [tiny_gd1]], s_gd_dirty = {},
     s_loaded_inode_bitmaps = 0, s_loaded_block_bitmaps = 0,
     s_inode_bitmap_number = replicate 8 0, s_inode_bitmap = replicate 8 None,
     s_block_bitmap_number = replicate 8 0, s_block_bitmap = replicate 8 None,
     s_hash_seed = [0, 0, 0, 0], s_def_hash_version = 0, s_blocksize = 32, s_blocksize_bits = 5, s_bshift = 5,
     s_qbmask = 31, s_maxfilesize = 0x7FFFFFFF, s_fsbtodb = 1, s_rd_only = False, s_dirt = False, s_wasvalid = True,
     s_dircount = 1, s_d_blocksize = 512\<rparr>"

definition tiny_dev :: device where
  "tiny_dev = \<lparr>d_data = (\<lambda>_. replicate 32 0)(4 := 0x17 # replicate 31 0, 132 := 0x16 # replicate 31 0,
       6 := 0xFF # 0x07 # replicate 30 0),
     d_err = (\<lambda>_. False), d_addr = (\<lambda>_. 0xFFFFFF8012340000)\<rparr>"

definition tiny_mount :: ext2mount where
  "tiny_mount = \<lparr>um_e2fs = tiny_sb, um_devvp = tiny_dev, um_nindir = 8, um_bptrtodb = 1, um_seqinc = 1\<rparr>"

definition tiny_dir :: inode where
  "tiny_dir = \<lparr>i_flag = 0, i_number = 2, i_block_group = 0, i_next_alloc_block = 0, i_next_alloc_goal = 0,
     i_prealloc_block = 0, i_prealloc_count = 0, i_mode = 0x41ED, i_nlink = 2, i_size = 32, i_atime = 0, i_mtime = 0,
     i_ctime = 0, i_btime = 0, i_db = 9 # replicate 11 0, i_ib = replicate 3 0, i_flags = 0, i_blocks = 2, i_gen = 0,
     i_uid = 0, i_gid = 0, i_e2flags = 0\<rparr>"

definition tiny_gone :: inode where
  "tiny_gone = tiny_dir\<lparr>i_number := 11, i_nlink := 0\<rparr>"

text \<open>The small file system with a single free inode, number 16 in the first group.\<close>

definition full_mount :: ext2mount where
  "full_mount = tiny_mount\<lparr>um_e2fs := tiny_sb\<lparr>s_es := tiny_es\<lparr>s_free_inodes_count := 1\<rparr>,
       s_group_desc := [Some [tiny_gd0\<lparr>bg_free_inodes_count := 1\<rparr>], Some [tiny_gd1\<lparr>bg_free_inodes_count := 0\<rparr>]]\<rparr>,
     um_devvp := tiny_dev\<lparr>d_data := (d_data tiny_dev)(6 := 0xFF # 0x7F # replicate 30 0, 134 := 0xFF # 0xFF # replicate 30 0)\<rparr>\<rparr>"

section \<open>The small file system is well formed\<close>

lemmas tiny_defs = tiny_mount_def tiny_sb_def tiny_es_def tiny_dev_def tiny_gd0_def tiny_gd1_def

lemma tiny_geometry: "geometry_ok tiny_sb" by (simp add: geometry_ok_def tiny_defs)

lemma tiny_gdesc: "gdesc tiny_sb 0 = tiny_gd0" "gdesc tiny_sb (Suc 0) = tiny_gd1"
  by (simp_all add: gdesc_def gdp_read_def gd_ptr_def EXT2_DESC_PER_BLOCK_def tiny_sb_def)

lemma tiny_loaded: "gds_loaded tiny_sb"
  by (simp add: gds_loaded_def gd_ptr_def EXT2_DESC_PER_BLOCK_def tiny_sb_def all_less_2)

lemma tiny_addr: "bitmap_addr tiny_sb 0 = 4" "bitmap_addr tiny_sb (Suc 0) = 132" "ibitmap_addr tiny_sb 0 = 6" "ibitmap_addr tiny_sb (Suc 0) = 134"
  by (simp_all add: bitmap_addr_def ibitmap_addr_def tiny_gdesc fsbtodb_def int32_def) (simp_all add: tiny_defs)

lemma tiny_bitmaps: "bbm tiny_mount 0 = 0x17 # replicate 31 0" "bbm tiny_mount (Suc 0) = 0x16 # replicate 31 0"
   "ibm tiny_mount 0 = 0xFF # 0x07 # replicate 30 0" "ibm tiny_mount (Suc 0) = replicate 32 0"
  by (simp_all add: bbm_def ibm_def tiny_addr tiny_mount_def tiny_dev_def)

lemma tiny_fields: "s_groups_count tiny_sb = 2" "e2fs_bpg tiny_sb = 64" "e2fs_ipg tiny_sb = 16" "s_blocksize tiny_sb = 32"
  "um_e2fs tiny_mount = tiny_sb" "um_devvp tiny_mount = tiny_dev" "d_err tiny_dev = (\<lambda>_. False)"
  "e2fs_itpg tiny_sb = 1" "s_es tiny_sb = tiny_es"
  by (simp_all add: tiny_sb_def tiny_mount_def tiny_dev_def)

lemma tiny_bitmaps_ok: "bitmaps_ok tiny_mount"
  by (simp add: bitmaps_ok_def tiny_fields all_less_2 tiny_addr tiny_bitmaps)

lemma tiny_ibitmaps_ok: "ibitmaps_ok tiny_mount"
  by (simp add: ibitmaps_ok_def tiny_fields all_less_2 tiny_addr tiny_bitmaps)

lemma tiny_zeros: "count_zeros (bm_bit (0x17 # replicate 31 0)) 64 = 60" "count_zeros (bm_bit (0x16 # replicate 31 0)) 64 = 61"
  "count_zeros (bm_bit (0xFF # 0x07 # replicate 30 0)) 16 = 5" "count_zeros (bm_bit (replicate 32 0)) 16 = 16"
  by code_simp+

lemma tiny_counts_ok: "counts_ok tiny_mount"
  by (simp add: counts_ok_def tiny_fields all_less_2 tiny_bitmaps tiny_zeros tiny_gdesc sum_less_2) (simp add: tiny_defs)

lemma tiny_icounts_ok: "icounts_ok tiny_mount"
  by (simp add: icounts_ok_def tiny_fields all_less_2 tiny_bitmaps tiny_zeros tiny_gdesc sum_less_2) (simp add: tiny_defs)

lemma tiny_bits: "\<forall>j < 5. j \<noteq> 3 \<longrightarrow> bm_bit (0x17 # replicate 31 0) j" "\<forall>j < 5. j \<noteq> 3 \<and> j \<noteq> 0 \<longrightarrow> bm_bit (0x16 # replicate 31 0) j"
  "\<forall>j < 10. bm_bit (0xFF # 0x07 # replicate 30 0) j"
  by code_simp+

lemma tiny_reserved: "reserved_used tiny_mount"
proof -
  have "bm_bit (bbm tiny_mount g) j" if "g < 2" "j < 64"
    "sys_zone tiny_sb g (block_no tiny_sb g j) \<or> block_no tiny_sb g j = 0 \<or> blocks_count tiny_sb \<le> block_no tiny_sb g j" for g j
  proof (cases "g = 0")
    case True
    then have "j < 5 \<and> j \<noteq> 3" using that(2,3) by (auto simp: sys_zone_def block_no_def tiny_gdesc tiny_fields) (auto simp: tiny_defs)
    then show ?thesis using tiny_bits(1) True by (simp add: tiny_bitmaps)
  next
    case False
    then have g: "g = Suc 0" using that(1) by simp
    then have "j < 5 \<and> j \<noteq> 3 \<and> j \<noteq> 0" using that(2,3) by (auto simp: sys_zone_def block_no_def tiny_gdesc tiny_fields) (auto simp: tiny_defs)
    then show ?thesis using tiny_bits(2) g by (simp add: tiny_bitmaps)
  qed
  then show ?thesis by (simp add: reserved_used_def tiny_fields)
qed

lemma tiny_ireserved: "ireserved_used tiny_mount"
  using tiny_bits(3) by (simp add: ireserved_used_def tiny_fields all_less_2 tiny_bitmaps ino_no_def)

lemma tiny_fs_wf: "fs_wf tiny_mount" "balloc_wf tiny_mount" "ialloc_wf tiny_mount"
proof -
  show b: "balloc_wf tiny_mount" using tiny_geometry tiny_loaded tiny_bitmaps_ok tiny_reserved tiny_counts_ok by (simp add: balloc_wf_def tiny_fields no_bitmap_cache_def) (simp add: tiny_sb_def)
  show i: "ialloc_wf tiny_mount" using tiny_loaded tiny_ibitmaps_ok tiny_ireserved tiny_icounts_ok by (simp add: ialloc_wf_def tiny_fields igeometry_ok_def) (simp add: tiny_sb_def tiny_es_def)
  show "fs_wf tiny_mount" using b i by (simp add: fs_wf_def tiny_fields all_less_2 tiny_addr)
qed

lemma tiny_geom:
  "first_data_block tiny_sb = 1" "blocks_count tiny_sb = 129" "inodes_count tiny_sb = 32"
  "s_first_data_block tiny_es = 1" "s_blocks_count tiny_es = 129" "s_inodes_count tiny_es = 32"
  "s_free_blocks_count tiny_es = 121" "s_free_inodes_count tiny_es = 21"
  "dtog tiny_sb x = (x - 1) div 64" "dtogd tiny_sb x = (x - 1) mod 64"
  "ino_to_cg tiny_sb x = (x - 1) div 16" "ino_bit tiny_sb x = (x - 1) mod 16"
  by (simp_all add: dtog_def dtogd_def ino_to_cg_def ino_bit_def tiny_sb_def tiny_es_def)

lemma tiny_zone:
  "unat (bg_block_bitmap tiny_gd0) = 2" "unat (bg_inode_bitmap tiny_gd0) = 3" "unat (bg_inode_table tiny_gd0) = 5"
  "unat (bg_block_bitmap tiny_gd1) = 66" "unat (bg_inode_bitmap tiny_gd1) = 67" "unat (bg_inode_table tiny_gd1) = 69"
  by (simp_all add: tiny_gd0_def tiny_gd1_def)

lemma tiny_free_4: "4 \<in> free_blocks tiny_mount" "\<not> block_used tiny_mount 4"
  by (simp_all add: free_blocks_def block_used_def tiny_fields(5) tiny_geom tiny_bitmaps bm_bit_def)

lemma full_fields: "s_groups_count (um_e2fs full_mount) = 2" "e2fs_ipg (um_e2fs full_mount) = 16"
  "s_blocksize (um_e2fs full_mount) = 32" "d_err (um_devvp full_mount) = (\<lambda>_. False)" "inodes_count (um_e2fs full_mount) = 32"
  "s_free_inodes_count (s_es (um_e2fs full_mount)) = 1" "s_gd_dirty (um_e2fs full_mount) = {}"
  "s_group_desc (um_e2fs full_mount) = [Some [tiny_gd0\<lparr>bg_free_inodes_count := 1\<rparr>], Some [tiny_gd1\<lparr>bg_free_inodes_count := 0\<rparr>]]"
  "gdesc (um_e2fs full_mount) 0 = tiny_gd0\<lparr>bg_free_inodes_count := 1\<rparr>"
  "gdesc (um_e2fs full_mount) (Suc 0) = tiny_gd1\<lparr>bg_free_inodes_count := 0\<rparr>"
  "gd_ptr (um_e2fs full_mount) g = (g, 0)"
  by (simp_all add: full_mount_def tiny_sb_def tiny_dev_def tiny_es_def gdesc_def gdp_read_def gd_ptr_def EXT2_DESC_PER_BLOCK_def)

lemma full_bitmaps: "ibitmap_addr (um_e2fs full_mount) 0 = 6" "ibitmap_addr (um_e2fs full_mount) (Suc 0) = 134"
  "ibm full_mount 0 = 0xFF # 0x7F # replicate 30 0" "ibm full_mount (Suc 0) = 0xFF # 0xFF # replicate 30 0"
proof -
  show a: "ibitmap_addr (um_e2fs full_mount) 0 = 6" "ibitmap_addr (um_e2fs full_mount) (Suc 0) = 134"
    by (simp_all add: ibitmap_addr_def full_fields fsbtodb_def int32_def) (simp_all add: full_mount_def tiny_defs)
  show "ibm full_mount 0 = 0xFF # 0x7F # replicate 30 0" "ibm full_mount (Suc 0) = 0xFF # 0xFF # replicate 30 0"
    unfolding ibm_def a by (simp_all add: full_mount_def tiny_dev_def)
qed

lemma full_bits: "\<forall>j < 16. bm_bit (0xFF # 0x7F # replicate 30 0) j = (j \<noteq> 15)" "\<forall>j < 16. bm_bit (0xFF # 0xFF # replicate 30 0) j"
  "count_zeros (bm_bit (0xFF # 0x7F # replicate 30 0)) 16 = 1" "count_zeros (bm_bit (0xFF # 0xFF # replicate 30 0)) 16 = 0"
  by code_simp+

lemma full_wf: "ialloc_wf full_mount"
proof -
  have "igeometry_ok (um_e2fs full_mount)" by (simp add: igeometry_ok_def full_mount_def tiny_sb_def tiny_es_def)
  moreover have "gds_loaded (um_e2fs full_mount)" by (simp add: gds_loaded_def full_fields all_less_2 EXT2_DESC_PER_BLOCK_def)
  moreover have "ibitmaps_ok full_mount" by (simp add: ibitmaps_ok_def full_fields full_bitmaps all_less_2)
  moreover have "ireserved_used full_mount"
    using full_bits(1,2) by (simp add: ireserved_used_def full_fields full_bitmaps all_less_2 ino_no_def)
  moreover have "icounts_ok full_mount"
    by (simp add: icounts_ok_def full_fields full_bitmaps all_less_2 sum_less_2 full_bits(3,4))
  ultimately show ?thesis by (simp add: ialloc_wf_def)
qed

lemma full_free: "free_inodes full_mount = {16}"
proof -
  have "inode_used full_mount x \<longleftrightarrow> x \<noteq> 16" if "1 \<le> x" "x \<le> 32" for x
  proof (cases "x \<le> 16")
    case True
    then have "(x - 1) div 16 = 0" "(x - 1) mod 16 = x - 1" using that by simp_all
    then show ?thesis using full_bits(1) True that
      by (simp add: inode_used_def ino_to_cg_def ino_bit_def full_fields full_bitmaps) auto
  next
    case False
    then have "(x - 1) div 16 = Suc 0" using that by simp
    then show ?thesis using full_bits(2) False
      by (simp add: inode_used_def ino_to_cg_def ino_bit_def full_fields full_bitmaps)
  qed
  then show ?thesis by (auto simp: free_inodes_def full_fields)
qed

section \<open>Policy and round trip\<close>

lemma new_block_goal:
  assumes wf: "balloc_wf m" and b: "first_data_block (um_e2fs m) \<le> goal" "goal < blocks_count (um_e2fs m)"
    and f: "\<not> block_used m goal"
  shows "\<exists>c m'. ext2_new_block m goal want = Some (Return (int goal, if want then Some (c, goal + 1) else None, m')) \<and>
     allocated m goal c m' \<and> (\<not> want \<longrightarrow> c = 0)"
proof -
  let ?sb = "um_e2fs m" let ?g = "dtog ?sb goal" and ?j = "dtogd ?sb goal"
  have geo: "geometry_ok ?sb" and gl: "gds_loaded ?sb" using wf by (simp_all add: balloc_wf_def)
  have g: "?g < s_groups_count ?sb" and j: "?j < e2fs_bpg ?sb" using geometry_dtog [OF geo b] .
  have nb: "\<not> bm_bit (bbm m ?g) ?j" using f by (simp add: block_used_def)
  have "0 < free_of ?sb ?g"
    using wf g j nb by (auto simp: balloc_wf_def counts_ok_def Let_def count_zeros_pos)
  then have "bg_free_blocks_count (gdp_read ?sb (gd_ptr ?sb ?g)) > 0" by (simp add: gdesc_def unat_gt_0 word_gt_0)
  then have "nb_choose m goal = Return (Some (?g, gd_ptr ?sb ?g, (bitmap_addr ?sb ?g, bbm m ?g), ?j), m)"
    using get_group_desc_loaded [OF gl g] load_block_bitmap_wf [OF wf g] nb
    by (simp add: nb_choose_def Let_def dtog_def [symmetric] dtogd_def [symmetric] nb_near_goal_def nb_settle_def)
  moreover have "nb_goal ?sb goal = goal" using b by (simp add: nb_goal_def)
  moreover have "choice_ok m (?g, gd_ptr ?sb ?g, (bitmap_addr ?sb ?g, bbm m ?g), ?j)"
    using g j nb by (simp add: choice_ok_def)
  from got_block_ok [OF wf this, of want] obtain c m' where
    "nb_got_block m want (?g, gd_ptr ?sb ?g, (bitmap_addr ?sb ?g, bbm m ?g), ?j) =
       Return (Nb_return (int goal) (if want then Some (c, goal + 1) else None) m')"
    and a: "allocated m goal c m'" "\<not> want \<longrightarrow> c = 0"
    unfolding block_no_dtog [OF b(1)] by blast
  ultimately have "nb_pass m goal want = Return (Nb_return (int goal) (if want then Some (c, goal + 1) else None) m')"
    by (simp add: nb_pass_def)
  then show ?thesis using a by (subst ext2_new_block.simps) auto
qed

lemma data_range_layout:
  assumes "geometry_ok sb" "same_layout sb sb'" "data_range sb b c"
  shows "data_range sb' b c"
proof -
  have "b < blocks_count sb" "first_data_block sb \<le> b" using assms(3) by (auto simp: data_range_def)
  then have "dtog sb b < s_groups_count sb" using geometry_dtog [OF assms(1)] by blast
  then show ?thesis using assms(3) same_layoutD [OF assms(2)] assms(2) by (simp add: data_range_def same_layout_def)
qed

lemma data_range_sub:
  assumes "data_range sb b c" "i + n \<le> c" "0 < n"
  shows "data_range sb (b + i) n"
proof -
  have "dtog sb (b + i) = dtog sb b" "dtogd sb (b + i) = dtogd sb b + i"
    using block_range_group [of sb b c i] assms by (simp_all add: data_range_def)
  then show ?thesis using assms by (auto simp: data_range_def)
qed

lemma free_run_data_range:
  assumes wf: "balloc_wf m" and b: "first_data_block (um_e2fs m) \<le> b" "0 < b" "b + c \<le> blocks_count (um_e2fs m)" "0 < c"
    and g: "dtogd (um_e2fs m) b + c \<le> e2fs_bpg (um_e2fs m)" and f: "\<forall>x \<in> {b..<b + c}. \<not> block_used m x"
  shows "data_range (um_e2fs m) b c"
proof -
  let ?sb = "um_e2fs m"
  have geo: "geometry_ok ?sb" and ru: "reserved_used m" using wf by (simp_all add: balloc_wf_def)
  have "\<not> sys_zone ?sb (dtog ?sb b) x" if x: "x \<in> {b..<b + c}" for x
  proof -
    obtain i where i: "x = b + i" "i < c" using x by (metis atLeastLessThan_iff le_Suc_ex nat_add_left_cancel_less)
    have gi: "dtog ?sb x = dtog ?sb b" using block_range_group(1) [OF b(1) g i(2)] i(1) by simp
    have xb: "first_data_block ?sb \<le> x" "x < blocks_count ?sb" using x b by auto
    note dt = geometry_dtog [OF geo xb]
    have "\<not> bm_bit (bbm m (dtog ?sb x)) (dtogd ?sb x)" using f x by (simp add: block_used_def)
    from reserved_usedD(1) [OF ru dt this] show ?thesis using gi block_no_dtog [OF xb(1)] by simp
  qed
  then show ?thesis using b g by (simp add: data_range_def)
qed

lemma allocated_data_range:
  assumes wf: "balloc_wf m" and a: "allocated m b c m'"
  shows "data_range (um_e2fs m') b (c + 1)"
proof -
  have geo: "geometry_ok (um_e2fs m)" using wf by (simp add: balloc_wf_def)
  have d: "data_range (um_e2fs m) b (c + 1)"
    by (rule free_run_data_range [OF wf]) (use a in \<open>auto simp: allocated_def Let_def\<close>)
  have "same_layout (um_e2fs m) (um_e2fs m')" using a by (simp add: allocated_def Let_def)
  then show ?thesis by (rule data_range_layout [OF geo _ d])
qed

lemma alloc_free_roundtrip:
  assumes wf: "balloc_wf m" and n: "ext2_new_block m goal want = Some (Return (n, pre, m1))" "0 < n"
  defines "k \<equiv> (case pre of None \<Rightarrow> 1 | Some (c, b) \<Rightarrow> c + 1)"
  shows "\<exists>m2. ext2_free_blocks m1 (nat n) k = Return m2 \<and> balloc_wf m2 \<and> free_blocks m2 = free_blocks m \<and>
     s_free_blocks_count (s_es (um_e2fs m2)) = s_free_blocks_count (s_es (um_e2fs m))"
proof -
  have t: "block_take m {nat n..nat n + (case pre of None \<Rightarrow> 0 | Some (c, b) \<Rightarrow> c)} m1"
    unfolding block_take_def using n by blast
  obtain b c where b: "n = int b" "pre = (if want then Some (c, b + 1) else None)" "\<not> want \<longrightarrow> c = 0" "allocated m b c m1" "balloc_wf m1"
    using new_block_ok [OF wf, of goal want] n
    by (cases "s_free_blocks_count (s_es (um_e2fs m)) = 0") (auto simp del: not_Some_eq)
  have k: "k = c + 1" "(case pre of None \<Rightarrow> 0 | Some (c, b) \<Rightarrow> c) = c" using b(2,3) by (auto simp: k_def)
  have dr: "data_range (um_e2fs m1) b k" using allocated_data_range [OF wf b(4)] by (simp add: k)
  obtain m2 where m2: "ext2_free_blocks m1 b k = Return m2" "freed m1 b k m2" "balloc_wf m2"
    using free_data_blocks [OF b(5) dr] by blast
  have g: "block_give m1 {b..<b + k} m2" unfolding block_give_def using dr m2(1) by blast
  have "free_blocks m2 = free_blocks m1 \<union> {b..<b + k}" using blocks.gives_law [OF b(5) g] by simp
  moreover have "free_blocks m1 = free_blocks m - {b..b + c}" "{b..b + c} \<subseteq> free_blocks m"
    using blocks.takes_law [OF wf t] b(1) k(2) by auto
  moreover have "{b..<b + k} = {b..b + c}" using k(1) by auto
  ultimately have "free_blocks m2 = free_blocks m" by blast
  moreover have "filter (block_used m1) [b..<b + k] = [b..<b + k]"
    using b(4) k(1) by (auto simp: allocated_def Let_def filter_id_conv)
  then have "unat (s_free_blocks_count (s_es (um_e2fs m2))) = unat (s_free_blocks_count (s_es (um_e2fs m)))"
    using b(4) m2(2) k(1) by (simp add: allocated_def freed_def Let_def)
  ultimately show ?thesis using m2 b(1) by (auto simp: word_unat_eq_iff)
qed

lemma take_free_block:
  assumes "balloc_wf m" "b \<in> free_blocks m"
  shows "\<exists>m1. block_take m {b} m1 \<and> data_range (um_e2fs m1) b 1"
proof -
  have b: "first_data_block (um_e2fs m) \<le> b" "b < blocks_count (um_e2fs m)" "\<not> block_used m b"
    using assms(2) by (simp_all add: free_blocks_def)
  obtain m1 where n: "ext2_new_block m b False = Some (Return (int b, None, m1))" "allocated m b 0 m1"
    using new_block_goal [OF assms(1) b, of False] by auto
  then have "0 < int b" by (simp add: allocated_def Let_def)
  then have "block_take m {b} m1" unfolding block_take_def using n(1) by force
  then show ?thesis using allocated_data_range [OF assms(1) n(2), unfolded add_0] by blast
qed

lemma give_data_block:
  "balloc_wf m \<Longrightarrow> data_range (um_e2fs m) b 1 \<Longrightarrow> \<exists>m'. block_give m {b} m'"
  using free_data_blocks [of m b 1] unfolding block_give_def by force

section \<open>Properties of the block allocator\<close>

text \<open>
  C1: On a well-formed file system \<^verbatim>\<open>ext2_new_block\<close> always returns, never panics and
  keeps the file system well formed. It returns 0 exactly when no block is free, and then
  changes nothing. Otherwise it returns a block of the file system that was free, with
  the preallocated run behind it free as well and shorter than the preallocation goal;
  afterwards exactly these blocks are used in addition and the free count has dropped by
  their number.
\<close>

theorem ext2_new_block_correct:
  assumes "balloc_wf m"
  shows "\<exists>n pre m'. ext2_new_block m goal want = Some (Return (n, pre, m')) \<and> balloc_wf m' \<and>
     (if s_free_blocks_count (s_es (um_e2fs m)) = 0 then n = 0 \<and> pre = None \<and> m' = m
      else \<exists>b c. n = int b \<and> 0 < b \<and> pre = (if want then Some (c, b + 1) else None) \<and>
        c < prealloc_goal (s_es (um_e2fs m)) \<and> (\<not> want \<longrightarrow> c = 0) \<and>
        first_data_block (um_e2fs m) \<le> b \<and> b + c < blocks_count (um_e2fs m) \<and>
        (\<forall>x \<in> {b..b + c}. \<not> block_used m x) \<and>
        (\<forall>x. first_data_block (um_e2fs m) \<le> x \<and> x < blocks_count (um_e2fs m) \<longrightarrow>
           (block_used m' x \<longleftrightarrow> block_used m x \<or> x \<in> {b..b + c})) \<and>
        unat (s_free_blocks_count (s_es (um_e2fs m'))) + c + 1 = unat (s_free_blocks_count (s_es (um_e2fs m))))"
proof (cases "s_free_blocks_count (s_es (um_e2fs m)) = 0")
  case True
  then show ?thesis using new_block_ok [OF assms, of goal want] by simp
next
  case False
  then obtain n pre m' b c where r: "ext2_new_block m goal want = Some (Return (n, pre, m'))" "balloc_wf m'"
    "n = int b" "pre = (if want then Some (c, b + 1) else None)" "allocated m b c m'"
    "c < prealloc_goal (s_es (um_e2fs m))" "\<not> want \<longrightarrow> c = 0"
    using new_block_ok [OF assms, of goal want] unfolding if_not_P [OF False] by blast
  show ?thesis unfolding if_not_P [OF False]
    by (intro exI conjI; (rule r)?) (use r(5) in \<open>auto simp: allocated_def Let_def\<close>)
qed

theorem ext2_new_block_correct_witness:
  "\<exists>n pre m'. ext2_new_block tiny_mount 7 True = Some (Return (n, pre, m')) \<and> balloc_wf m' \<and> n \<noteq> 0"
proof -
  have "s_free_blocks_count (s_es (um_e2fs tiny_mount)) \<noteq> 0" by (simp add: tiny_defs)
  then show ?thesis using ext2_new_block_correct [OF tiny_fs_wf(2), of 7 True] by auto
qed

text \<open>
  A goal block that is free is the block \<^verbatim>\<open>ext2_new_block\<close> returns.
\<close>

theorem ext2_new_block_goal:
  assumes "balloc_wf m" "first_data_block (um_e2fs m) \<le> goal" "goal < blocks_count (um_e2fs m)"
    "\<not> block_used m goal"
  shows "\<exists>pre m'. ext2_new_block m goal want = Some (Return (int goal, pre, m'))"
  using new_block_goal [OF assms, of want] by blast

theorem ext2_new_block_goal_witness:
  "\<exists>pre m'. ext2_new_block tiny_mount 4 False = Some (Return (4, pre, m'))"
  using ext2_new_block_goal [OF tiny_fs_wf(2), of 4 False] tiny_free_4(2) by (simp add: tiny_fields(5) tiny_geom)

text \<open>
  C5: Freeing a range of data blocks inside one group returns, keeps the file system
  well formed, makes exactly these blocks free and raises the free count by the number
  of them that were in use, so that freeing a free block does not count it twice.
\<close>

theorem ext2_free_blocks_correct:
  assumes "balloc_wf m" "data_range (um_e2fs m) b c"
  shows "\<exists>m'. ext2_free_blocks m b c = Return m' \<and> balloc_wf m' \<and>
     (\<forall>x. first_data_block (um_e2fs m) \<le> x \<and> x < blocks_count (um_e2fs m) \<longrightarrow>
        (block_used m' x \<longleftrightarrow> block_used m x \<and> x \<notin> {b..<b + c})) \<and>
     unat (s_free_blocks_count (s_es (um_e2fs m'))) =
       unat (s_free_blocks_count (s_es (um_e2fs m))) + length (filter (block_used m) [b..<b + c])"
  using free_data_blocks [OF assms] by (auto simp: freed_def Let_def)

theorem ext2_free_blocks_correct_witness:
  "\<exists>m'. ext2_free_blocks tiny_mount 6 3 = Return m' \<and> balloc_wf m'"
proof -
  have "data_range (um_e2fs tiny_mount) 6 3"
    by (auto simp: data_range_def tiny_fields tiny_geom sys_zone_def tiny_gdesc tiny_zone)
  from ext2_free_blocks_correct [OF tiny_fs_wf(2) this] show ?thesis by auto
qed

text \<open>
  The error branches of \<^verbatim>\<open>ext2_free_blocks\<close>: a range that is not inside the data
  zone is refused without any effect, and a range that crosses the end of a group panics.
\<close>

theorem ext2_free_blocks_errors:
  assumes "b + c < 2 ^ 64"
  shows "(b < first_data_block (um_e2fs m) \<or> blocks_count (um_e2fs m) < b + c \<longrightarrow> ext2_free_blocks m b c = Return m) \<and>
    (first_data_block (um_e2fs m) \<le> b \<and> b + c \<le> blocks_count (um_e2fs m) \<and>
      e2fs_bpg (um_e2fs m) < dtogd (um_e2fs m) b + c \<longrightarrow> ext2_free_blocks m b c = Panic Free_across_group)"
proof -
  have u: "ulong (int b + int c) = b + c" using ulong_id [of "b + c"] assms by simp
  have "dtogd (um_e2fs m) b \<le> b" unfolding dtogd_def by (rule le_trans [OF mod_less_eq_dividend]) simp
  then have v: "ulong (int (dtogd (um_e2fs m) b) + int c) = dtogd (um_e2fs m) b + c"
    using ulong_id [of "dtogd (um_e2fs m) b + c"] assms by simp
  have "ext2_free_blocks m b c = Return m" if "b < first_data_block (um_e2fs m) \<or> blocks_count (um_e2fs m) < b + c"
    using that by (auto simp: ext2_free_blocks_def Let_def u)
  moreover have "ext2_free_blocks m b c = Panic Free_across_group"
    if "first_data_block (um_e2fs m) \<le> b" "b + c \<le> blocks_count (um_e2fs m)" "e2fs_bpg (um_e2fs m) < dtogd (um_e2fs m) b + c"
    using v that unfolding ext2_free_blocks_def Let_def dtogd_def [symmetric] u by simp
  ultimately show ?thesis by blast
qed

theorem ext2_free_blocks_errors_witness:
  "ext2_free_blocks tiny_mount 0 1 = Return tiny_mount \<and> ext2_free_blocks tiny_mount 60 10 = Panic Free_across_group"
  using ext2_free_blocks_errors [of 0 1 tiny_mount] ext2_free_blocks_errors [of 60 10 tiny_mount]
  by (simp add: tiny_fields tiny_geom)

text \<open>
  C39: The check of \<^verbatim>\<open>ext2_free_blocks\<close> for system zones compares only the two ends of the
  range with the inode table. A range that covers the whole table and spares both
  bitmaps passes it, and every block of the inode table is free afterwards.
\<close>

theorem free_blocks_over_inode_table:
  assumes "balloc_wf m" "first_data_block (um_e2fs m) \<le> b" "b + c \<le> blocks_count (um_e2fs m)"
    "dtogd (um_e2fs m) b + c \<le> e2fs_bpg (um_e2fs m)"
    "b < unat (bg_inode_table (gdesc (um_e2fs m) (dtog (um_e2fs m) b)))"
    "unat (bg_inode_table (gdesc (um_e2fs m) (dtog (um_e2fs m) b))) + e2fs_itpg (um_e2fs m) < b + c"
    "unat (bg_block_bitmap (gdesc (um_e2fs m) (dtog (um_e2fs m) b))) < b"
    "unat (bg_inode_bitmap (gdesc (um_e2fs m) (dtog (um_e2fs m) b))) < b"
  shows "\<exists>m'. ext2_free_blocks m b c = Return m' \<and>
     (\<forall>x \<in> {unat (bg_inode_table (gdesc (um_e2fs m) (dtog (um_e2fs m) b)))..<
             unat (bg_inode_table (gdesc (um_e2fs m) (dtog (um_e2fs m) b))) + e2fs_itpg (um_e2fs m)}.
        \<not> block_used m' x)"
proof -
  let ?sb = "um_e2fs m" let ?t = "unat (bg_inode_table (gdesc ?sb (dtog ?sb b)))"
  have geo: "geometry_ok ?sb" using assms(1) by (simp add: balloc_wf_def)
  have bc: "blocks_count ?sb < 2 ^ 32" using unsigned_less [of "s_blocks_count (s_es ?sb)"] by simp
  have c: "0 < c" using assms(5,6) by simp
  have i: "in_range x b c \<longleftrightarrow> b \<le> x \<and> x < b + c" for x using c bc assms(3) by (intro in_range_iff) simp_all
  have j: "in_range x ?t (e2fs_itpg ?sb) \<longleftrightarrow> ?t \<le> x \<and> x < ?t + e2fs_itpg ?sb" for x
    using geo bc assms(3,6) by (intro in_range_iff) (auto simp: geometry_ok_def)
  have u: "ulong (int b + int c - 1) = b + c - 1" using c bc assms(3) by (intro ulong_pred) simp_all
  have "\<not> fb_in_system_zone ?sb (gdesc ?sb (dtog ?sb b)) b c"
    unfolding fb_in_system_zone_def i j u using assms(5-8) by auto
  from free_blocks_ok [OF assms(1-3) c assms(4) this]
  obtain m' where m': "ext2_free_blocks m b c = Return m'" "freed m b c m'" by blast
  have "\<not> block_used m' x" if "x \<in> {?t..<?t + e2fs_itpg ?sb}" for x
    using m'(2) assms(2,3,5,6) that by (auto simp: freed_def Let_def)
  then show ?thesis using m'(1) by blast
qed

theorem free_blocks_over_inode_table_witness:
  "\<exists>m'. ext2_free_blocks tiny_mount 4 3 = Return m' \<and> \<not> block_used m' 5"
proof -
  show ?thesis using free_blocks_over_inode_table [OF tiny_fs_wf(2), of 4 3]
    by (simp add: tiny_fields tiny_geom tiny_gdesc tiny_zone) force
qed

text \<open>
  C32: Freeing what \<^verbatim>\<open>ext2_new_block\<close> has just taken, the block it returned and, when blocks were to be set aside, the run behind it
  whose length it delivered, gives back the set of free blocks and the free count from before the allocation.
\<close>

theorem new_block_free_blocks_roundtrip:
  assumes "balloc_wf m" "ext2_new_block m goal want = Some (Return (n, pre, m1))" "0 < n"
  shows "\<exists>m2. ext2_free_blocks m1 (nat n) (case pre of None \<Rightarrow> 1 | Some (c, b) \<Rightarrow> c + 1) = Return m2 \<and> balloc_wf m2 \<and>
     free_blocks m2 = free_blocks m \<and> s_free_blocks_count (s_es (um_e2fs m2)) = s_free_blocks_count (s_es (um_e2fs m))"
  using assms by (rule alloc_free_roundtrip)

theorem new_block_free_blocks_roundtrip_witness:
  "\<exists>n c b m1 m2. ext2_new_block tiny_mount 4 True = Some (Return (n, Some (c, b), m1)) \<and>
     ext2_free_blocks m1 (nat n) (c + 1) = Return m2 \<and> free_blocks m2 = free_blocks tiny_mount"
proof -
  have f: "s_free_blocks_count (s_es (um_e2fs tiny_mount)) \<noteq> 0" by (simp add: tiny_defs)
  obtain n pre m1 b c where n: "ext2_new_block tiny_mount 4 True = Some (Return (n, pre, m1))" "n = int b"
    "pre = (if True then Some (c, b + 1) else None)" "allocated tiny_mount b c m1"
    using new_block_ok [OF tiny_fs_wf(2), of 4 True] unfolding if_not_P [OF f] by blast
  have p: "pre = Some (c, b + 1)" "0 < n" using n(2-4) by (simp_all add: allocated_def Let_def)
  from new_block_free_blocks_roundtrip [OF tiny_fs_wf(2) n(1) p(2), unfolded p(1) option.case prod.case] show ?thesis
    using n(1) unfolding p(1) by blast
qed

text \<open>
  C8: Over any history of block allocations and of releases of data blocks, a block that
  is handed out twice was given back in between.
\<close>

theorem no_block_allocated_twice:
  assumes "balloc_wf m" "alloc_trace block_take block_give m (es1 @ Take A # es2 @ Take B # es3) m'"
    "x \<in> A" "x \<in> B"
  shows "\<exists>C. Give C \<in> set es2 \<and> x \<in> C"
  using blocks.no_double_take [OF assms(2,1,3,4)] .

theorem no_block_allocated_twice_witness:
  "\<exists>m1 m2 m3. alloc_trace block_take block_give tiny_mount ([] @ Take {4} # [Give {4}] @ Take {4} # []) m3 \<and>
     (\<exists>C. Give C \<in> set [Give {4::nat}] \<and> 4 \<in> C) \<and> block_take tiny_mount {4} m1 \<and> block_give m1 {4} m2 \<and> block_take m2 {4} m3"
proof -
  obtain m1 where m1: "block_take tiny_mount {4} m1" "data_range (um_e2fs m1) 4 1"
    using take_free_block [OF tiny_fs_wf(2) tiny_free_4(1)] by blast
  have l1: "balloc_wf m1" using blocks.takes_law [OF tiny_fs_wf(2) m1(1)] by simp
  obtain m2 where m2: "block_give m1 {4} m2" using give_data_block [OF l1 m1(2)] by blast
  have l2: "balloc_wf m2" "free_blocks m2 = free_blocks m1 \<union> {4}"
    using blocks.gives_law [OF l1 m2] by simp_all
  obtain m3 where m3: "block_take m2 {4} m3" using take_free_block [OF l2(1), of 4] l2(2) by blast
  have t: "alloc_trace block_take block_give tiny_mount ([] @ Take {4} # [Give {4}] @ Take {4} # []) m3"
    using m1(1) m2 m3 by (auto simp: trace_simps)
  show ?thesis using no_block_allocated_twice [OF tiny_fs_wf(2) t, of 4] t m1(1) m2 m3 by blast
qed

lemma give_used_inode:
  assumes "ialloc_wf m" "11 \<le> ino" "ino \<le> inodes_count (um_e2fs m)" "inode_used m ino"
  shows "\<exists>m'. inode_give m {ino} m'"
proof -
  define ip where "ip = tiny_gone\<lparr>i_number := ino\<rparr>"
  have ip: "i_nlink ip = 0" "i_number ip = ino" by (simp_all add: ip_def tiny_gone_def)
  obtain m' where "ext2_free_inode m ip = Return m'" using free_inode_ok [OF assms(1), of ip] ip assms by auto
  then have "inode_give m {ino} m'" unfolding inode_give_def using ip assms by blast
  then show ?thesis by blast
qed

lemma take_only_inode:
  assumes "ialloc_wf m" "free_inodes m = {ino}"
  shows "\<exists>m'. inode_take m {ino} m'"
proof -
  have d: "i_block_group tiny_dir < s_groups_count (um_e2fs m)"
    using assms(1) by (simp add: tiny_dir_def ialloc_wf_def igeometry_ok_def)
  have ino: "1 \<le> ino" "ino \<le> inodes_count (um_e2fs m)" "\<not> inode_used m ino" using assms(2) by (auto simp: free_inodes_def)
  have "0 < ifree (um_e2fs m)" using free_inode_counted [OF assms(1) ino] .
  then obtain x m' where r: "ext2_new_inode m tiny_dir 0x41ED = Some (Return (x, m'))" "allocated_inode m x (S_ISDIR 0x41ED) m'"
    using new_inode_ok [OF assms(1) d, of "0x41ED"] by auto
  then have x: "x \<in> free_inodes m" by (auto simp: allocated_inode_def free_inodes_def Let_def)
  then have "x = ino" "0 < x" using assms(2) ino(1) by auto
  then have "inode_take m {ino} m'" unfolding inode_take_def using d r(1) by blast
  then show ?thesis by blast
qed

section \<open>Properties of the inode allocator\<close>

lemma tiny_dir_fields: "i_block_group tiny_dir = 0" "i_nlink tiny_gone = 0" "i_number tiny_gone = 11"
  "i_mode tiny_gone = 0x41ED"
  by (simp_all add: tiny_dir_def tiny_gone_def)

lemma tiny_used_11: "inode_used tiny_mount 11"
  by (simp add: inode_used_def tiny_fields(5) tiny_geom tiny_bitmaps bm_bit_def)

lemma tiny_free_12: "\<not> inode_used tiny_mount 12"
  by (simp add: inode_used_def tiny_fields(5) tiny_geom tiny_bitmaps bm_bit_def)

text \<open>
  C9: On a well-formed file system \<^verbatim>\<open>ext2_new_inode\<close> always returns and never panics. It
  returns 0 exactly when no inode is free, and then changes nothing; otherwise it returns
  an inode number of the file system that is not reserved and was free, marks exactly
  that inode used, and keeps the free count, the directory count of the group and that
  of the file system in step.
\<close>

theorem ext2_new_inode_correct:
  assumes "ialloc_wf m" "i_block_group dir < s_groups_count (um_e2fs m)"
  shows "\<exists>ino m'. ext2_new_inode m dir mode = Some (Return (ino, m')) \<and> ialloc_wf m' \<and>
     (if ifree (um_e2fs m) = 0 then ino = 0 \<and> m' = m
      else 11 \<le> ino \<and> ino \<le> inodes_count (um_e2fs m) \<and> \<not> inode_used m ino \<and>
        (\<forall>x. 1 \<le> x \<and> x \<le> inodes_count (um_e2fs m) \<longrightarrow> (inode_used m' x \<longleftrightarrow> inode_used m x \<or> x = ino)) \<and>
        ifree (um_e2fs m') + 1 = ifree (um_e2fs m) \<and>
        s_dircount (um_e2fs m') = s_dircount (um_e2fs m) + (if S_ISDIR mode then 1 else 0) \<and>
        (\<forall>g < s_groups_count (um_e2fs m). bg_used_dirs_count (gdesc (um_e2fs m') g) =
           bg_used_dirs_count (gdesc (um_e2fs m) g) +
             (if S_ISDIR mode \<and> g = ino_to_cg (um_e2fs m) ino then 1 else 0)))"
proof (cases "ifree (um_e2fs m) = 0")
  case True
  then show ?thesis using new_inode_none [OF assms True] assms(1) by simp
next
  case False
  then obtain ino m' where r: "ext2_new_inode m dir mode = Some (Return (ino, m'))" "ialloc_wf m'"
    "allocated_inode m ino (S_ISDIR mode) m'" using new_inode_ok [OF assms, of mode] by auto
  then show ?thesis unfolding if_not_P [OF False] by (auto simp: allocated_inode_def Let_def)
qed

theorem ext2_new_inode_correct_witness:
  "\<exists>ino m'. ext2_new_inode tiny_mount tiny_dir 0x41ED = Some (Return (ino, m')) \<and> ialloc_wf m' \<and>
     11 \<le> ino \<and> ifree (um_e2fs m') = 20"
  using ext2_new_inode_correct [OF tiny_fs_wf(3), of tiny_dir "0x41ED"]
  by (auto simp: tiny_fields tiny_geom tiny_dir_fields)

text \<open>
  A new directory goes to a group that has at least the average number of free inodes
  of the file system and, among those groups, as many free blocks as any.
\<close>

theorem ext2_new_inode_directory_policy:
  assumes "ialloc_wf m" "i_block_group dir < s_groups_count (um_e2fs m)" "S_ISDIR mode" "0 < ifree (um_e2fs m)"
  shows "\<exists>ino m'. ext2_new_inode m dir mode = Some (Return (ino, m')) \<and>
     ino_to_cg (um_e2fs m) ino < s_groups_count (um_e2fs m) \<and>
     (let eligible = dir_eligible (um_e2fs m) (ifree (um_e2fs m) div s_groups_count (um_e2fs m)) in
      eligible (ino_to_cg (um_e2fs m) ino) \<and>
      (\<forall>g < s_groups_count (um_e2fs m). eligible g \<longrightarrow>
        free_of (um_e2fs m) g \<le> free_of (um_e2fs m) (ino_to_cg (um_e2fs m) ino)))"
proof -
  obtain ino m' i bp2 where r: "ext2_new_inode m dir mode = Some (Return (ino, m'))"
    "ni_group (um_e2fs m) dir mode = Return (Some (i, gd_ptr (um_e2fs m) i), Some bp2)" "ino_to_cg (um_e2fs m) ino = i"
    using new_inode_ok [OF assms(1,2,4), of mode] by blast
  show ?thesis using r dir_group_best(1) [OF assms(1,3) r(2)] by (auto simp: best_ok_def Let_def)
qed

theorem ext2_new_inode_directory_policy_witness:
  "\<exists>ino m'. ext2_new_inode tiny_mount tiny_dir 0x41ED = Some (Return (ino, m')) \<and> ino_to_cg tiny_sb ino = 1"
proof -
  have d: "S_ISDIR 0x41ED" by (simp add: S_ISDIR_def)
  have e: "\<not> dir_eligible tiny_sb 10 0" by (simp add: dir_eligible_def tiny_gdesc tiny_gd0_def)
  obtain ino m' where r: "ext2_new_inode tiny_mount tiny_dir 0x41ED = Some (Return (ino, m'))"
    "dir_eligible tiny_sb 10 (ino_to_cg tiny_sb ino)" "ino_to_cg tiny_sb ino < 2"
    using ext2_new_inode_directory_policy [OF tiny_fs_wf(3) _ d, of tiny_dir]
    by (auto simp: tiny_fields tiny_geom tiny_dir_fields Let_def)
  then show ?thesis using e by (auto simp: less_2_cases_iff)
qed

text \<open>
  C40: For a directory \<^verbatim>\<open>ext2_new_inode\<close> marks the descriptor buffer of the last group of
  the file system dirty, because its loop leaves that buffer in \<^verbatim>\<open>bp2\<close>, although it has
  changed the descriptor of the group it chose. Where the two are in different buffers,
  the changed descriptor is not scheduled to be written.
\<close>

theorem new_directory_marks_last_descriptor:
  assumes "ialloc_wf m" "i_block_group dir < s_groups_count (um_e2fs m)" "S_ISDIR mode" "0 < ifree (um_e2fs m)"
  shows "\<exists>ino m'. ext2_new_inode m dir mode = Some (Return (ino, m')) \<and>
     s_gd_dirty (um_e2fs m') = insert (fst (gd_ptr (um_e2fs m) (s_groups_count (um_e2fs m) - 1))) (s_gd_dirty (um_e2fs m)) \<and>
     bg_used_dirs_count (gdesc (um_e2fs m') (ino_to_cg (um_e2fs m) ino)) =
       bg_used_dirs_count (gdesc (um_e2fs m) (ino_to_cg (um_e2fs m) ino)) + 1"
proof -
  obtain ino m' i bp2 where r: "ext2_new_inode m dir mode = Some (Return (ino, m'))"
    "ni_group (um_e2fs m) dir mode = Return (Some (i, gd_ptr (um_e2fs m) i), Some bp2)" "ino_to_cg (um_e2fs m) ino = i"
    "s_gd_dirty (um_e2fs m') = insert (fst bp2) (s_gd_dirty (um_e2fs m))" "allocated_inode m ino (S_ISDIR mode) m'"
    using new_inode_ok [OF assms(1,2,4), of mode] by blast
  have i: "i < s_groups_count (um_e2fs m)" using dir_group_best(1) [OF assms(1,3) r(2)] by (simp add: best_ok_def)
  have "bp2 = gd_ptr (um_e2fs m) (s_groups_count (um_e2fs m) - 1)" by (rule dir_group_best(2) [OF assms(1,3) r(2)])
  then show ?thesis using r i assms(3) by (auto simp: allocated_inode_def Let_def)
qed

theorem new_directory_marks_last_descriptor_witness:
  "\<exists>ino m'. ext2_new_inode full_mount tiny_dir 0x41ED = Some (Return (ino, m')) \<and>
     s_gd_dirty (um_e2fs m') = {fst (gd_ptr (um_e2fs full_mount) 1)}"
  using new_directory_marks_last_descriptor [OF full_wf, of tiny_dir "0x41ED"]
  by (auto simp: full_fields tiny_dir_fields S_ISDIR_def)

text \<open>
  C10: Freeing an unlinked inode that is in use returns, keeps the inode bitmaps and
  counters in step, and makes exactly that inode free.
\<close>

theorem ext2_free_inode_correct:
  assumes "ialloc_wf m" "i_nlink ip = 0" "11 \<le> i_number ip" "i_number ip \<le> inodes_count (um_e2fs m)"
    "inode_used m (i_number ip)"
  shows "\<exists>m'. ext2_free_inode m ip = Return m' \<and> ialloc_wf m' \<and>
     (\<forall>x. 1 \<le> x \<and> x \<le> inodes_count (um_e2fs m) \<longrightarrow> (inode_used m' x \<longleftrightarrow> inode_used m x \<and> x \<noteq> i_number ip)) \<and>
     ifree (um_e2fs m') = ifree (um_e2fs m) + 1 \<and>
     s_dircount (um_e2fs m') = s_dircount (um_e2fs m) - (if S_ISDIR (i_mode ip) then 1 else 0)"
  using free_inode_ok [OF assms] by (auto simp: freed_inode_def Let_def)

theorem ext2_free_inode_correct_witness:
  "\<exists>m'. ext2_free_inode tiny_mount tiny_gone = Return m' \<and> ialloc_wf m' \<and> ifree (um_e2fs m') = 22"
  using ext2_free_inode_correct [OF tiny_fs_wf(3), of tiny_gone] tiny_used_11
  by (auto simp: tiny_fields tiny_geom tiny_dir_fields)

text \<open>
  C11: Over any history of inode allocations and releases of used inodes, an inode number
  that is handed out twice was given back in between.
\<close>

theorem no_inode_allocated_twice:
  assumes "ialloc_wf m" "alloc_trace inode_take inode_give m (es1 @ Take A # es2 @ Take B # es3) m'"
    "x \<in> A" "x \<in> B"
  shows "\<exists>C. Give C \<in> set es2 \<and> x \<in> C"
  using inodes.no_double_take [OF assms(2,1,3,4)] .

theorem no_inode_allocated_twice_witness:
  "\<exists>m1 m2 m3. alloc_trace inode_take inode_give full_mount ([] @ Take {16} # [Give {16}] @ Take {16} # []) m3 \<and>
     (\<exists>C. Give C \<in> set [Give {16::nat}] \<and> 16 \<in> C) \<and> inode_take full_mount {16} m1 \<and> inode_give m1 {16} m2 \<and> inode_take m2 {16} m3"
proof -
  obtain m1 where m1: "inode_take full_mount {16} m1" using take_only_inode [OF full_wf full_free] by blast
  have l1: "ialloc_wf m1" "free_inodes m1 = {}" using inodes.takes_law [OF full_wf m1] full_free by simp_all
  have "inodes_count (um_e2fs m1) = 32" using inode_take_count [OF full_wf m1] by (simp add: full_fields)
  then obtain m2 where m2: "inode_give m1 {16} m2" using give_used_inode [OF l1(1), of 16] l1(2) by (auto simp: free_inodes_def)
  have l2: "ialloc_wf m2" "free_inodes m2 = {16}" using inodes.gives_law [OF l1(1) m2] l1(2) by simp_all
  obtain m3 where m3: "inode_take m2 {16} m3" using take_only_inode [OF l2] by blast
  have t: "alloc_trace inode_take inode_give full_mount ([] @ Take {16} # [Give {16}] @ Take {16} # []) m3"
    using m1 m2 m3 by (auto simp: trace_simps)
  show ?thesis using no_inode_allocated_twice [OF full_wf t, of 16] t m1 m2 m3 by blast
qed

text \<open>
  C12: The four entry points of the two allocators keep the whole file system well formed:
  the block allocator leaves the inode bitmaps and their counters alone, and the other
  way round.
\<close>

theorem allocators_keep_fs_wf:
  assumes "fs_wf m" "i_block_group dir < s_groups_count (um_e2fs m)" "data_range (um_e2fs m) b c"
    "i_nlink ip = 0" "11 \<le> i_number ip" "i_number ip \<le> inodes_count (um_e2fs m)" "inode_used m (i_number ip)"
  shows "(\<exists>n pre m'. ext2_new_block m goal want = Some (Return (n, pre, m')) \<and> fs_wf m') \<and>
     (\<exists>m'. ext2_free_blocks m b c = Return m' \<and> fs_wf m') \<and>
     (\<exists>ino m'. ext2_new_inode m dir mode = Some (Return (ino, m')) \<and> fs_wf m') \<and>
     (\<exists>m'. ext2_free_inode m ip = Return m' \<and> fs_wf m')"
proof (intro conjI)
  have wf: "balloc_wf m" "ialloc_wf m" using assms(1) by (simp_all add: fs_wf_def)
  show "\<exists>n pre m'. ext2_new_block m goal want = Some (Return (n, pre, m')) \<and> fs_wf m'"
    by (rule new_block_keeps_fs_wf [OF assms(1)])
  obtain m' where m': "ext2_free_blocks m b c = Return m'" "freed m b c m'" "balloc_wf m'"
    using free_data_blocks [OF wf(1) assms(3)] by blast
  then show "\<exists>m'. ext2_free_blocks m b c = Return m' \<and> fs_wf m'"
    using fs_wf_blocks [OF assms(1)] by (auto simp: freed_def Let_def)
  show "\<exists>ino m'. ext2_new_inode m dir mode = Some (Return (ino, m')) \<and> fs_wf m'"
    by (rule new_inode_keeps_fs_wf [OF assms(1,2)])
  show "\<exists>m'. ext2_free_inode m ip = Return m' \<and> fs_wf m'"
    using free_inode_ok [OF wf(2) assms(4-7)] fs_wf_inodes [OF assms(1)] by (auto simp: freed_inode_def Let_def)
qed

theorem allocators_keep_fs_wf_witness:
  "\<exists>n pre m'. ext2_new_block tiny_mount 7 True = Some (Return (n, pre, m')) \<and> fs_wf m'"
proof -
  have "data_range (um_e2fs tiny_mount) 6 3"
    by (auto simp: data_range_def tiny_fields tiny_geom sys_zone_def tiny_gdesc tiny_zone)
  then show ?thesis
    using allocators_keep_fs_wf [OF tiny_fs_wf(1), of tiny_dir 6 3 tiny_gone 7 True] tiny_used_11
    by (simp add: tiny_fields tiny_geom tiny_dir_fields)
qed

end
