(* ===== verification/Ext2_Alloc.thy ===== *)
theory Ext2_Alloc
  imports Ext2_Allocators
begin

text \<open>
  The allocation framework of \<^verbatim>\<open>ext2_alloc.c\<close>: the blocks preallocated for an inode, the
  allocation of one block with them, the preferred position of a block, and the release
  of blocks and inodes.

  \<^verbatim>\<open>btodb\<close> is the macro of the host's headers that counts device blocks; it is an
  argument of the model. The locals \<^verbatim>\<open>icount\<close> and \<^verbatim>\<open>ibn\<close> of \<^verbatim>\<open>ext2_alloc\<close> are not
  initialised: their values before the call of \<^verbatim>\<open>ext2_new_block\<close> are an argument too.
\<close>

section \<open>Operations\<close>

definition ext2_discard_prealloc :: "ext2mount \<Rightarrow> inode \<Rightarrow> (inode \<times> ext2mount) outcome" where
  "ext2_discard_prealloc m ip =
     (if i_prealloc_count ip \<noteq> 0 then
        let i = unat (i_prealloc_count ip); blk = unat (i_prealloc_block ip) in
        bindp (ext2_free_blocks m blk i) (\<lambda>m. Return (ip\<lparr>i_prealloc_count := 0\<rparr>, m))
      else Return (ip, m))"

definition alloc_nospace :: "m_ext2fs \<Rightarrow> int \<Rightarrow> nat \<Rightarrow> bool" where
  "alloc_nospace fs sz uid \<longleftrightarrow>
     ulong sz = s_blocksize fs \<and> s_free_blocks_count (s_es fs) = 0 \<or>
     uid \<noteq> 0 \<and> s_free_blocks_count (s_es fs) < s_r_blocks_count (s_es fs)"

definition alloc_pref :: "m_ext2fs \<Rightarrow> int \<Rightarrow> int" where
  "alloc_pref fs bpref = (if uint32 bpref \<ge> blocks_count fs then 0 else bpref)"

definition prealloc_hit :: "inode \<Rightarrow> int \<Rightarrow> bool" where
  "prealloc_hit ip bpref \<longleftrightarrow> i_prealloc_count ip \<noteq> 0 \<and>
     (uint32 bpref = unat (i_prealloc_block ip) \<or> uint32 (bpref + 1) = unat (i_prealloc_block ip))"

text \<open>The block number: from the preallocated run, or from \<^verbatim>\<open>ext2_new_block\<close>.\<close>

definition alloc_block :: "u32 \<times> u32 \<Rightarrow> ext2mount \<Rightarrow> inode \<Rightarrow> int \<Rightarrow> (int \<times> inode \<times> ext2mount) outcome option" where
  "alloc_block uninit m ip bpref =
     (if prealloc_hit ip bpref then
        Some (Return (int32 (uint (i_prealloc_block ip)),
          ip\<lparr>i_prealloc_block := i_prealloc_block ip + 1, i_prealloc_count := i_prealloc_count ip - 1\<rparr>, m))
      else
        bindo (Some (ext2_discard_prealloc m ip)) (\<lambda>(ip, m).
        if S_ISREG (i_mode ip) then
          bindo (ext2_new_block m (ulong bpref) True) (\<lambda>(bno, pre, m).
            let (icount, ibn) = (case pre of None \<Rightarrow> uninit | Some (c, b) \<Rightarrow> (of_nat c, of_nat b)) in
            Some (Return (bno, ip\<lparr>i_prealloc_count := icount, i_prealloc_block := ibn\<rparr>, m)))
        else
          bindo (ext2_new_block m (ulong bpref) False) (\<lambda>(bno, pre, m). Some (Return (bno, ip, m)))))"

definition ext2_alloc ::
    "(int \<Rightarrow> nat \<Rightarrow> int) \<Rightarrow> u32 \<times> u32 \<Rightarrow> ext2mount \<Rightarrow> inode \<Rightarrow> int \<Rightarrow> int \<Rightarrow> int \<Rightarrow> nat \<Rightarrow>
     ((errno + int) \<times> inode \<times> ext2mount) outcome option" where
  "ext2_alloc btodb uninit m ip lbn bpref sz uid =
     (let fs = um_e2fs m in
      if alloc_nospace fs sz uid then Some (Return (Inl ENOSPC, ip, m))
      else
        bindo (alloc_block uninit m ip (alloc_pref fs bpref)) (\<lambda>(bno, ip, m).
        if bno > 0 then
          Some (Return (Inr bno,
            ip\<lparr>i_next_alloc_block := word_of_int lbn, i_next_alloc_goal := word_of_int bno,
               i_blocks := int32 (i_blocks ip + btodb sz (s_d_blocksize (um_e2fs m))),
               i_flag := i_flag ip OR 6\<rparr>, m))
        else Some (Return (Inl ENOSPC, ip, m))))"

text \<open>The search of \<^verbatim>\<open>ext2_blkpref\<close> from index \<open>n - 1\<close> of the pointer array downwards.\<close>

fun blkpref_near :: "int list \<Rightarrow> nat \<Rightarrow> int option" where
  "blkpref_near bap 0 = None"
| "blkpref_near bap (Suc n) = (if bap ! n \<noteq> 0 then Some (bap ! n) else blkpref_near bap n)"

definition ext2_blkpref :: "m_ext2fs \<Rightarrow> inode \<Rightarrow> int \<Rightarrow> int \<Rightarrow> int list option \<Rightarrow> int \<Rightarrow> int" where
  "ext2_blkpref fs ip lbn indx bap blocknr =
     (if i_next_alloc_block ip \<noteq> 0 \<and> i_next_alloc_block ip = word_of_int lbn
      then int32 (uint (i_next_alloc_goal ip))
      else
        case (case bap of None \<Rightarrow> None | Some bap \<Rightarrow> blkpref_near bap (nat indx)) of
          Some b \<Rightarrow> b
        | None \<Rightarrow>
            if blocknr \<noteq> 0 then blocknr
            else int32 (int32 (int (i_block_group ip * e2fs_bpg fs)) + int (first_data_block fs)))"

definition ext2_blkfree :: "ext2mount \<Rightarrow> int \<Rightarrow> int \<Rightarrow> ext2mount outcome" where
  "ext2_blkfree m bno sz =
     (if e2fs_fsize (um_e2fs m) = 0 then Panic Divide_error
      else ext2_free_blocks m (ulong bno) (ulong sz div e2fs_fsize (um_e2fs m)))"

definition ext2_vfree :: "ext2mount \<Rightarrow> inode \<Rightarrow> nat \<Rightarrow> u16 \<Rightarrow> (inode \<times> ext2mount) outcome" where
  "ext2_vfree m pip ino mode =
     (let fs = um_e2fs m in
      if uint32 (int ino) > e2fs_ipg fs * s_groups_count fs then Panic Vfree_range
      else
        bindp (ext2_discard_prealloc m pip) (\<lambda>(pip, m).
        bindp (ext2_free_inode m (pip\<lparr>i_mode := mode\<rparr>)) (\<lambda>m.
        Return (pip, m))))"

text \<open>\<^verbatim>\<open>ext2_reallocblks\<close> without \<^verbatim>\<open>FANCY_REALLOC\<close>.\<close>

definition ext2_reallocblks :: errno where
  "ext2_reallocblks = ENOSPC"

section \<open>Blocks held by files and blocks set aside\<close>

text \<open>
  The blocks preallocated for an inode are marked used in the bitmap although no file
  holds them. \<open>held_blocks m ip\<close> are the used blocks except those set aside for \<open>ip\<close>.
\<close>

definition prealloc_run :: "inode \<Rightarrow> nat set" where
  "prealloc_run ip = {unat (i_prealloc_block ip)..<unat (i_prealloc_block ip) + unat (i_prealloc_count ip)}"

definition prealloc_ok :: "ext2mount \<Rightarrow> inode \<Rightarrow> bool" where
  "prealloc_ok m ip \<longleftrightarrow> i_prealloc_count ip = 0 \<or>
     data_range (um_e2fs m) (unat (i_prealloc_block ip)) (unat (i_prealloc_count ip)) \<and>
     (\<forall>x \<in> prealloc_run ip. block_used m x)"

definition used_blocks :: "ext2mount \<Rightarrow> nat set" where
  "used_blocks m = {b. first_data_block (um_e2fs m) \<le> b \<and> b < blocks_count (um_e2fs m) \<and> block_used m b}"

definition held_blocks :: "ext2mount \<Rightarrow> inode \<Rightarrow> nat set" where
  "held_blocks m ip = used_blocks m - prealloc_run ip"

text \<open>
  What allocating for \<open>ip\<close> does: the block was free or set aside for \<open>ip\<close>, it is held
  afterwards, and nothing else changes hands.
\<close>

definition block_granted :: "ext2mount \<Rightarrow> inode \<Rightarrow> nat \<Rightarrow> inode \<Rightarrow> ext2mount \<Rightarrow> bool" where
  "block_granted m ip b ip' m' \<longleftrightarrow> 0 < b \<and> first_data_block (um_e2fs m) \<le> b \<and> b < blocks_count (um_e2fs m) \<and>
     b \<notin> held_blocks m ip \<and> held_blocks m' ip' = insert b (held_blocks m ip) \<and> b \<notin> prealloc_run ip' \<and>
     prealloc_run ip' \<inter> (used_blocks m - prealloc_run ip) = {} \<and>
     balloc_wf m' \<and> prealloc_ok m' ip' \<and> same_layout (um_e2fs m) (um_e2fs m') \<and> blocks_frame m m'"

definition tiny_file :: inode where
  "tiny_file = tiny_dir\<lparr>i_number := 12, i_mode := 0x81A4, i_nlink := 1, i_db := replicate 12 0, i_size := 0, i_blocks := 0\<rparr>"

text \<open>An inode for which the first block of the small file system is set aside.\<close>

definition tiny_pre :: inode where
  "tiny_pre = tiny_file\<lparr>i_prealloc_block := 1, i_prealloc_count := 1\<rparr>"

section \<open>Lemmas\<close>

lemma used_blocks_freed: "freed m b c m' \<Longrightarrow> used_blocks m' = used_blocks m - {b..<b + c}"
  by (auto simp: used_blocks_def freed_def same_layout_def Let_def)

lemma used_blocks_allocated: "allocated m b c m' \<Longrightarrow> used_blocks m' = used_blocks m \<union> {b..b + c}"
  by (auto simp: used_blocks_def allocated_def same_layout_def Let_def)

lemma allocated_fresh: "allocated m b c m' \<Longrightarrow> {b..b + c} \<inter> used_blocks m = {}"
  by (auto simp: used_blocks_def allocated_def Let_def)

lemma prealloc_run_empty: "i_prealloc_count ip = 0 \<Longrightarrow> prealloc_run ip = {}"
  by (simp add: prealloc_run_def)

lemma prealloc_ok_iff:
  "prealloc_ok m ip \<longleftrightarrow> i_prealloc_count ip = 0 \<or>
     data_range (um_e2fs m) (unat (i_prealloc_block ip)) (unat (i_prealloc_count ip)) \<and>
     prealloc_run ip \<subseteq> used_blocks m"
  by (auto simp: prealloc_ok_def used_blocks_def prealloc_run_def data_range_def)

lemma discard_prealloc_ok:
  assumes wf: "balloc_wf m" and ok: "prealloc_ok m ip"
  shows "\<exists>m'. ext2_discard_prealloc m ip = Return (ip\<lparr>i_prealloc_count := 0\<rparr>, m') \<and> balloc_wf m' \<and>
     same_layout (um_e2fs m) (um_e2fs m') \<and> used_blocks m' = used_blocks m - prealloc_run ip \<and>
     blocks_frame m m' \<and>
     unat (s_free_blocks_count (s_es (um_e2fs m))) \<le> unat (s_free_blocks_count (s_es (um_e2fs m')))"
proof (cases "i_prealloc_count ip = 0")
  case True
  then show ?thesis using wf
    by (simp add: ext2_discard_prealloc_def prealloc_run_empty blocks_frame_refl same_layout_refl)
next
  case False
  then have dr: "data_range (um_e2fs m) (unat (i_prealloc_block ip)) (unat (i_prealloc_count ip))"
    using ok by (simp add: prealloc_ok_def)
  obtain m' where m': "ext2_free_blocks m (unat (i_prealloc_block ip)) (unat (i_prealloc_count ip)) = Return m'"
    "freed m (unat (i_prealloc_block ip)) (unat (i_prealloc_count ip)) m'" "balloc_wf m'"
    using free_data_blocks [OF wf dr] by blast
  then show ?thesis using False used_blocks_freed [OF m'(2)]
    by (simp add: ext2_discard_prealloc_def prealloc_run_def) (simp add: freed_def Let_def)
qed


text \<open>What \<open>alloc_block\<close> does to the blocks.\<close>

lemma prealloc_hit_ok:
  assumes wf: "balloc_wf m" and ok: "prealloc_ok m ip" and c: "i_prealloc_count ip \<noteq> 0"
  defines "ip' \<equiv> ip\<lparr>i_prealloc_block := i_prealloc_block ip + 1, i_prealloc_count := i_prealloc_count ip - 1\<rparr>"
  shows "prealloc_run ip = insert (unat (i_prealloc_block ip)) (prealloc_run ip')"
    "unat (i_prealloc_block ip) \<notin> prealloc_run ip'" "prealloc_ok m ip'"
    "int32 (uint (i_prealloc_block ip)) = int (unat (i_prealloc_block ip))" "0 < unat (i_prealloc_block ip)"
proof -
  let ?b = "unat (i_prealloc_block ip)" and ?c = "unat (i_prealloc_count ip)"
  have geo: "geometry_ok (um_e2fs m)" using wf by (simp add: balloc_wf_def)
  have dr: "data_range (um_e2fs m) ?b ?c" "\<forall>x \<in> prealloc_run ip. block_used m x"
    using ok c by (simp_all add: prealloc_ok_def)
  have b31: "?b + ?c \<le> 2 ^ 31" "0 < ?b" using dr(1) geo by (auto simp: data_range_def geometry_ok_def)
  have c0: "0 < ?c" using c by (simp add: unat_gt_0)
  have u: "unat (i_prealloc_block ip + 1) = Suc ?b" "unat (i_prealloc_count ip - 1) = ?c - 1"
    using unat_plus_no_wrap [of "i_prealloc_block ip" 1] b31 c0 unat_minus_of_nat [of 1 "i_prealloc_count ip"] by simp_all
  show run: "prealloc_run ip = insert ?b (prealloc_run ip')" and "?b \<notin> prealloc_run ip'"
    using c0 by (auto simp: prealloc_run_def ip'_def u)
  show "prealloc_ok m ip'"
    using data_range_sub [OF dr(1), of 1 "?c - 1"] dr(2) run u c0
    by (cases "?c = 1") (auto simp: prealloc_ok_def ip'_def unat_eq_0 [symmetric])
  show "int32 (uint (i_prealloc_block ip)) = int ?b" "0 < ?b" using b31 c0 int32_int [of ?b] by simp_all
qed


lemma new_block_granted:
  assumes wf: "balloc_wf m" and ok: "prealloc_ok m ip" and f: "s_free_blocks_count (s_es (um_e2fs m)) \<noteq> 0"
    and miss: "\<not> prealloc_hit ip bpref"
  shows "\<exists>b ip' m'. alloc_block uninit m ip bpref = Some (Return (int b, ip', m')) \<and> block_granted m ip b ip' m' \<and>
    (\<exists>c n. ip' = ip\<lparr>i_prealloc_count := c, i_prealloc_block := n\<rparr>)"
proof -
  obtain m1 where m1: "ext2_discard_prealloc m ip = Return (ip\<lparr>i_prealloc_count := 0\<rparr>, m1)" "balloc_wf m1"
    "same_layout (um_e2fs m) (um_e2fs m1)" "used_blocks m1 = used_blocks m - prealloc_run ip" "blocks_frame m m1"
    "unat (s_free_blocks_count (s_es (um_e2fs m))) \<le> unat (s_free_blocks_count (s_es (um_e2fs m1)))"
    using discard_prealloc_ok [OF wf ok] by blast
  have f1: "s_free_blocks_count (s_es (um_e2fs m1)) \<noteq> 0" using f m1(6) by (auto simp: unat_eq_0)
  let ?want = "S_ISREG (i_mode ip)"
  obtain n pre m' b c where r: "ext2_new_block m1 (ulong bpref) ?want = Some (Return (n, pre, m'))" "balloc_wf m'"
    "n = int b" "pre = (if ?want then Some (c, b + 1) else None)" "allocated m1 b c m'" "\<not> ?want \<longrightarrow> c = 0"
    using new_block_ok [OF m1(2), of "ulong bpref" ?want] unfolding if_not_P [OF f1] by blast
  define ip' where "ip' = (if ?want then ip\<lparr>i_prealloc_count := of_nat c, i_prealloc_block := of_nat (b + 1)\<rparr>
     else ip\<lparr>i_prealloc_count := 0\<rparr>)"
  have a: "alloc_block uninit m ip bpref = Some (Return (int b, ip', m'))"
    using miss m1(1) r by (cases ?want) (simp_all add: alloc_block_def ip'_def)
  have sl: "same_layout (um_e2fs m1) (um_e2fs m')" using r(5) by (simp add: allocated_def Let_def)
  have bb: "0 < b" "first_data_block (um_e2fs m1) \<le> b" "b + c < blocks_count (um_e2fs m1)"
    "dtogd (um_e2fs m1) b + c < e2fs_bpg (um_e2fs m1)" using r(5) by (simp_all add: allocated_def Let_def)
  have "blocks_count (um_e2fs m1) < 2 ^ 32" using unsigned_less [of "s_blocks_count (s_es (um_e2fs m1))"] by simp
  then have "b + c < 2 ^ 32" using bb(3) by simp
  then have u: "unat (of_nat c :: u32) = c" "unat (of_nat (b + 1) :: u32) = b + 1 \<or> c = 0"
    using unat_of_nat_small [of c] unat_of_nat_small [of "b + 1"] by auto
  have run: "prealloc_run ip' = {b + 1..<b + 1 + c}"
    using u r(6) by (cases ?want) (auto simp: prealloc_run_def ip'_def)
  have un: "used_blocks m' = used_blocks m1 \<union> {b..b + c}" "{b..b + c} \<inter> used_blocks m1 = {}"
    using used_blocks_allocated [OF r(5)] allocated_fresh [OF r(5)] by simp_all
  have dr: "data_range (um_e2fs m') (b + 1) c" if "0 < c"
  proof -
    have "data_range (um_e2fs m1) b (Suc c)"
      using free_run_data_range [OF m1(2) bb(2,1), of "Suc c"] bb(3,4) un(2) r(5)
      by (auto simp: allocated_def Let_def)
    then have "data_range (um_e2fs m1) (b + 1) c" using data_range_sub [of "um_e2fs m1" b "Suc c" 1 c] that by simp
    then show ?thesis using data_range_layout [OF _ sl] m1(2) by (simp add: balloc_wf_def)
  qed
  have "prealloc_ok m' ip'"
    using dr u run un(1) r(6) by (cases "c = 0") (auto simp: prealloc_ok_iff ip'_def)
  moreover have fr: "\<forall>x. b \<le> x \<and> x \<le> b + c \<longrightarrow> x \<in> used_blocks m \<longrightarrow> x \<in> prealloc_run ip"
    using un(2) m1(4) by auto
  then have "held_blocks m' ip' = insert b (held_blocks m ip)" "b \<notin> held_blocks m ip"
    "prealloc_run ip' \<inter> (used_blocks m - prealloc_run ip) = {}"
    unfolding held_blocks_def un(1) run m1(4) by auto
  moreover have "same_layout (um_e2fs m) (um_e2fs m')" using m1(3) sl by (auto simp: same_layout_def)
  moreover have "blocks_frame m m'"
    using blocks_frame_trans [OF m1(5,3)] wf r(5) by (simp add: allocated_def Let_def balloc_wf_def)
  moreover have "first_data_block (um_e2fs m) \<le> b" "b < blocks_count (um_e2fs m)"
    using bb m1(3) by (auto simp: same_layout_def)
  ultimately have "block_granted m ip b ip' m'" using bb(1) r(2) run by (simp add: block_granted_def)
  moreover have "\<exists>c n. ip' = ip\<lparr>i_prealloc_count := c, i_prealloc_block := n\<rparr>"
  proof (cases ?want)
    case False
    then have "ip' = ip\<lparr>i_prealloc_count := 0, i_prealloc_block := i_prealloc_block ip\<rparr>" by (simp add: ip'_def)
    then show ?thesis by blast
  qed (auto simp: ip'_def)
  ultimately show ?thesis using a by blast
qed

lemma hit_granted:
  assumes wf: "balloc_wf m" and ok: "prealloc_ok m ip" and hit: "prealloc_hit ip bpref"
  shows "\<exists>b ip'. alloc_block uninit m ip bpref = Some (Return (int b, ip', m)) \<and> block_granted m ip b ip' m \<and>
    (\<exists>c n. ip' = ip\<lparr>i_prealloc_count := c, i_prealloc_block := n\<rparr>)"
proof -
  let ?b = "unat (i_prealloc_block ip)"
  let ?ip' = "ip\<lparr>i_prealloc_block := i_prealloc_block ip + 1, i_prealloc_count := i_prealloc_count ip - 1\<rparr>"
  have c: "i_prealloc_count ip \<noteq> 0" using hit by (simp add: prealloc_hit_def)
  note h = prealloc_hit_ok [OF wf ok c]
  have sub: "prealloc_run ip \<subseteq> used_blocks m" "data_range (um_e2fs m) ?b (unat (i_prealloc_count ip))"
    using ok c by (simp_all add: prealloc_ok_iff)
  have "block_granted m ip ?b ?ip' m"
    using h sub wf by (auto simp: block_granted_def held_blocks_def same_layout_refl blocks_frame_refl data_range_def)
  moreover have "alloc_block uninit m ip bpref = Some (Return (int ?b, ?ip', m))"
    using hit h(4) by (simp add: alloc_block_def)
  moreover have "?ip' = ip\<lparr>i_prealloc_count := i_prealloc_count ip - 1, i_prealloc_block := i_prealloc_block ip + 1\<rparr>" by simp
  ultimately show ?thesis by blast
qed

lemma alloc_granted:
  assumes wf: "balloc_wf m" and ok: "prealloc_ok m ip" and sz: "ulong sz = s_blocksize (um_e2fs m)"
  shows "\<exists>r ip' m'. ext2_alloc btodb uninit m ip lbn bpref sz uid = Some (Return (r, ip', m')) \<and>
    (if alloc_nospace (um_e2fs m) sz uid then r = Inl ENOSPC \<and> ip' = ip \<and> m' = m
     else \<exists>b. r = Inr (int b) \<and> block_granted m ip b ip' m' \<and>
       (\<exists>c n. ip' = ip\<lparr>i_prealloc_count := c, i_prealloc_block := n, i_next_alloc_block := word_of_int lbn,
         i_next_alloc_goal := of_nat b, i_blocks := int32 (i_blocks ip + btodb sz (s_d_blocksize (um_e2fs m'))),
         i_flag := i_flag ip OR 6\<rparr>))"
proof (cases "alloc_nospace (um_e2fs m) sz uid")
  case True
  then show ?thesis by (simp add: ext2_alloc_def)
next
  case False
  then have f: "s_free_blocks_count (s_es (um_e2fs m)) \<noteq> 0" using sz by (simp add: alloc_nospace_def)
  let ?p = "alloc_pref (um_e2fs m) bpref"
  have "\<exists>b ip1 m'. alloc_block uninit m ip ?p = Some (Return (int b, ip1, m')) \<and> block_granted m ip b ip1 m' \<and>
      (\<exists>c n. ip1 = ip\<lparr>i_prealloc_count := c, i_prealloc_block := n\<rparr>)"
    using new_block_granted [OF wf ok f, of ?p uninit] hit_granted [OF wf ok, of ?p uninit]
    by (cases "prealloc_hit ip ?p") blast+
  then obtain b m' c n where g: "alloc_block uninit m ip ?p = Some (Return (int b, ip\<lparr>i_prealloc_count := c, i_prealloc_block := n\<rparr>, m'))"
    "block_granted m ip b (ip\<lparr>i_prealloc_count := c, i_prealloc_block := n\<rparr>) m'" by blast
  let ?ip' = "ip\<lparr>i_prealloc_count := c, i_prealloc_block := n, i_next_alloc_block := word_of_int lbn,
         i_next_alloc_goal := of_nat b, i_blocks := int32 (i_blocks ip + btodb sz (s_d_blocksize (um_e2fs m'))),
         i_flag := i_flag ip OR 6\<rparr>"
  have "0 < b" using g(2) by (simp add: block_granted_def)
  then have e: "ext2_alloc btodb uninit m ip lbn bpref sz uid = Some (Return (Inr (int b), ?ip', m'))"
    using False g(1) by (simp add: ext2_alloc_def)
  have "block_granted m ip b ?ip' m'"
    using g(2) by (simp add: block_granted_def held_blocks_def prealloc_run_def prealloc_ok_def)
  then show ?thesis using False e by (auto)
qed


lemma blkfree_held:
  assumes wf: "balloc_wf m" and ok: "prealloc_ok m ip" and b: "data_range (um_e2fs m) b 1" "b \<notin> prealloc_run ip"
    and sz: "ulong sz = e2fs_fsize (um_e2fs m)" "0 < e2fs_fsize (um_e2fs m)"
  shows "\<exists>m'. ext2_blkfree m (int b) sz = Return m' \<and> balloc_wf m' \<and> prealloc_ok m' ip \<and>
    used_blocks m' = used_blocks m - {b} \<and> held_blocks m' ip = held_blocks m ip - {b} \<and>
    same_layout (um_e2fs m) (um_e2fs m') \<and> blocks_frame m m'"
proof -
  have geo: "geometry_ok (um_e2fs m)" using wf by (simp add: balloc_wf_def)
  have "b < 2 ^ 31" using b(1) geo by (auto simp: data_range_def geometry_ok_def)
  then have u: "ulong (int b) = b" by (intro ulong_id) simp
  obtain m' where m': "ext2_free_blocks m b 1 = Return m'" "freed m b 1 m'" "balloc_wf m'"
    using free_data_blocks [OF wf b(1)] by blast
  have us: "used_blocks m' = used_blocks m - {b}" using used_blocks_freed [OF m'(2)] by simp
  have sl: "same_layout (um_e2fs m) (um_e2fs m')" "blocks_frame m m'" using m'(2) by (simp_all add: freed_def Let_def)
  have "prealloc_ok m' ip" using ok us b(2) data_range_layout [OF geo sl(1)] by (auto simp: prealloc_ok_iff)
  then show ?thesis using m' us u sz sl by (auto simp: ext2_blkfree_def held_blocks_def)
qed

lemma granted_data_range:
  assumes wf: "balloc_wf m" and ok: "prealloc_ok m ip" and g: "block_granted m ip b ip' m'"
  shows "data_range (um_e2fs m') b 1"
proof -
  have geo: "geometry_ok (um_e2fs m)" using wf by (simp add: balloc_wf_def)
  have b: "0 < b" "first_data_block (um_e2fs m) \<le> b" "b < blocks_count (um_e2fs m)" "b \<notin> held_blocks m ip"
    and sl: "same_layout (um_e2fs m) (um_e2fs m')" using g by (simp_all add: block_granted_def)
  have "data_range (um_e2fs m) b 1"
  proof (cases "b \<in> prealloc_run ip")
    case True
    then have c: "i_prealloc_count ip \<noteq> 0" by (auto simp: prealloc_run_def)
    then have "data_range (um_e2fs m) (unat (i_prealloc_block ip)) (unat (i_prealloc_count ip))"
      using ok by (simp add: prealloc_ok_def)
    from data_range_sub [OF this, of "b - unat (i_prealloc_block ip)" 1] show ?thesis
      using True by (auto simp: prealloc_run_def)
  next
    case False
    then have "\<not> block_used m b" using b by (auto simp: held_blocks_def used_blocks_def)
    then show ?thesis using free_run_data_range [OF wf b(2,1), of 1] b(3) geometry_dtog(2) [OF geo b(2,3)] by simp
  qed
  then show ?thesis using data_range_layout [OF geo sl] by simp
qed

lemma blkpref_near_spec:
  "blkpref_near bap n = (if \<exists>i < n. bap ! i \<noteq> 0 then Some (bap ! (GREATEST i. i < n \<and> bap ! i \<noteq> 0)) else None)"
proof (induction n)
  case (Suc n)
  show ?case
  proof (cases "bap ! n = 0")
    case True
    then have "i < Suc n \<and> bap ! i \<noteq> 0 \<longleftrightarrow> i < n \<and> bap ! i \<noteq> 0" for i by (auto simp: less_Suc_eq)
    then show ?thesis using Suc True by simp
  next
    case False
    then have "(GREATEST i. i < Suc n \<and> bap ! i \<noteq> 0) = n" by (intro Greatest_equality) auto
    then show ?thesis using False by auto
  qed
qed simp

section \<open>Properties\<close>

lemma tiny_file_fields: "i_prealloc_count tiny_file = 0" "i_mode tiny_file = 0x81A4" "prealloc_ok m tiny_file"
  "prealloc_run tiny_file = {}" "i_block_group tiny_file = 0" "i_next_alloc_block tiny_file = 0"
  by (simp_all add: tiny_file_def tiny_dir_def prealloc_ok_def prealloc_run_def)

lemma tiny_alloc_ok: "\<not> alloc_nospace tiny_sb 32 0" "ulong 32 = s_blocksize tiny_sb"
  using ulong_id [of 32] by (simp_all add: alloc_nospace_def tiny_fields tiny_geom)

lemma tiny_pre_ok: "prealloc_ok tiny_mount tiny_pre"
proof -
  have "data_range tiny_sb 1 1" by (auto simp: data_range_def tiny_fields tiny_geom sys_zone_def tiny_gdesc tiny_zone)
  moreover have "block_used tiny_mount 1" by (simp add: block_used_def tiny_fields(5) tiny_geom tiny_bitmaps bm_bit_def)
  ultimately show ?thesis by (simp add: prealloc_ok_def tiny_pre_def prealloc_run_def tiny_fields)
qed

lemma tiny_alloc:
  "\<exists>bno ip' m'. ext2_alloc (\<lambda>n d. n div int d) (0, 0) tiny_mount tiny_file 0 4 32 0 = Some (Return (Inr bno, ip', m')) \<and>
     e2fs_fsize (um_e2fs m') = 32"
proof -
  have z: "ulong 32 = s_blocksize (um_e2fs tiny_mount)" using tiny_alloc_ok(2) by (simp add: tiny_fields)
  obtain b ip' m' where r: "ext2_alloc (\<lambda>n d. n div int d) (0, 0) tiny_mount tiny_file 0 4 32 0 = Some (Return (Inr (int b), ip', m'))"
    "block_granted tiny_mount tiny_file b ip' m'"
    using alloc_granted [OF tiny_fs_wf(2) tiny_file_fields(3) z, of "\<lambda>n d. n div int d" "(0, 0)" 0 4 0] tiny_alloc_ok(1)
    by (auto simp: tiny_fields)
  then have "blocks_frame tiny_mount m'" by (simp add: block_granted_def)
  then have "e2fs_fsize (um_e2fs m') = e2fs_fsize tiny_sb" by (auto simp: blocks_frame_def only_free_counts_def tiny_fields)
  then show ?thesis using r(1) by (auto simp: tiny_sb_def)
qed

text \<open>
  C14: \<^verbatim>\<open>ext2_alloc\<close> always returns and never panics. It fails with \<^verbatim>\<open>ENOSPC\<close>, changing
  nothing, exactly when no block is free or when another user than root would dip into
  the reserved blocks. Otherwise the block it returns was not held by any file: it was
  free or set aside for this inode; afterwards it is held, no other block has become held
  or unheld, and the run set aside for the inode consists of used data blocks again.
\<close>

theorem ext2_alloc_correct:
  assumes "balloc_wf m" "prealloc_ok m ip" "ulong sz = s_blocksize (um_e2fs m)"
  shows "\<exists>r ip' m'. ext2_alloc btodb uninit m ip lbn bpref sz uid = Some (Return (r, ip', m')) \<and>
     balloc_wf m' \<and> prealloc_ok m' ip' \<and>
     (if s_free_blocks_count (s_es (um_e2fs m)) = 0 \<or>
         uid \<noteq> 0 \<and> s_free_blocks_count (s_es (um_e2fs m)) < s_r_blocks_count (s_es (um_e2fs m))
      then r = Inl ENOSPC \<and> ip' = ip \<and> m' = m
      else \<exists>b. r = Inr (int b) \<and> 0 < b \<and> b \<notin> held_blocks m ip \<and>
        held_blocks m' ip' = insert b (held_blocks m ip) \<and>
        i_next_alloc_goal ip' = of_nat b \<and>
        i_blocks ip' = int32 (i_blocks ip + btodb sz (s_d_blocksize (um_e2fs m'))))"
proof -
  have ns: "alloc_nospace (um_e2fs m) sz uid \<longleftrightarrow> s_free_blocks_count (s_es (um_e2fs m)) = 0 \<or>
      uid \<noteq> 0 \<and> s_free_blocks_count (s_es (um_e2fs m)) < s_r_blocks_count (s_es (um_e2fs m))"
    using assms(3) by (simp add: alloc_nospace_def)
  obtain r ip' m' where e: "ext2_alloc btodb uninit m ip lbn bpref sz uid = Some (Return (r, ip', m'))"
    "if alloc_nospace (um_e2fs m) sz uid then r = Inl ENOSPC \<and> ip' = ip \<and> m' = m
     else \<exists>b. r = Inr (int b) \<and> block_granted m ip b ip' m' \<and>
       (\<exists>c n. ip' = ip\<lparr>i_prealloc_count := c, i_prealloc_block := n, i_next_alloc_block := word_of_int lbn,
         i_next_alloc_goal := of_nat b, i_blocks := int32 (i_blocks ip + btodb sz (s_d_blocksize (um_e2fs m'))),
         i_flag := i_flag ip OR 6\<rparr>)"
    using alloc_granted [OF assms, of btodb uninit lbn bpref uid] by blast
  show ?thesis
  proof (cases "alloc_nospace (um_e2fs m) sz uid")
    case True
    then show ?thesis unfolding ns [symmetric] using e assms by auto
  next
    case False
    then show ?thesis unfolding ns [symmetric] using e by (auto simp: block_granted_def)
  qed
qed

theorem ext2_alloc_correct_witness:
  "\<exists>b ip' m'. ext2_alloc (\<lambda>n d. n div int d) (0, 0) tiny_mount tiny_file 0 4 32 0 = Some (Return (Inr (int b), ip', m')) \<and>
     b \<notin> held_blocks tiny_mount tiny_file"
proof -
  have "ulong 32 = s_blocksize (um_e2fs tiny_mount)" using tiny_alloc_ok(2) by (simp add: tiny_fields)
  from ext2_alloc_correct [OF tiny_fs_wf(2) tiny_file_fields(3) this, of "\<lambda>n d. n div int d" "(0, 0)" 0 4 0]
  show ?thesis by (auto simp: tiny_fields tiny_geom)
qed

text \<open>
  C15: Allocating for one inode never touches the blocks set aside for another: their runs
  stay disjoint and the other run stays valid.
\<close>

theorem ext2_alloc_other_inode:
  assumes "balloc_wf m" "prealloc_ok m ip" "ulong sz = s_blocksize (um_e2fs m)"
    "prealloc_ok m jp" "prealloc_run ip \<inter> prealloc_run jp = {}"
    "ext2_alloc btodb uninit m ip lbn bpref sz uid = Some (Return (Inr bno, ip', m'))"
  shows "prealloc_ok m' jp \<and> prealloc_run ip' \<inter> prealloc_run jp = {} \<and> nat bno \<notin> prealloc_run jp"
proof -
  obtain b where b: "bno = int b" "block_granted m ip b ip' m'"
    using alloc_granted [OF assms(1-3), of btodb uninit lbn bpref uid] assms(6)
    by (auto split: if_splits)
  have g: "b \<notin> held_blocks m ip" "held_blocks m' ip' = insert b (held_blocks m ip)"
    "prealloc_run ip' \<inter> (used_blocks m - prealloc_run ip) = {}" "same_layout (um_e2fs m) (um_e2fs m')"
    using b(2) by (simp_all add: block_granted_def)
  have geo: "geometry_ok (um_e2fs m)" using assms(1) by (simp add: balloc_wf_def)
  have j: "prealloc_run jp \<subseteq> used_blocks m - prealloc_run ip"
    using assms(4,5) prealloc_run_empty [of jp] by (auto simp: prealloc_ok_iff)
  have "prealloc_run jp \<subseteq> used_blocks m'" using j g(2) by (auto simp: held_blocks_def)
  then have "prealloc_ok m' jp" using assms(4) data_range_layout [OF geo g(4)] by (auto simp: prealloc_ok_iff)
  moreover have "b \<notin> prealloc_run jp" using j g(1) by (auto simp: held_blocks_def)
  ultimately show ?thesis using j g(3) b(1) by auto
qed

theorem ext2_alloc_other_inode_witness:
  "\<exists>bno ip' m'. ext2_alloc (\<lambda>n d. n div int d) (0, 0) tiny_mount tiny_file 0 4 32 0 = Some (Return (Inr bno, ip', m')) \<and>
     prealloc_run tiny_pre = {1} \<and> prealloc_ok m' tiny_pre \<and> block_used m' 1 \<and> 1 \<notin> prealloc_run ip' \<and> nat bno \<noteq> 1"
proof -
  have z: "ulong 32 = s_blocksize (um_e2fs tiny_mount)" using tiny_alloc_ok(2) by (simp add: tiny_fields)
  have d: "prealloc_run tiny_file \<inter> prealloc_run tiny_pre = {}" "prealloc_run tiny_pre = {1}" "i_prealloc_count tiny_pre \<noteq> 0"
    by (simp_all add: tiny_pre_def prealloc_run_def tiny_file_fields)
  obtain bno ip' m' where r: "ext2_alloc (\<lambda>n d. n div int d) (0, 0) tiny_mount tiny_file 0 4 32 0 = Some (Return (Inr bno, ip', m'))"
    using tiny_alloc by blast
  note t = ext2_alloc_other_inode [OF tiny_fs_wf(2) tiny_file_fields(3) z tiny_pre_ok d(1) r]
  then have "block_used m' 1" using d(2,3) by (auto simp: prealloc_ok_def)
  then show ?thesis using r t d(2) by blast
qed

text \<open>
  C16: The block that \<^verbatim>\<open>ext2_alloc\<close> returned can be given back with \<^verbatim>\<open>ext2_blkfree\<close>: the
  held blocks are those from before, and the blocks set aside for the inode stay so.
\<close>

theorem ext2_alloc_blkfree_roundtrip:
  assumes "balloc_wf m" "prealloc_ok m ip" "ulong sz = s_blocksize (um_e2fs m)"
    "ext2_alloc btodb uninit m ip lbn bpref sz uid = Some (Return (Inr bno, ip', m'))"
    "ulong sz = e2fs_fsize (um_e2fs m')" "0 < e2fs_fsize (um_e2fs m')"
  shows "\<exists>m''. ext2_blkfree m' bno sz = Return m'' \<and> balloc_wf m'' \<and> prealloc_ok m'' ip' \<and>
     held_blocks m'' ip' = held_blocks m ip"
proof -
  obtain b where b: "bno = int b" "block_granted m ip b ip' m'"
    using alloc_granted [OF assms(1-3), of btodb uninit lbn bpref uid] assms(4)
    by (auto split: if_splits)
  have g: "b \<notin> held_blocks m ip" "held_blocks m' ip' = insert b (held_blocks m ip)" "b \<notin> prealloc_run ip'"
    "balloc_wf m'" "prealloc_ok m' ip'" using b(2) by (simp_all add: block_granted_def)
  show ?thesis
    using blkfree_held [OF g(4,5) granted_data_range [OF assms(1,2) b(2)] g(3) assms(5,6)] g(1,2) b(1) by auto
qed

theorem ext2_alloc_blkfree_roundtrip_witness:
  "\<exists>bno ip' m' m''. ext2_alloc (\<lambda>n d. n div int d) (0, 0) tiny_mount tiny_file 0 4 32 0 = Some (Return (Inr bno, ip', m')) \<and>
     ext2_blkfree m' bno 32 = Return m'' \<and> held_blocks m'' ip' = held_blocks tiny_mount tiny_file"
proof -
  have z: "ulong 32 = s_blocksize (um_e2fs tiny_mount)" using tiny_alloc_ok(2) by (simp add: tiny_fields)
  obtain bno ip' m' where r: "ext2_alloc (\<lambda>n d. n div int d) (0, 0) tiny_mount tiny_file 0 4 32 0 = Some (Return (Inr bno, ip', m'))"
    "e2fs_fsize (um_e2fs m') = 32"
    using tiny_alloc by blast
  have "ulong 32 = e2fs_fsize (um_e2fs m')" "0 < e2fs_fsize (um_e2fs m')" using r(2) ulong_id [of 32] by simp_all
  from ext2_alloc_blkfree_roundtrip [OF tiny_fs_wf(2) tiny_file_fields(3) z r(1) this] show ?thesis using r(1) by blast
qed


text \<open>
  \<^verbatim>\<open>ext2_discard_prealloc\<close> frees exactly the blocks set aside for the inode: no block
  that a file holds becomes free, and nothing is set aside any more.
\<close>

theorem ext2_discard_prealloc_correct:
  assumes "balloc_wf m" "prealloc_ok m ip"
  shows "\<exists>ip' m'. ext2_discard_prealloc m ip = Return (ip', m') \<and> balloc_wf m' \<and> prealloc_run ip' = {} \<and>
     held_blocks m' ip' = held_blocks m ip \<and> used_blocks m' = held_blocks m ip"
  using discard_prealloc_ok [OF assms] by (auto simp: held_blocks_def prealloc_run_def)

theorem ext2_discard_prealloc_correct_witness:
  "\<exists>ip' m'. ext2_discard_prealloc tiny_mount tiny_pre = Return (ip', m') \<and> prealloc_run ip' = {} \<and>
     used_blocks m' = held_blocks tiny_mount tiny_pre"
  using ext2_discard_prealloc_correct [OF tiny_fs_wf(2) tiny_pre_ok] by blast


text \<open>
  Without a sequential hint \<^verbatim>\<open>ext2_blkpref\<close> returns the nearest pointer before the
  index that is not a hole, else the block of the pointers, else the first block of the
  group of the inode.
\<close>

theorem ext2_blkpref_spec:
  assumes "i_next_alloc_block ip = 0 \<or> i_next_alloc_block ip \<noteq> word_of_int lbn"
  shows "ext2_blkpref fs ip lbn (int indx) (Some bap) blocknr =
    (if \<exists>i < indx. bap ! i \<noteq> 0 then bap ! (GREATEST i. i < indx \<and> bap ! i \<noteq> 0)
     else if blocknr \<noteq> 0 then blocknr
     else int32 (int32 (int (i_block_group ip * e2fs_bpg fs)) + int (first_data_block fs)))"
  using assms by (auto simp: ext2_blkpref_def blkpref_near_spec)

theorem ext2_blkpref_spec_witness:
  "ext2_blkpref tiny_sb tiny_file 3 (int 2) (Some (replicate 12 0)) 0 = 1"
proof -
  have n: "\<not> (\<exists>i < 2. replicate 12 (0::int) ! i \<noteq> 0)" by simp
  show ?thesis using ext2_blkpref_spec [of tiny_file 3 tiny_sb 2 "replicate 12 0" 0, unfolded if_not_P [OF n]]
    by (simp add: tiny_file_fields tiny_fields tiny_geom int32_id)
qed

text \<open>
  \<^verbatim>\<open>ext2_vfree\<close> does not look at the inode number it is asked to free: it frees the
  inode it is called on. Called on a directory that still has links, as \<^verbatim>\<open>ext2_valloc\<close>
  does when it must give back a new inode, it frees no inode at all.
\<close>

theorem ext2_vfree_ignores_ino:
  assumes "uint32 (int ino) \<le> e2fs_ipg (um_e2fs m) * s_groups_count (um_e2fs m)"
    "i_nlink pip \<noteq> 0" "i_prealloc_count pip = 0"
  shows "ext2_vfree m pip ino mode = Return (pip, m)"
  using assms by (simp add: ext2_vfree_def ext2_discard_prealloc_def ext2_free_inode_def)

theorem ext2_vfree_ignores_ino_witness:
  "ext2_vfree tiny_mount tiny_dir 12 0x81A4 = Return (tiny_dir, tiny_mount)"
  using ext2_vfree_ignores_ino [of 12 tiny_mount tiny_dir "0x81A4"] uint32_id [of 12]
  by (simp add: tiny_dir_def tiny_fields)

end
