(* ===== verification/Ext2_Bmap.thy ===== *)
theory Ext2_Bmap
  imports Ext2_Alloc
begin

text \<open>
  Logical to physical block numbers: \<^verbatim>\<open>ext2_getlbns\<close> and \<^verbatim>\<open>ext2_bmaparray\<close> of
  \<^verbatim>\<open>ext2_bmap.c\<close>.

  The buffers of a file's vnode are an argument of the model, like those of the device:
  \<open>v_ptrs\<close> is the array of block pointers that a read of an indirect block delivers, from the
  buffer when there is one in the cache and from the disk otherwise, \<open>v_disk\<close> is the array on
  the disk, \<open>v_valid\<close> tells which buffers are in the cache, \<open>v_err\<close> which reads
  fail and \<open>v_werr\<close> which synchronous writes fail. A vnode's buffers are addressed by
  logical block numbers, negative ones for indirect blocks.
\<close>

section \<open>Data\<close>

record indir =
  in_lbn :: int
  in_off :: int
  in_exists :: bool

record vbufs =
  v_ptrs :: "int \<Rightarrow> int list"
  v_disk :: "int \<Rightarrow> int list"
  v_valid :: "int \<Rightarrow> bool"
  v_err :: "int \<Rightarrow> errno option"
  v_werr :: "int \<Rightarrow> errno option"

section \<open>The path to a block\<close>

text \<open>
  The first loop of \<^verbatim>\<open>ext2_getlbns\<close>, with \<^verbatim>\<open>i\<close> as its argument: the value of \<^verbatim>\<open>i\<close>,
  \<^verbatim>\<open>blockcnt\<close> and \<^verbatim>\<open>bn\<close> at the \<^verbatim>\<open>break\<close>.
\<close>

fun getlbns_level :: "nat \<Rightarrow> nat \<Rightarrow> int \<Rightarrow> int \<Rightarrow> (nat \<times> int \<times> int) option" where
  "getlbns_level 0 nindir blockcnt bn = None"
| "getlbns_level (Suc i) nindir blockcnt bn =
     (let qblockcnt = blockcnt * int nindir in
      if bn < qblockcnt then Some (Suc i, blockcnt, bn)
      else let blockcnt = int32 qblockcnt in getlbns_level i nindir blockcnt (int32 (bn - blockcnt)))"

text \<open>The second loop, with the number of iterations left.\<close>

fun getlbns_path :: "nat \<Rightarrow> nat \<Rightarrow> int \<Rightarrow> int \<Rightarrow> int \<Rightarrow> int \<Rightarrow> indir list" where
  "getlbns_path 0 nindir realbn bn blockcnt metalbn = []"
| "getlbns_path (Suc k) nindir realbn bn blockcnt metalbn =
     (if metalbn = realbn then []
      else
        let off = (bn div blockcnt) mod int nindir in
        \<lparr>in_lbn = metalbn, in_off = off, in_exists = False\<rparr> #
          getlbns_path k nindir realbn bn (blockcnt div int nindir) (int32 (metalbn - (-1 + off * blockcnt))))"

definition ext2_getlbns :: "nat \<Rightarrow> int \<Rightarrow> errno + indir list" where
  "ext2_getlbns nindir realbn =
     (let bn = (if realbn < 0 then int32 (- realbn) else realbn) in
      if bn < 12 then Inr []
      else
        case getlbns_level 3 nindir 1 (bn - 12) of
          None \<Rightarrow> Inl EFBIG
        | Some (i, blockcnt, bn) \<Rightarrow>
            let metalbn = (if realbn \<ge> 0 then int32 (- (realbn - bn + 3 - int i))
                           else int32 (- (- realbn - bn + 3 - int i))) in
            Inr (\<lparr>in_lbn = metalbn, in_off = 3 - int i, in_exists = False\<rparr> #
              getlbns_path (4 - i) nindir realbn bn blockcnt metalbn))"

section \<open>Mapping\<close>

definition blkptrtodb :: "ext2mount \<Rightarrow> int \<Rightarrow> int" where
  "blkptrtodb ump b = int32 (b * 2 ^ um_bptrtodb ump)"

definition is_sequential :: "ext2mount \<Rightarrow> int \<Rightarrow> int \<Rightarrow> bool" where
  "is_sequential ump a b \<longleftrightarrow> ulong b = ulong (a + int (um_seqinc ump))"

text \<open>
  The two loops that measure a run in an array of pointers: forward from index \<open>bn\<close>, which
  is at most \<open>k\<close> before the end, and backward from index \<open>bn\<close>.
\<close>

fun run_forward :: "ext2mount \<Rightarrow> int list \<Rightarrow> nat \<Rightarrow> nat \<Rightarrow> nat \<Rightarrow> nat \<Rightarrow> nat" where
  "run_forward ump bap maxrun bn 0 runp = runp"
| "run_forward ump bap maxrun bn (Suc k) runp =
     (if runp < maxrun \<and> is_sequential ump (bap ! (bn - 1)) (bap ! bn)
      then run_forward ump bap maxrun (bn + 1) k (runp + 1) else runp)"

fun run_backward :: "ext2mount \<Rightarrow> int list \<Rightarrow> nat \<Rightarrow> nat \<Rightarrow> nat \<Rightarrow> nat" where
  "run_backward ump bap maxrun 0 runb = runb"
| "run_backward ump bap maxrun (Suc bn) runb =
     (if runb < maxrun \<and> is_sequential ump (bap ! bn) (bap ! (bn + 1))
      then run_backward ump bap maxrun bn (runb + 1) else runb)"

text \<open>
  The walk through the indirect blocks: the remaining entries, the pointer reached so far
  and the two run lengths; \<^verbatim>\<open>num == 1\<close> is the last entry. \<open>bn\<close> is the block looked for,
  which may itself be an indirect block. The loop overwrites \<^verbatim>\<open>bn\<close> only in its last turn.
\<close>

fun bmap_walk ::
    "ext2mount \<Rightarrow> vbufs \<Rightarrow> bool \<Rightarrow> bool \<Rightarrow> nat \<Rightarrow> int \<Rightarrow> indir list \<Rightarrow> int \<Rightarrow> errno + int \<times> nat \<times> nat" where
  "bmap_walk ump v runp runb maxrun bn [] daddr = Inr (daddr, 0, 0)"
| "bmap_walk ump v runp runb maxrun bn (a # ap) daddr =
     (if in_lbn a = bn then Inr (daddr, 0, 0)
      else if daddr = 0 \<and> \<not> v_valid v (in_lbn a) then Inr (daddr, 0, 0)
      else
        case (if v_valid v (in_lbn a) then None else v_err v (in_lbn a)) of
          Some error \<Rightarrow> Inl error
        | None \<Rightarrow>
            let bap = v_ptrs v (in_lbn a);
                off = nat (in_off a);
                daddr = bap ! off in
            if ap = [] then
              if daddr \<noteq> 0 \<and> runp then
                Inr (daddr, run_forward ump bap maxrun (off + 1) (um_nindir ump - (off + 1)) 0,
                     if runb \<and> off \<noteq> 0 then run_backward ump bap maxrun off 0 else 0)
              else Inr (daddr, 0, 0)
            else bmap_walk ump v runp runb maxrun bn ap daddr)"

text \<open>
  The whole routine. \<open>maxrun\<close> is computed from the I/O attributes of the host; \<open>runp\<close> and
  \<open>runb\<close> tell which of the two result pointers were given.
\<close>

definition ext2_bmaparray ::
    "ext2mount \<Rightarrow> vbufs \<Rightarrow> inode \<Rightarrow> bool \<Rightarrow> bool \<Rightarrow> nat \<Rightarrow> int \<Rightarrow> (errno + int \<times> nat \<times> nat) outcome" where
  "ext2_bmaparray ump v ip runp runb maxrun bn =
     (case ext2_getlbns (um_nindir ump) bn of
        Inl error \<Rightarrow> Return (Inl error)
      | Inr [] \<Rightarrow>
          if bn < 0 then Panic Wild_pointer
          else
            let i = nat bn; bnp = blkptrtodb ump (i_db ip ! i) in
            if bnp = 0 then Return (Inr (-1, 0, 0))
            else if runp then
              Return (Inr (bnp, run_forward ump (i_db ip) maxrun (i + 1) (12 - (i + 1)) 0,
                   if runb \<and> i > 0 then run_backward ump (i_db ip) maxrun i 0 else 0))
            else Return (Inr (bnp, 0, 0))
      | Inr (a # ap) \<Rightarrow>
          case bmap_walk ump v runp runb maxrun bn ap (i_ib ip ! nat (in_off a)) of
            Inl error \<Rightarrow> Return (Inl error)
          | Inr (daddr, rp, rb) \<Rightarrow>
              let bnp = blkptrtodb ump daddr in Return (Inr (if bnp = 0 then -1 else bnp, rp, rb)))"


section \<open>What a path is\<close>

text \<open>
  The tree of indirect blocks: \<open>level_base n k\<close> is the first block that needs \<open>k\<close> levels,
  and \<open>tree_path r n f rel\<close> the path through \<open>r\<close> levels to the block \<open>f + rel\<close>, where the
  indirect block on top covers the blocks from \<open>f\<close> on. An indirect block with \<open>r\<close> more
  levels below it has minus the number of its first data block, less \<open>r\<close>, as its own
  number.
\<close>

fun level_base :: "nat \<Rightarrow> nat \<Rightarrow> int" where
  "level_base n 0 = 11"
| "level_base n (Suc k) = level_base n k + int n ^ k"

fun tree_path :: "nat \<Rightarrow> nat \<Rightarrow> int \<Rightarrow> int \<Rightarrow> indir list" where
  "tree_path 0 n f rel = []"
| "tree_path (Suc r) n f rel =
     (let off = rel div int n ^ r in
      \<lparr>in_lbn = - (f + int r), in_off = off, in_exists = False\<rparr> # tree_path r n (f + off * int n ^ r) (rel mod int n ^ r))"

fun rel_of :: "nat \<Rightarrow> int list \<Rightarrow> int" where
  "rel_of n [] = 0"
| "rel_of n (x # xs) = x * int n ^ length xs + rel_of n xs"

definition top_indir :: "nat \<Rightarrow> nat \<Rightarrow> indir" where
  "top_indir n k = \<lparr>in_lbn = - (level_base n k + int k - 1), in_off = int k - 1, in_exists = False\<rparr>"

definition nindir_ok :: "nat \<Rightarrow> bool" where
  "nindir_ok n \<longleftrightarrow> 4 \<le> n \<and> n \<le> 2 ^ 15"

text \<open>
  The whole path of a data block, as \<open>ext2_getlbns\<close> returns it.
\<close>

definition data_path :: "nat \<Rightarrow> nat \<Rightarrow> int \<Rightarrow> indir list" where
  "data_path n k bn = top_indir n k # tree_path k n (level_base n k) (bn - level_base n k)"

text \<open>
  The pointer a file has for a block: 0 for a hole. \<open>ptr_walk\<close> follows a path from the
  pointer \<open>d\<close>; \<open>walk_ok\<close> says that the indirect blocks on the way can be read and that no
  buffer is cached for one that does not exist.
\<close>

fun ptr_walk :: "(int \<Rightarrow> int list) \<Rightarrow> int \<Rightarrow> indir list \<Rightarrow> int" where
  "ptr_walk ptrs d [] = d"
| "ptr_walk ptrs d (e # es) = (if d = 0 then 0 else ptr_walk ptrs (ptrs (in_lbn e) ! nat (in_off e)) es)"

fun walk_ok :: "vbufs \<Rightarrow> int \<Rightarrow> indir list \<Rightarrow> bool" where
  "walk_ok v d [] \<longleftrightarrow> True"
| "walk_ok v d (e # es) \<longleftrightarrow> (if d = 0 then \<not> v_valid v (in_lbn e)
     else (v_valid v (in_lbn e) \<or> v_err v (in_lbn e) = None) \<and> walk_ok v (v_ptrs v (in_lbn e) ! nat (in_off e)) es)"

definition file_ptr :: "nat \<Rightarrow> inode \<Rightarrow> (int \<Rightarrow> int list) \<Rightarrow> int \<Rightarrow> int" where
  "file_ptr n ip ptrs bn = (case ext2_getlbns n bn of Inl _ \<Rightarrow> 0 | Inr [] \<Rightarrow> i_db ip ! nat bn
     | Inr (a # es) \<Rightarrow> ptr_walk ptrs (i_ib ip ! nat (in_off a)) es)"

definition path_ok :: "nat \<Rightarrow> vbufs \<Rightarrow> inode \<Rightarrow> int \<Rightarrow> bool" where
  "path_ok n v ip bn \<longleftrightarrow> (case ext2_getlbns n bn of Inl _ \<Rightarrow> False | Inr [] \<Rightarrow> True
     | Inr (a # es) \<Rightarrow> walk_ok v (i_ib ip ! nat (in_off a)) es)"

text \<open>An array of block pointers as a consistent file system has it.\<close>

definition ptrs_ok :: "nat \<Rightarrow> int list \<Rightarrow> bool" where
  "ptrs_ok n bap \<longleftrightarrow> length bap = n \<and> (\<forall>p \<in> set bap. 0 \<le> p \<and> p < 2 ^ 31)"

text \<open>A file of three direct blocks and an indirect block with three more, for witnesses.\<close>

definition tiny_blocks :: inode where
  "tiny_blocks = tiny_file\<lparr>i_db := [9, 10, 11] @ replicate 9 0, i_ib := [40, 0, 0]\<rparr>"

definition tiny_vbufs :: vbufs where
  "tiny_vbufs = \<lparr>v_ptrs = (\<lambda>l. if l = -12 then [50, 51, 52, 0, 0, 0, 0, 0] else replicate 8 0),
     v_disk = (\<lambda>l. if l = -12 then [50, 51, 52, 0, 0, 0, 0, 0] else replicate 8 0),
     v_valid = (\<lambda>l. True), v_err = (\<lambda>l. None), v_werr = (\<lambda>l. None)\<rparr>"

section \<open>Lemmas\<close>

lemma length_tree_path [simp]: "length (tree_path r n f rel) = r"
  by (induction r arbitrary: f rel) (simp_all add: Let_def)

lemma nindir_bounds:
  assumes "nindir_ok n"
  shows "4 \<le> int n" "int n < 2 ^ 31" "int n * int n < 2 ^ 31"
proof -
  have "int n \<le> 2 ^ 15" using assms of_nat_mono [of n "2 ^ 15", where 'a = int] by (simp add: nindir_ok_def)
  then show "4 \<le> int n" "int n < 2 ^ 31" using assms by (simp_all add: nindir_ok_def)
  have "int n * int n \<le> 2 ^ 15 * 2 ^ 15" using assms by (intro mult_mono) (simp_all add: nindir_ok_def)
  then show "int n * int n < 2 ^ 31" by simp
qed

lemma getlbns_level_3:
  assumes "nindir_ok n" "0 \<le> r" "r < 2 ^ 31"
  shows "getlbns_level 3 n 1 r =
    (if r < int n then Some (3, 1, r)
     else if r < int n + int n ^ 2 then Some (2, int n, r - int n)
     else if r < int n + int n ^ 2 + int n ^ 3 then Some (1, int n ^ 2, r - int n - int n ^ 2) else None)"
proof -
  note b = nindir_bounds [OF assms(1)]
  have i1: "int32 (int n) = int n" using b by (intro int32_id) simp_all
  have "0 \<le> int n * int n" by simp
  then have i2: "int32 (int n * int n) = int n * int n" using b by (intro int32_id) linarith+
  have i3: "int n \<le> r \<Longrightarrow> int32 (r - int n) = r - int n" using assms b by (intro int32_id) simp_all
  have i4: "int n + int n * int n \<le> r \<Longrightarrow> int32 (r - int n - int n * int n) = r - int n - int n * int n"
    using assms b \<open>0 \<le> int n * int n\<close> by (intro int32_id) linarith+
  show ?thesis
    using i1 i2 i3 i4 by (simp add: numeral_3_eq_3 Let_def power2_eq_square)
qed

lemma mod_power_Suc:
  fixes x :: int
  assumes "0 < n"
  shows "x mod n ^ Suc q = (x div n ^ q) mod n * n ^ q + x mod n ^ q"
    "x mod n ^ Suc q div n ^ q = (x div n ^ q) mod n" "x mod n ^ Suc q mod n ^ q = x mod n ^ q"
proof -
  have e: "n ^ Suc q = n ^ q * n" by simp
  show a: "x mod n ^ Suc q = (x div n ^ q) mod n * n ^ q + x mod n ^ q"
    unfolding e using zmod_zmult2_eq [of n x "n ^ q"] assms by simp
  have p: "0 < n ^ q" "0 \<le> x mod n ^ q" "x mod n ^ q < n ^ q" using assms by simp_all
  show "x mod n ^ Suc q div n ^ q = (x div n ^ q) mod n" unfolding a using p assms by simp
  show "x mod n ^ Suc q mod n ^ q = x mod n ^ q" unfolding a using p by simp
qed

lemma power_ge_4: "4 \<le> (n :: int) \<Longrightarrow> q \<noteq> 0 \<Longrightarrow> 4 \<le> n ^ q"
  using self_le_power [of n q] by simp

lemma getlbns_path_step:
  fixes f REL :: int
  assumes n: "nindir_ok n" and f: "0 < f" "f + int n ^ Suc q \<le> 2 ^ 31" and q: "q \<le> 2"
  defines "off \<equiv> (REL div int n ^ q) mod int n"
  shows "0 \<le> off" "off < int n" "int32 (- (f + int q) - (-1 + off * int n ^ q)) = - (f + off * int n ^ q + int q - 1)"
    "f + off * int n ^ q + int n ^ q \<le> 2 ^ 31" "0 < f + off * int n ^ q"
proof -
  have n4: "4 \<le> int n" using nindir_bounds [OF n] by simp
  show o: "0 \<le> off" "off < int n" using n4 by (simp_all add: off_def)
  have p: "1 \<le> int n ^ q" using n4 by simp
  have "(off + 1) * int n ^ q \<le> int n * int n ^ q" using o p by (intro mult_right_mono) simp_all
  then show b: "f + off * int n ^ q + int n ^ q \<le> 2 ^ 31" using f(2) by (simp add: algebra_simps)
  have o0: "0 \<le> off * int n ^ q" using o p by simp
  then show "0 < f + off * int n ^ q" using f(1) by simp
  have "int q \<le> 2" using q by simp
  moreover have "q = 0 \<or> 4 \<le> int n ^ q"
    using power_ge_4 [OF n4] by blast
  ultimately have "off * int n ^ q + f + int q - 1 \<le> 2 ^ 31" using b by auto
  then show "int32 (- (f + int q) - (-1 + off * int n ^ q)) = - (f + off * int n ^ q + int q - 1)"
    using o0 f(1) by (subst int32_id) (simp_all add: algebra_simps)
qed

lemma getlbns_path_data:
  assumes n: "nindir_ok n" and b: "0 < f" "f + int n ^ r \<le> 2 ^ 31" and r: "r \<le> 3" and d: "0 \<le> realbn"
  shows "getlbns_path r n realbn REL (int n ^ (r - 1)) (- (f + int r - 1)) = tree_path r n f (REL mod int n ^ r)"
  using b r
proof (induction r arbitrary: f)
  case (Suc q)
  let ?off = "(REL div int n ^ q) mod int n"
  have n0: "0 < int n" using nindir_bounds [OF n] by simp
  note st = getlbns_path_step [OF n Suc.prems(1,2), of REL]
  have q: "q \<le> 2" using Suc.prems(3) by simp
  have dv: "int n ^ q div int n = int n ^ (q - 1)" if "q \<noteq> 0" using that n0 by (cases q) simp_all
  have "getlbns_path q n realbn REL (int n ^ q div int n) (int32 (- (f + int q) - (-1 + ?off * int n ^ q))) =
      tree_path q n (f + ?off * int n ^ q) (REL mod int n ^ q)"
    using Suc.IH [OF st(5,4) [OF q]] q st(3) [OF q] dv by (cases "q = 0") simp_all
  moreover have "- (f + int q) \<noteq> realbn" using d Suc.prems(1) by simp
  ultimately show ?case using mod_power_Suc(2,3) [OF n0, of REL q] by (simp add: Let_def)
qed simp

lemma getlbns_path_meta:
  assumes n: "nindir_ok n" and b: "0 < f" "f + int n ^ r \<le> 2 ^ 31" and r: "r \<le> 3" "s < r"
    and eq: "REL2 div int n ^ Suc s = REL div int n ^ Suc s"
  shows "getlbns_path r n (- (f + (REL mod int n ^ r - REL mod int n ^ Suc s) + int s)) REL2 (int n ^ (r - 1)) (- (f + int r - 1))
    = take (r - Suc s) (tree_path r n f (REL mod int n ^ r))"
  using b r
proof (induction r arbitrary: f)
  case (Suc q)
  show ?case
  proof (cases "s = q")
    case True
    then show ?thesis by simp
  next
    case False
    let ?off = "(REL div int n ^ q) mod int n" and ?T = "- (f + (REL mod int n ^ Suc q - REL mod int n ^ Suc s) + int s)"
    have n4: "4 \<le> int n" using nindir_bounds [OF n] by simp
    then have n0: "0 < int n" by simp
    have q: "q \<le> 2" "s < q" using Suc.prems False by simp_all
    obtain k where k: "q = Suc s + k" using q(2) less_iff_Suc_add by auto
    have e: "int n ^ q = int n ^ Suc s * int n ^ k" unfolding k by (simp add: power_add)
    have "REL2 div int n ^ q = (REL2 div int n ^ Suc s) div int n ^ k" "REL div int n ^ q = (REL div int n ^ Suc s) div int n ^ k"
      unfolding e by (simp_all only: zdiv_zmult2_eq zero_le_power of_nat_0_le_iff)
    then have off2: "REL2 div int n ^ q = REL div int n ^ q" using eq by simp
    note st = getlbns_path_step [OF n Suc.prems(1,2) q(1), of REL]
    have T: "?T = - (f + ?off * int n ^ q + (REL mod int n ^ q - REL mod int n ^ Suc s) + int s)"
      using mod_power_Suc(1) [OF n0, of REL q] by simp
    have "int n ^ Suc s dvd REL mod int n ^ Suc q - REL mod int n ^ Suc s"
    proof -
      have "int n ^ Suc s dvd int n ^ Suc q" using q(2) by (intro le_imp_power_dvd) simp
      then have "REL mod int n ^ Suc q mod int n ^ Suc s = REL mod int n ^ Suc s" by (rule mod_mod_cancel)
      then show ?thesis by (metis mod_eq_dvd_iff mod_mod_trivial)
    qed
    then obtain d where d: "REL mod int n ^ Suc q - REL mod int n ^ Suc s = int n ^ Suc s * d" by blast
    have "- (f + int q) \<noteq> ?T"
    proof
      assume "- (f + int q) = ?T"
      then have qd: "int q - int s = int n ^ Suc s * d" using d by simp
      have "4 \<le> int n ^ Suc s" using power_ge_4 [OF n4, of "Suc s"] by simp
      moreover have "0 < d"
      proof (rule ccontr)
        assume "\<not> 0 < d"
        then have "int n ^ Suc s * d \<le> 0" using n0 by (simp add: mult_nonneg_nonpos)
        then show False using qd q(2) by simp
      qed
      ultimately have "4 * 1 \<le> int n ^ Suc s * d" by (intro mult_mono) simp_all
      then show False using qd q by simp
    qed
    moreover have "getlbns_path q n ?T REL2 (int n ^ (q - 1)) (- (f + ?off * int n ^ q + int q - 1)) =
        take (q - Suc s) (tree_path q n (f + ?off * int n ^ q) (REL mod int n ^ q))"
      unfolding T by (rule Suc.IH [OF st(5,4)]) (use q in simp_all)
    moreover have "int n ^ q div int n = int n ^ (q - 1)" using q(2) n0 by (cases q) simp_all
    moreover have "Suc q - Suc s = Suc (q - Suc s)" using q(2) by simp
    ultimately show ?thesis using st(3) off2 mod_power_Suc(2,3) [OF n0, of REL q] by (simp add: Let_def)
  qed
qed simp


lemma level_base_1_4: "level_base n 1 = 12" "level_base n 2 = 12 + int n" "level_base n 3 = 12 + int n + int n ^ 2"
  "level_base n 4 = 12 + int n + int n ^ 2 + int n ^ 3"
  by (simp_all add: eval_nat_numeral)

lemma level_base_pos:
  assumes "k \<in> {1, 2, 3}"
  shows "12 \<le> level_base n k" "0 < level_base n k"
proof -
  show p: "12 \<le> level_base n k" using assms level_base_1_4 [of n] by auto
  show "0 < level_base n k" using p by simp
qed

lemma getlbns_level_cases:
  assumes n: "nindir_ok n" and b: "12 \<le> bn" "bn < 2 ^ 31"
  shows "level_base n 4 \<le> bn \<Longrightarrow> getlbns_level 3 n 1 (bn - 12) = None"
    "k \<in> {1, 2, 3} \<Longrightarrow> level_base n k \<le> bn \<Longrightarrow> bn < level_base n (Suc k) \<Longrightarrow>
      getlbns_level 3 n 1 (bn - 12) = Some (4 - k, int n ^ (k - 1), bn - level_base n k)"
proof -
  have L: "getlbns_level 3 n 1 (bn - 12) =
    (if bn - 12 < int n then Some (3, 1, bn - 12)
     else if bn - 12 < int n + int n ^ 2 then Some (2, int n, bn - 12 - int n)
     else if bn - 12 < int n + int n ^ 2 + int n ^ 3 then Some (1, int n ^ 2, bn - 12 - int n - int n ^ 2) else None)"
    using getlbns_level_3 [OF n, of "bn - 12"] b by simp
  have sq: "0 \<le> int n ^ 2" "0 \<le> int n ^ 3" "4 \<le> int n" using nindir_bounds [OF n] by simp_all
  show "level_base n 4 \<le> bn \<Longrightarrow> getlbns_level 3 n 1 (bn - 12) = None"
    using L sq unfolding level_base_1_4 by auto
  assume k: "k \<in> {1, 2, 3}" and lo: "level_base n k \<le> bn" and hi: "bn < level_base n (Suc k)"
  have up: "bn < level_base n k + int n ^ k" using hi by simp
  consider "k = 1" | "k = 2" | "k = 3" using k by blast
  then show "getlbns_level 3 n 1 (bn - 12) = Some (4 - k, int n ^ (k - 1), bn - level_base n k)"
  proof cases
    case 1
    then have "bn - 12 < int n" using up unfolding 1 level_base_1_4 by simp
    then show ?thesis using L unfolding 1 level_base_1_4 by simp
  next
    case 2
    then have "bn - 12 < int n + int n ^ 2" "\<not> bn - 12 < int n" using lo up unfolding 2 level_base_1_4 by simp_all
    then show ?thesis using L unfolding 2 level_base_1_4 by simp
  next
    case 3
    then have "bn - 12 < int n + int n ^ 2 + int n ^ 3" "\<not> bn - 12 < int n + int n ^ 2" "\<not> bn - 12 < int n"
      using lo up sq unfolding 3 level_base_1_4 by linarith+
    then show ?thesis using L unfolding 3 level_base_1_4 by simp
  qed
qed

lemma top_lbn_int32:
  assumes "nindir_ok n" "k \<in> {1, 2, 3}" "level_base n (Suc k) \<le> 2 ^ 31"
  shows "int32 (- (level_base n k + int k - 1)) = - (level_base n k + int k - 1)"
proof (rule int32_id)
  have n4: "4 \<le> int n" using nindir_bounds [OF assms(1)] by simp
  have "4 \<le> int n ^ k" "int k \<le> 3" using assms(2) power_ge_4 [OF n4, of k] by auto
  then show "- (2 ^ 31) \<le> - (level_base n k + int k - 1)" using assms(3) by simp
  show "- (level_base n k + int k - 1) < 2 ^ 31" using level_base_pos [OF assms(2), of n] by simp
qed

lemma getlbns_data:
  assumes n: "nindir_ok n" and b: "0 \<le> bn" "bn < 2 ^ 31"
  shows "bn < 12 \<Longrightarrow> ext2_getlbns n bn = Inr []"
    "level_base n 4 \<le> bn \<Longrightarrow> ext2_getlbns n bn = Inl EFBIG"
    "k \<in> {1, 2, 3} \<Longrightarrow> level_base n k \<le> bn \<Longrightarrow> bn < level_base n (Suc k) \<Longrightarrow>
      level_base n (Suc k) \<le> 2 ^ 31 \<Longrightarrow> ext2_getlbns n bn = Inr (data_path n k bn)"
proof -
  show "bn < 12 \<Longrightarrow> ext2_getlbns n bn = Inr []" using b by (simp add: ext2_getlbns_def)
  show "ext2_getlbns n bn = Inl EFBIG" if l: "level_base n 4 \<le> bn"
  proof -
    have "12 \<le> bn" using l unfolding level_base_1_4 by (rule order.trans [rotated]) simp
    then show ?thesis using getlbns_level_cases(1) [OF n _ b(2) l] by (simp add: ext2_getlbns_def)
  qed
  assume k: "k \<in> {1, 2, 3}" and lo: "level_base n k \<le> bn" and hi: "bn < level_base n (Suc k)" "level_base n (Suc k) \<le> 2 ^ 31"
  note pos = level_base_pos [OF k, of n]
  note i = top_lbn_int32 [OF n k hi(2)]
  have step: "level_base n (Suc k) = level_base n k + int n ^ k" by simp
  have l12: "12 \<le> bn" using pos lo by simp
  note lvl = getlbns_level_cases(2) [OF n l12 b(2) k lo hi(1)]
  have "getlbns_path k n bn (bn - level_base n k) (int n ^ (k - 1)) (- (level_base n k + int k - 1)) =
      tree_path k n (level_base n k) ((bn - level_base n k) mod int n ^ k)"
    using getlbns_path_data [OF n pos(2), of k bn "bn - level_base n k"] hi(2) step k b by auto
  then have p: "getlbns_path k n bn (bn - level_base n k) (int n ^ (k - 1)) (- (level_base n k + int k - 1)) =
      tree_path k n (level_base n k) (bn - level_base n k)" using lo hi(1) step by simp
  have e: "bn - (bn - level_base n k) + 3 - int (4 - k) = level_base n k + int k - 1" "3 - int (4 - k) = int k - 1" "4 - (4 - k) = k"
    using k by auto
  have "ext2_getlbns n bn = (let metalbn = int32 (- (bn - (bn - level_base n k) + 3 - int (4 - k))) in
      Inr (\<lparr>in_lbn = metalbn, in_off = 3 - int (4 - k), in_exists = False\<rparr> #
        getlbns_path (4 - (4 - k)) n bn (bn - level_base n k) (int n ^ (k - 1)) metalbn))"
    using lvl l12 b by (simp add: ext2_getlbns_def Let_def)
  then show "ext2_getlbns n bn = Inr (data_path n k bn)" unfolding e i Let_def p data_path_def top_indir_def .
qed

lemma tree_path_nth:
  assumes "j < r" "0 < n" "0 \<le> rel" "rel < int n ^ r"
  shows "in_lbn (tree_path r n f rel ! j) = - (f + (rel - rel mod int n ^ (r - j)) + int (r - Suc j)) \<and>
    in_off (tree_path r n f rel ! j) = rel mod int n ^ (r - j) div int n ^ (r - Suc j)"
  using assms(1,3,4)
proof (induction r arbitrary: f rel j)
  case (Suc q)
  show ?case
  proof (cases j)
    case 0
    then show ?thesis using Suc.prems by (simp add: Let_def)
  next
    case (Suc i)
    let ?off = "rel div int n ^ q"
    have p: "0 < int n ^ q" using assms(2) by simp
    have "int n ^ (q - i) dvd int n ^ q" by (intro le_imp_power_dvd) simp
    then have m: "rel mod int n ^ q mod int n ^ (q - i) = rel mod int n ^ (q - i)" by (rule mod_mod_cancel)
    have r: "f + ?off * int n ^ q + (rel mod int n ^ q - x) = f + (rel - x)" for x
      using div_mult_mod_eq [of rel "int n ^ q"] by linarith
    have "i < q" using Suc.prems(1) Suc by simp
    from Suc.IH [OF this, of "rel mod int n ^ q" "f + ?off * int n ^ q"] show ?thesis
      using p unfolding Suc by (simp add: Let_def m r)
  qed
qed simp

lemma getlbns_neg:
  assumes "12 \<le> x" "x < 2 ^ 31" "getlbns_level 3 n 1 (x - 12) = Some (i, bc, b)"
  shows "ext2_getlbns n (- x) = Inr (\<lparr>in_lbn = int32 (- (x - b + 3 - int i)), in_off = 3 - int i, in_exists = False\<rparr> #
     getlbns_path (4 - i) n (- x) b bc (int32 (- (x - b + 3 - int i))))"
  using assms int32_id [of x] by (simp add: ext2_getlbns_def Let_def)

lemma getlbns_meta:
  assumes n: "nindir_ok n" and k: "k \<in> {1, 2, 3}" "level_base n k \<le> bn" "bn < level_base n (Suc k)" "level_base n (Suc k) \<le> 2 ^ 31"
    and j: "j < k"
  shows "ext2_getlbns n (in_lbn (tree_path k n (level_base n k) (bn - level_base n k) ! j)) =
    Inr (top_indir n k # take j (tree_path k n (level_base n k) (bn - level_base n k)))"
proof -
  define s where "s = k - Suc j"
  define REL where "REL = bn - level_base n k"
  define REL2 where "REL2 = REL - REL mod int n ^ Suc s + int s"
  let ?lb = "level_base n k"
  have n4: "4 \<le> int n" using nindir_bounds [OF n] by simp
  note pos = level_base_pos [OF k(1), of n]
  have s: "s < k" "k - j = Suc s" "k - Suc j = s" "k - Suc s = j" using j by (auto simp: s_def)
  have step: "level_base n (Suc k) = ?lb + int n ^ k" by simp
  have R: "0 \<le> REL" "REL < int n ^ k" using k(2,3) step by (simp_all add: REL_def)
  have s3: "int s < int n ^ Suc s"
    using s(1) k(1) power_ge_4 [OF n4, of "Suc s"] by auto
  have mlo: "0 \<le> REL - REL mod int n ^ Suc s" using R(1) n4 by (simp add: zmod_le_nonneg_dividend)
  have d2: "REL2 div int n ^ Suc s = REL div int n ^ Suc s"
  proof -
    have "REL2 = REL div int n ^ Suc s * int n ^ Suc s + int s"
      unfolding REL2_def using div_mult_mod_eq [of REL "int n ^ Suc s"] by linarith
    then show ?thesis using s3 n4 by simp
  qed
  have "int n ^ Suc s dvd int n ^ k" using s(1) by (intro le_imp_power_dvd) simp
  then obtain c where c: "int n ^ k = int n ^ Suc s * c" by blast
  have R2: "0 \<le> REL2" "REL2 < int n ^ k"
  proof -
    show "0 \<le> REL2" using mlo by (simp add: REL2_def)
    let ?N = "int n ^ Suc s"
    have N: "0 < ?N" using n4 by simp
    have m: "x div ?N * ?N \<le> x" "x < (x div ?N + 1) * ?N" for x
    proof -
      have "x mod ?N < ?N" "0 \<le> x mod ?N" using N by simp_all
      then show "x div ?N * ?N \<le> x" "x < (x div ?N + 1) * ?N"
        using div_mult_mod_eq [of x ?N] unfolding distrib_right by linarith+
    qed
    have "REL div ?N < c"
    proof (rule ccontr)
      assume "\<not> REL div ?N < c"
      then have "c * ?N \<le> REL div ?N * ?N" using N by (intro mult_right_mono) linarith+
      then show False using m(1) [of REL] R(2) c by (simp add: mult.commute)
    qed
    then have "(REL2 div ?N + 1) * ?N \<le> c * ?N" unfolding d2 using N by (intro mult_right_mono) linarith+
    then show "REL2 < int n ^ k" using m(2) [of REL2] c by (simp only: mult.commute)
  qed
  have L: "in_lbn (tree_path k n ?lb REL ! j) = - (?lb + (REL - REL mod int n ^ Suc s) + int s)"
    using tree_path_nth [OF j _ R, of ?lb] n4 s by simp
  have L2: "in_lbn (tree_path k n ?lb REL ! j) = - (?lb + REL2)" unfolding L by (simp add: REL2_def)
  have bound: "?lb + REL2 < 2 ^ 31" "12 \<le> ?lb + REL2" "?lb \<le> ?lb + REL2" "?lb + REL2 < level_base n (Suc k)"
    using R2 k(4) step pos by linarith+
  note lvl = getlbns_level_cases(2) [OF n bound(2,1) k(1) bound(3,4)]
  have p: "getlbns_path k n (- (?lb + REL2)) REL2 (int n ^ (k - 1)) (- (?lb + int k - 1)) = take j (tree_path k n ?lb REL)"
  proof -
    have k3: "k \<le> 3" using k(1) by auto
    have r: "REL mod int n ^ k = REL" using R by simp
    have t: "- (?lb + (REL - REL mod int n ^ Suc s) + int s) = - (?lb + REL2)" by (simp add: REL2_def)
    have "?lb + int n ^ k \<le> 2 ^ 31" using k(4) step by simp
    from getlbns_path_meta [OF n pos(2) this k3 s(1) d2] show ?thesis unfolding r t s(4) .
  qed
  have e: "?lb + REL2 - REL2 + 3 - int (4 - k) = ?lb + int k - 1" "3 - int (4 - k) = int k - 1" "4 - (4 - k) = k"
    "?lb + REL2 - ?lb = REL2"
    using k(1) by auto
  from getlbns_neg [OF bound(2,1) lvl] show ?thesis
    unfolding REL_def [symmetric] L2 e top_lbn_int32 [OF n k(1,4)] p top_indir_def .
qed


lemma rel_of_tree_path:
  assumes "0 < n" "0 \<le> rel" "rel < int n ^ r"
  shows "rel_of n (map in_off (tree_path r n f rel)) = rel"
  using assms(2,3)
proof (induction r arbitrary: f rel)
  case (Suc r)
  have "rel_of n (map in_off (tree_path r n (f + rel div int n ^ r * int n ^ r) (rel mod int n ^ r))) = rel mod int n ^ r"
    using assms(1) by (intro Suc.IH) simp_all
  then show ?case using div_mult_mod_eq [of rel "int n ^ r"] by (simp only: tree_path.simps Let_def list.map rel_of.simps
      indir.select_convs length_map length_tree_path)
qed simp

lemma tree_path_off_range:
  assumes "0 < n" "0 \<le> rel" "rel < int n ^ r" "e \<in> set (tree_path r n f rel)"
  shows "0 \<le> in_off e \<and> in_off e < int n"
  using assms(2-)
proof (induction r arbitrary: f rel)
  case (Suc r)
  have p: "0 < int n ^ r" using assms(1) by simp
  have "rel div int n ^ r < int n"
  proof (rule ccontr)
    assume "\<not> rel div int n ^ r < int n"
    then have "int n * int n ^ r \<le> rel div int n ^ r * int n ^ r" using p by (intro mult_right_mono) simp_all
    also have "\<dots> \<le> rel" using div_mult_mod_eq [of rel "int n ^ r"] pos_mod_sign [OF p, of rel] by linarith
    finally show False using Suc.prems(2) by simp
  qed
  moreover have "0 \<le> rel div int n ^ r" using Suc.prems(1) p by (simp add: pos_imp_zdiv_nonneg_iff)
  ultimately show ?case using Suc.IH [of "rel mod int n ^ r"] Suc.prems(3) p by (auto simp: Let_def)
qed simp

lemma tree_path_lbn_neg: "0 < f \<Longrightarrow> 0 < n \<Longrightarrow> 0 \<le> rel \<Longrightarrow> e \<in> set (tree_path r n f rel) \<Longrightarrow> in_lbn e < 0"
proof (induction r arbitrary: f rel)
  case (Suc r)
  have "0 \<le> rel div int n ^ r * int n ^ r" using Suc.prems by (simp add: pos_imp_zdiv_nonneg_iff)
  then have "0 < f + rel div int n ^ r * int n ^ r" "0 \<le> rel mod int n ^ r" using Suc.prems by simp_all
  from Suc.IH [OF this(1) Suc.prems(2) this(2)] show ?case using Suc.prems by (auto simp: Let_def)
qed simp

lemma mult_add_div_mod:
  fixes N :: int
  assumes "0 < N" "0 \<le> x" "x < N"
  shows "(a * N + x) div N = a" "(a * N + x) mod N = x"
  using assms by simp_all

lemma tree_path_shift:
  assumes "0 < n" "0 \<le> rel" "0 \<le> t" "rel mod int n + t < int n"
  shows "\<exists>es e. tree_path (Suc r) n f rel = es @ [e] \<and> tree_path (Suc r) n f (rel + t) = es @ [e\<lparr>in_off := in_off e + t\<rparr>] \<and>
     (r = 0 \<or> in_off e = rel mod int n) \<and> (r = 0 \<longrightarrow> in_off e = rel)"
  using assms(2,4)
proof (induction r arbitrary: f rel)
  case 0
  then show ?case by simp
next
  case (Suc r)
  let ?N = "int n ^ Suc r"
  have p: "0 < ?N" using assms(1) by simp
  have m: "rel mod ?N mod int n = rel mod int n" by (simp add: mod_mod_cancel)
  have lt: "rel mod ?N + t < ?N"
  proof -
    have "rel mod ?N = (rel div int n) mod int n ^ r * int n + rel mod int n"
      using zmod_zmult2_eq [of "int n ^ r" rel "int n"] by (simp add: mult.commute)
    moreover have "(rel div int n) mod int n ^ r + 1 \<le> int n ^ r" using pos_mod_bound [of "int n ^ r" "rel div int n"] assms(1) by (simp only: zero_less_power of_nat_0_less_iff zless_imp_add1_zle)
    then have "((rel div int n) mod int n ^ r + 1) * int n \<le> int n ^ r * int n" by (intro mult_right_mono) simp_all
    ultimately show ?thesis using Suc.prems(2) by (simp add: algebra_simps)
  qed
  have "(rel + t) div ?N = rel div ?N" "(rel + t) mod ?N = rel mod ?N + t"
  proof -
    have nn: "0 \<le> rel mod ?N + t" using p assms(3) by (simp add: add_nonneg_nonneg)
    have e: "rel + t = rel div ?N * ?N + (rel mod ?N + t)" using div_mult_mod_eq [of rel ?N] by linarith
    show "(rel + t) div ?N = rel div ?N" "(rel + t) mod ?N = rel mod ?N + t"
      unfolding e using mult_add_div_mod [OF p nn lt, of "rel div ?N"] by simp_all
  qed
  note dm = this
  obtain es e where "tree_path (Suc r) n (f + rel div ?N * ?N) (rel mod ?N) = es @ [e]"
    "tree_path (Suc r) n (f + rel div ?N * ?N) (rel mod ?N + t) = es @ [e\<lparr>in_off := in_off e + t\<rparr>]"
    "in_off e = rel mod int n"
    using Suc.IH [of "rel mod ?N" "f + rel div ?N * ?N"] Suc.prems p m by (cases "r = 0") auto
  then show ?case unfolding tree_path.simps(2) [of "Suc r"] Let_def dm by auto
qed


section \<open>The map of a file\<close>

lemma ptr_walk_0 [simp]: "ptr_walk ptrs 0 es = 0"
  by (cases es) simp_all

lemma ptr_walk_append: "ptr_walk ptrs d (es @ fs) = ptr_walk ptrs (ptr_walk ptrs d es) fs"
  by (induction es arbitrary: d) simp_all

lemma bmap_walk_ptr:
  assumes "walk_ok v d es" "\<forall>e \<in> set es. in_lbn e \<noteq> bn"
  shows "\<exists>rp rb. bmap_walk ump v runp runb maxrun bn es d = Inr (ptr_walk (v_ptrs v) d es, rp, rb)"
  using assms
proof (induction es arbitrary: d)
  case (Cons e es)
  let ?d = "v_ptrs v (in_lbn e) ! nat (in_off e)"
  show ?case
  proof (cases "d = 0")
    case False
    then have "(if v_valid v (in_lbn e) then None else v_err v (in_lbn e)) = None" "walk_ok v ?d es" using Cons.prems(1) by auto
    then show ?thesis using Cons.IH [of ?d] Cons.prems(2) False by (cases es) (auto simp: Let_def)
  qed (use Cons.prems in auto)
qed simp

lemma data_path_off_nonneg: "1 \<le> k \<Longrightarrow> k \<le> 3 \<Longrightarrow> nat (in_off (top_indir n k)) = k - 1"
  by (simp add: top_indir_def nat_diff_distrib)

text \<open>The three cases of a block number of a file.\<close>

lemma block_cases:
  assumes "nindir_ok n" "0 \<le> bn" "bn < 2 ^ 31" "level_base n 4 \<le> 2 ^ 31"
  obtains (direct) "bn < 12" "ext2_getlbns n bn = Inr []"
  | (indirect) k where "k \<in> {1, 2, 3}" "level_base n k \<le> bn" "bn < level_base n (Suc k)" "level_base n (Suc k) \<le> 2 ^ 31"
      "ext2_getlbns n bn = Inr (data_path n k bn)"
  | (big) "level_base n 4 \<le> bn" "ext2_getlbns n bn = Inl EFBIG"
proof -
  note g = getlbns_data [OF assms(1-3)]
  have l: "level_base n 1 \<le> level_base n 2" "level_base n 2 \<le> level_base n 3" "level_base n 3 \<le> level_base n 4"
    by (simp_all only: level_base_1_4) simp_all
  have S: "Suc 1 = 2" "Suc 2 = 3" "Suc 3 = 4" by simp_all
  consider "bn < 12" | "12 \<le> bn" "bn < level_base n 2" | "level_base n 2 \<le> bn" "bn < level_base n 3"
    | "level_base n 3 \<le> bn" "bn < level_base n 4" | "level_base n 4 \<le> bn" by linarith
  then show ?thesis
  proof cases
    case 2
    then have h: "level_base n 1 \<le> bn" "bn < level_base n 2" "level_base n 2 \<le> 2 ^ 31" using l assms(4) level_base_1_4(1) [of n] by linarith+
    show ?thesis by (rule indirect [of 1, unfolded S, OF _ h g(3) [of 1, unfolded S, OF _ h]]) simp_all
  next
    case 3
    then have h: "level_base n 2 \<le> bn" "bn < level_base n 3" "level_base n 3 \<le> 2 ^ 31" using l assms(4) by linarith+
    show ?thesis by (rule indirect [of 2, unfolded S, OF _ h g(3) [of 2, unfolded S, OF _ h]]) simp_all
  next
    case 4
    show ?thesis by (rule indirect [of 3, unfolded S, OF _ 4 assms(4) g(3) [of 3, unfolded S, OF _ 4 assms(4)]]) simp_all
  next
    case 1
    show ?thesis by (rule direct [OF 1 g(1) [OF 1]])
  next
    case 5
    show ?thesis by (rule big [OF 5 g(2) [OF 5]])
  qed
qed


lemma bmaparray_ptr:
  assumes n: "nindir_ok (um_nindir ump)" "level_base (um_nindir ump) 4 \<le> 2 ^ 31" and b: "0 \<le> bn" "bn < 2 ^ 31"
    and ok: "path_ok (um_nindir ump) v ip bn"
  shows "\<exists>rp rb. ext2_bmaparray ump v ip runp runb maxrun bn =
    Return (Inr (let b = blkptrtodb ump (file_ptr (um_nindir ump) ip (v_ptrs v) bn) in if b = 0 then -1 else b, rp, rb))"
  using n(1) b n(2)
proof (cases rule: block_cases)
  case direct
  then show ?thesis using b by (simp add: ext2_bmaparray_def file_ptr_def Let_def)
next
  case (indirect k)
  let ?es = "tree_path k (um_nindir ump) (level_base (um_nindir ump) k) (bn - level_base (um_nindir ump) k)"
  let ?d = "i_ib ip ! nat (in_off (top_indir (um_nindir ump) k))"
  have "\<forall>e \<in> set ?es. in_lbn e \<noteq> bn"
  proof
    fix e assume e: "e \<in> set ?es"
    have "in_lbn e < 0" by (rule tree_path_lbn_neg [OF level_base_pos(2) [OF indirect(1)] _ _ e]) (use n(1) indirect(2) in \<open>simp_all add: nindir_ok_def\<close>)
    then show "in_lbn e \<noteq> bn" using b by simp
  qed
  moreover have "walk_ok v ?d ?es" using ok indirect(5) by (simp add: path_ok_def data_path_def)
  ultimately obtain rp rb where "bmap_walk ump v runp runb maxrun bn ?es ?d = Inr (ptr_walk (v_ptrs v) ?d ?es, rp, rb)"
    using bmap_walk_ptr by blast
  then show ?thesis using indirect(5) by (auto simp: ext2_bmaparray_def file_ptr_def data_path_def Let_def)
next
  case big
  then show ?thesis using ok by (simp add: path_ok_def)
qed

lemma is_sequential_iff:
  assumes "0 \<le> a" "a < 2 ^ 31" "0 \<le> b" "b < 2 ^ 31" "um_seqinc ump < 2 ^ 31"
  shows "is_sequential ump a b \<longleftrightarrow> b = a + int (um_seqinc ump)"
proof -
  have "ulong b = nat b" "ulong (a + int (um_seqinc ump)) = nat (a + int (um_seqinc ump))"
    using ulong_id [of "nat b"] ulong_id [of "nat (a + int (um_seqinc ump))"] assms by simp_all
  then show ?thesis using assms by (auto simp: is_sequential_def nat_eq_iff2)
qed

lemma run_forward_run:
  assumes "ptrs_ok n bap" "um_seqinc ump < 2 ^ 31" "0 < bn" "bn + k \<le> n"
  shows "r \<le> (run_forward ump bap maxrun bn k r) \<and> (run_forward ump bap maxrun bn k r) - r \<le> k \<and> (\<forall>t \<le> (run_forward ump bap maxrun bn k r) - r. bap ! (bn - 1 + t) = bap ! (bn - 1) + int t * int (um_seqinc ump))"
  using assms(3,4)
proof (induction k arbitrary: bn r)
  case (Suc k)
  let ?s = "int (um_seqinc ump)"
  show ?case
  proof (cases "r < maxrun \<and> is_sequential ump (bap ! (bn - 1)) (bap ! bn)")
    case True
    let ?r = "run_forward ump bap maxrun (bn + 1) k (r + 1)"
    have IH: "r + 1 \<le> ?r" "?r - (r + 1) \<le> k" "\<forall>t \<le> ?r - (r + 1). bap ! (bn + 1 - 1 + t) = bap ! (bn + 1 - 1) + int t * ?s"
      using Suc.IH [of "bn + 1" "r + 1"] Suc.prems by auto
    have "bn - 1 < n" "bn < n" using Suc.prems by simp_all
    then have "0 \<le> bap ! (bn - 1) \<and> bap ! (bn - 1) < 2 ^ 31" "0 \<le> bap ! bn \<and> bap ! bn < 2 ^ 31"
      using assms(1) by (simp_all add: ptrs_ok_def)
    then have st: "bap ! bn = bap ! (bn - 1) + ?s" using True assms(2) by (simp add: is_sequential_iff)
    have "bap ! (bn - 1 + t) = bap ! (bn - 1) + int t * ?s" if t: "t \<le> ?r - r" for t
    proof (cases t)
      case (Suc u)
      then have "bap ! (bn + u) = bap ! bn + int u * ?s" using IH(1,3) t by simp
      moreover have "bn - 1 + Suc u = bn + u" using Suc.prems by simp
      ultimately show ?thesis using st Suc by (simp add: algebra_simps)
    qed simp
    then show ?thesis using IH(1,2) True by simp
  next
    case False
    then show ?thesis by auto
  qed
qed simp

lemma run_backward_run:
  assumes "ptrs_ok n bap" "um_seqinc ump < 2 ^ 31" "bn < n"
  shows "r \<le> (run_backward ump bap maxrun bn r) \<and> (run_backward ump bap maxrun bn r) - r \<le> bn \<and> (\<forall>t \<le> (run_backward ump bap maxrun bn r) - r. bap ! (bn - t) = bap ! bn - int t * int (um_seqinc ump))"
  using assms(3)
proof (induction bn arbitrary: r)
  case (Suc bn)
  let ?s = "int (um_seqinc ump)"
  show ?case
  proof (cases "r < maxrun \<and> is_sequential ump (bap ! bn) (bap ! (bn + 1))")
    case True
    let ?r = "run_backward ump bap maxrun bn (r + 1)"
    have IH: "r + 1 \<le> ?r" "?r - (r + 1) \<le> bn" "\<forall>t \<le> ?r - (r + 1). bap ! (bn - t) = bap ! bn - int t * ?s"
      using Suc.IH [of "r + 1"] Suc.prems by auto
    have "0 \<le> bap ! bn \<and> bap ! bn < 2 ^ 31" "0 \<le> bap ! (bn + 1) \<and> bap ! (bn + 1) < 2 ^ 31"
      using assms(1) Suc.prems by (simp_all add: ptrs_ok_def)
    then have st: "bap ! Suc bn = bap ! bn + ?s" using True assms(2) by (simp add: is_sequential_iff)
    have "bap ! (Suc bn - t) = bap ! Suc bn - int t * ?s" if t: "t \<le> ?r - r" for t
    proof (cases t)
      case (Suc u)
      then have "bap ! (bn - u) = bap ! bn - int u * ?s" using IH(1,3) t by simp
      then show ?thesis using st Suc by (simp add: algebra_simps)
    qed simp
    then show ?thesis using IH(1,2) True by simp
  next
    case False
    then show ?thesis by auto
  qed
qed simp

lemma bmap_walk_run:
  assumes "walk_ok v d (es @ [e])" "\<forall>x \<in> set (es @ [e]). in_lbn x \<noteq> bn"
    "ptr_walk (v_ptrs v) d (es @ [e]) \<noteq> 0"
  defines "bap \<equiv> v_ptrs v (in_lbn e)" and "off \<equiv> nat (in_off e)"
  shows "bmap_walk ump v True runb maxrun bn (es @ [e]) d = Inr (bap ! off,
    run_forward ump bap maxrun (off + 1) (um_nindir ump - (off + 1)) 0,
    if runb \<and> off \<noteq> 0 then run_backward ump bap maxrun off 0 else 0)"
  using assms(1-3) unfolding bap_def off_def
proof (induction es arbitrary: d)
  case Nil
  then show ?case by (auto simp: Let_def split: if_splits)
next
  case (Cons x es)
  then have d: "d \<noteq> 0" by (auto split: if_splits)
  let ?d = "v_ptrs v (in_lbn x) ! nat (in_off x)"
  have "(if v_valid v (in_lbn x) then None else v_err v (in_lbn x)) = None" "walk_ok v ?d (es @ [e])"
    "ptr_walk (v_ptrs v) ?d (es @ [e]) \<noteq> 0" using Cons.prems d by auto
  then show ?case using Cons.IH [of ?d] Cons.prems(2) d by (simp add: Let_def)
qed

text \<open>Blocks next to a block have the same path but for the last offset.\<close>

lemma rel_add_less:
  assumes "0 < n" "0 \<le> rel" "rel < int n ^ Suc q" "rel mod int n + t < int n"
  shows "rel + t < int n ^ Suc q"
proof -
  let ?x = "rel div int n"
  have "?x < int n ^ q"
  proof (rule ccontr)
    assume "\<not> ?x < int n ^ q"
    then have "int n ^ q * int n \<le> ?x * int n" by (intro mult_right_mono) simp_all
    also have "\<dots> \<le> rel" using div_mult_mod_eq [of rel "int n"] pos_mod_sign [of "int n" rel] assms(1) by linarith
    finally show False using assms(3) by (simp add: mult.commute)
  qed
  then have "(?x + 1) * int n \<le> int n ^ q * int n" by (intro mult_right_mono) simp_all
  then have "?x * int n + int n \<le> int n ^ Suc q" unfolding distrib_right power_Suc2 by simp
  then show ?thesis using div_mult_mod_eq [of rel "int n"] assms(4) by linarith
qed

lemma file_ptr_near:
  assumes n: "nindir_ok n" and k: "k \<in> {1, 2, 3}" "level_base n k \<le> bn" "bn < level_base n (Suc k)" "level_base n (Suc k) \<le> 2 ^ 31"
    and t: "(bn - level_base n k) mod int n + int t < int n"
  shows "\<exists>es e. data_path n k bn = top_indir n k # es @ [e] \<and> in_off e = (bn - level_base n k) mod int n \<and>
     data_path n k (bn + int t) = top_indir n k # es @ [e\<lparr>in_off := in_off e + int t\<rparr>] \<and>
     (let hole = ptr_walk ptrs (i_ib ip ! nat (in_off (top_indir n k))) es = 0 in
      file_ptr n ip ptrs bn = (if hole then 0 else ptrs (in_lbn e) ! nat (in_off e)) \<and>
      file_ptr n ip ptrs (bn + int t) = (if hole then 0 else ptrs (in_lbn e) ! (nat (in_off e) + t)))"
proof -
  let ?lb = "level_base n k" let ?rel = "bn - ?lb"
  let ?d = "ptr_walk ptrs (i_ib ip ! nat (in_off (top_indir n k)))"
  obtain q where q: "k = Suc q" using k(1) by (cases k) auto
  have n0: "0 < n" using n by (simp add: nindir_ok_def)
  have step: "level_base n (Suc k) = ?lb + int n ^ k" by simp
  have rel: "0 \<le> ?rel" "?rel < int n ^ Suc q" using k(2,3) step q by simp_all
  obtain es e where e: "tree_path k n ?lb ?rel = es @ [e]" "tree_path k n ?lb (?rel + int t) = es @ [e\<lparr>in_off := in_off e + int t\<rparr>]"
    "in_off e = ?rel mod int n"
    using tree_path_shift [OF n0 rel(1) _ t, of q ?lb] rel q by (cases "q = 0") auto
  have hi: "bn + int t < level_base n (Suc k)" using rel_add_less [OF n0 rel t] step q by simp
  have b: "0 \<le> bn" "bn < 2 ^ 31" "bn + int t < 2 ^ 31" using k(2-4) hi level_base_pos [OF k(1), of n] by linarith+
  have g1: "ext2_getlbns n bn = Inr (data_path n k bn)" by (rule getlbns_data(3) [OF n b(1,2) k])
  have g2: "ext2_getlbns n (bn + int t) = Inr (data_path n k (bn + int t))"
    by (rule getlbns_data(3) [OF n _ b(3) k(1) _ hi k(4)]) (use b k(2) in simp_all)
  have dp: "data_path n k (bn + int t) = top_indir n k # es @ [e\<lparr>in_off := in_off e + int t\<rparr>]"
    using e(2) by (simp add: data_path_def algebra_simps)
  have "nat (in_off e + int t) = nat (in_off e) + t" using e(3) n0 by (simp add: nat_add_distrib)
  moreover have "data_path n k bn = top_indir n k # es @ [e]" using e(1) by (simp add: data_path_def)
  ultimately have "file_ptr n ip ptrs bn = (if ?d es = 0 then 0 else ptrs (in_lbn e) ! nat (in_off e))"
    "file_ptr n ip ptrs (bn + int t) = (if ?d es = 0 then 0 else ptrs (in_lbn e) ! (nat (in_off e) + t))"
    using g1 g2 dp by (simp_all add: file_ptr_def ptr_walk_append)
  then show ?thesis using dp \<open>data_path n k bn = top_indir n k # es @ [e]\<close> e(3) unfolding Let_def by blast
qed


text \<open>The run lengths are right for direct blocks and for blocks behind an indirect block.\<close>

lemma direct_run:
  assumes n: "nindir_ok n" and i: "i < 12" and p: "ptrs_ok 12 (i_db ip)" and si: "um_seqinc ump < 2 ^ 31"
  shows "t \<le> run_forward ump (i_db ip) maxrun (i + 1) (12 - (i + 1)) 0 \<Longrightarrow>
      file_ptr n ip ptrs (int i + int t) = file_ptr n ip ptrs (int i) + int t * int (um_seqinc ump)"
    "t \<le> run_backward ump (i_db ip) maxrun i 0 \<Longrightarrow>
      file_ptr n ip ptrs (int i - int t) = file_ptr n ip ptrs (int i) - int t * int (um_seqinc ump)"
proof -
  let ?s = "int (um_seqinc ump)"
  have F: "file_ptr n ip ptrs (int j) = i_db ip ! j" if "j < 12" for j
    using getlbns_data(1) [OF n, of "int j"] that by (simp add: file_ptr_def)
  define k where "k = 12 - (i + 1)"
  define rf where "rf = run_forward ump (i_db ip) maxrun (i + 1) k 0"
  have k: "i + 1 + k \<le> 12" using i by (simp add: k_def)
  have f: "rf \<le> k" "\<forall>t \<le> rf. i_db ip ! (i + t) = i_db ip ! i + int t * ?s"
    using run_forward_run [OF p si _ k, of 0 maxrun] unfolding rf_def by simp_all
  show "file_ptr n ip ptrs (int i + int t) = file_ptr n ip ptrs (int i) + int t * ?s"
    if "t \<le> run_forward ump (i_db ip) maxrun (i + 1) (12 - (i + 1)) 0"
  proof -
    have t: "t \<le> rf" using that unfolding rf_def k_def .
    then have it: "i + t < 12" using f(1) k by linarith
    have "i_db ip ! (i + t) = i_db ip ! i + int t * ?s" using f(2) t by blast
    then show ?thesis using F [OF it] F [OF i] by simp
  qed
  have g: "run_backward ump (i_db ip) maxrun i 0 \<le> i"
    "\<forall>t \<le> run_backward ump (i_db ip) maxrun i 0. i_db ip ! (i - t) = i_db ip ! i - int t * ?s"
    using run_backward_run [OF p si i, of 0 maxrun] by simp_all
  show "file_ptr n ip ptrs (int i - int t) = file_ptr n ip ptrs (int i) - int t * ?s" if t: "t \<le> run_backward ump (i_db ip) maxrun i 0"
  proof -
    have ti: "t \<le> i" using g(1) t by (rule le_trans [rotated])
    have e: "i_db ip ! (i - t) = i_db ip ! i - int t * ?s" using g(2) t by blast
    have ei: "int i - int t = int (i - t)" using ti by simp
    have "i - t < 12" using i by simp
    from F [OF this] show ?thesis unfolding ei F [OF i] e .
  qed
qed

lemma indirect_run:
  assumes n: "nindir_ok n" and k: "k \<in> {1, 2, 3}" "level_base n k \<le> bn" "bn < level_base n (Suc k)" "level_base n (Suc k) \<le> 2 ^ 31"
    and p: "\<forall>l. ptrs_ok n (ptrs l)" and si: "um_seqinc ump < 2 ^ 31"
    and e: "data_path n k bn = top_indir n k # es @ [e]" and nz: "file_ptr n ip ptrs bn \<noteq> 0"
  defines "off \<equiv> nat (in_off e)"
  shows "t \<le> run_forward ump (ptrs (in_lbn e)) maxrun (off + 1) (n - (off + 1)) 0 \<Longrightarrow>
      file_ptr n ip ptrs (bn + int t) = file_ptr n ip ptrs bn + int t * int (um_seqinc ump)"
    "t \<le> run_backward ump (ptrs (in_lbn e)) maxrun off 0 \<Longrightarrow>
      file_ptr n ip ptrs (bn - int t) = file_ptr n ip ptrs bn - int t * int (um_seqinc ump)"
proof -
  let ?s = "int (um_seqinc ump)" and ?lb = "level_base n k"
  have n0: "0 < int n" using n by (simp add: nindir_ok_def)
  note near = file_ptr_near [OF n k, where ip = ip and ptrs = ptrs]
  have off: "in_off e = (bn - ?lb) mod int n" "off < n" "int off = (bn - ?lb) mod int n"
  proof -
    have "(bn - ?lb) mod int n + int 0 < int n" using n0 by simp
    from near [OF this] obtain es0 e0 where "data_path n k bn = top_indir n k # es0 @ [e0]" "in_off e0 = (bn - ?lb) mod int n" by blast
    then show o: "in_off e = (bn - ?lb) mod int n" using e by simp
    show o2: "int off = (bn - ?lb) mod int n" unfolding off_def o using n0 by simp
    have "int off < int n" unfolding o2 using n0 by simp
    then show "off < n" by simp
  qed
  define rf where "rf = run_forward ump (ptrs (in_lbn e)) maxrun (off + 1) (n - (off + 1)) 0"
  have f: "rf \<le> n - (off + 1)" "\<forall>t \<le> rf. ptrs (in_lbn e) ! (off + t) = ptrs (in_lbn e) ! off + int t * ?s"
    using run_forward_run [OF spec [OF p, of "in_lbn e"] si, of "off + 1" "n - (off + 1)" 0 maxrun] off(2)
    unfolding rf_def by simp_all
  show "file_ptr n ip ptrs (bn + int t) = file_ptr n ip ptrs bn + int t * ?s"
    if t: "t \<le> run_forward ump (ptrs (in_lbn e)) maxrun (off + 1) (n - (off + 1)) 0"
  proof -
    have tn: "t \<le> n - (off + 1)" using f(1) t unfolding rf_def by (rule le_trans [rotated])
    have eq: "ptrs (in_lbn e) ! (off + t) = ptrs (in_lbn e) ! off + int t * ?s" using f(2) t unfolding rf_def by blast
    have "(bn - ?lb) mod int n + int t < int n" unfolding off(3) [symmetric] using tn off(2) by linarith
    from near [OF this] obtain es' e' where e': "data_path n k bn = top_indir n k # es' @ [e']"
      "file_ptr n ip ptrs bn = (if ptr_walk ptrs (i_ib ip ! nat (in_off (top_indir n k))) es' = 0 then 0 else ptrs (in_lbn e') ! nat (in_off e'))"
      "file_ptr n ip ptrs (bn + int t) = (if ptr_walk ptrs (i_ib ip ! nat (in_off (top_indir n k))) es' = 0 then 0 else ptrs (in_lbn e') ! (nat (in_off e') + t))"
      unfolding Let_def by blast
    have "e' = e" using e'(1) e by simp
    then show ?thesis using e'(2,3) eq nz unfolding off_def by (simp split: if_splits)
  qed
  have g: "run_backward ump (ptrs (in_lbn e)) maxrun off 0 \<le> off"
    "\<forall>t \<le> run_backward ump (ptrs (in_lbn e)) maxrun off 0. ptrs (in_lbn e) ! (off - t) = ptrs (in_lbn e) ! off - int t * ?s"
    using run_backward_run [OF spec [OF p, of "in_lbn e"] si off(2), of 0 maxrun] by simp_all
  show "file_ptr n ip ptrs (bn - int t) = file_ptr n ip ptrs bn - int t * ?s" if t: "t \<le> run_backward ump (ptrs (in_lbn e)) maxrun off 0"
  proof -
    have ti: "t \<le> off" using g(1) t by (rule le_trans [rotated])
    have eq: "ptrs (in_lbn e) ! (off - t) = ptrs (in_lbn e) ! off - int t * ?s" using g(2) t by blast
    have m: "(bn - int t - ?lb) mod int n = int off - int t"
    proof -
      have e: "bn - int t - ?lb = (bn - ?lb) div int n * int n + (int off - int t)"
        using div_mult_mod_eq [of "bn - ?lb" "int n"] off(3) by linarith
      show ?thesis unfolding e by (rule mult_add_div_mod(2) [OF n0]) (use ti off(2) in linarith)+
    qed
    have "(bn - ?lb) mod int n \<le> bn - ?lb" using k(2) n0 by (intro zmod_le_nonneg_dividend) simp
    then have lo: "?lb \<le> bn - int t" using ti off(3) by linarith
    have h: "bn - int t < level_base n (Suc k)" "(bn - int t - ?lb) mod int n + int t < int n"
      using k(3) off(2) unfolding m by simp_all
    obtain es' e' where e': "in_off e' = int off - int t" "data_path n k bn = top_indir n k # es' @ [e'\<lparr>in_off := in_off e' + int t\<rparr>]"
      "file_ptr n ip ptrs (bn - int t) = (if ptr_walk ptrs (i_ib ip ! nat (in_off (top_indir n k))) es' = 0 then 0 else ptrs (in_lbn e') ! nat (in_off e'))"
      "file_ptr n ip ptrs bn = (if ptr_walk ptrs (i_ib ip ! nat (in_off (top_indir n k))) es' = 0 then 0 else ptrs (in_lbn e') ! (nat (in_off e') + t))"
      using file_ptr_near [OF n k(1) lo h(1) k(4) h(2), where ip = ip and ptrs = ptrs] unfolding Let_def m diff_add_cancel by blast
    have "in_lbn e' = in_lbn e" using e'(2) e by auto
    moreover have "nat (in_off e') = off - t" using e'(1) ti by simp
    ultimately show ?thesis using e'(3,4) eq nz ti by (auto split: if_splits)
  qed
qed


lemma bmaparray_run:
  assumes n: "nindir_ok (um_nindir ump)" "level_base (um_nindir ump) 4 \<le> 2 ^ 31" and b: "0 \<le> bn" "bn < 2 ^ 31"
    and ok: "path_ok (um_nindir ump) v ip bn" and p: "\<forall>l. ptrs_ok (um_nindir ump) (v_ptrs v l)" "ptrs_ok 12 (i_db ip)"
    and si: "um_seqinc ump < 2 ^ 31"
    and r: "ext2_bmaparray ump v ip True runb maxrun bn = Return (Inr (bnp, rp, rb))" "bnp \<noteq> -1"
  shows "(t \<le> rp \<longrightarrow> file_ptr (um_nindir ump) ip (v_ptrs v) (bn + int t) =
      file_ptr (um_nindir ump) ip (v_ptrs v) bn + int t * int (um_seqinc ump)) \<and>
    (t \<le> rb \<longrightarrow> file_ptr (um_nindir ump) ip (v_ptrs v) (bn - int t) =
      file_ptr (um_nindir ump) ip (v_ptrs v) bn - int t * int (um_seqinc ump))"
  using n(1) b n(2)
proof (cases rule: block_cases)
  case direct
  define i where "i = nat bn"
  have i: "bn = int i" "i < 12" using direct(1) b by (simp_all add: i_def)
  have "rp = run_forward ump (i_db ip) maxrun (i + 1) (12 - (i + 1)) 0"
    "rb = 0 \<or> rb = run_backward ump (i_db ip) maxrun i 0"
    using r direct(2) b i by (auto simp: ext2_bmaparray_def Let_def i_def [symmetric] split: if_splits)
  then show ?thesis unfolding i(1) using direct_run [OF n(1) i(2) p(2) si, of t maxrun "v_ptrs v"] by auto
next
  case (indirect k)
  let ?n = "um_nindir ump" and ?d = "i_ib ip ! nat (in_off (top_indir (um_nindir ump) k))"
  have "(bn - level_base ?n k) mod int ?n + int 0 < int ?n" using n(1) by (simp add: nindir_ok_def)
  from file_ptr_near [OF n(1) indirect(1-4) this, where ip = ip and ptrs = "v_ptrs v"]
  obtain es e where e: "data_path ?n k bn = top_indir ?n k # es @ [e]" by blast
  have F: "file_ptr ?n ip (v_ptrs v) bn = ptr_walk (v_ptrs v) ?d (es @ [e])" using indirect(5) e by (simp add: file_ptr_def)
  have neg: "\<forall>x \<in> set (es @ [e]). in_lbn x \<noteq> bn"
  proof
    fix x assume "x \<in> set (es @ [e])"
    then have x: "x \<in> set (tree_path k ?n (level_base ?n k) (bn - level_base ?n k))" using e by (simp add: data_path_def)
    have "in_lbn x < 0" by (rule tree_path_lbn_neg [OF level_base_pos(2) [OF indirect(1)] _ _ x]) (use n(1) indirect(2) in \<open>simp_all add: nindir_ok_def\<close>)
    then show "in_lbn x \<noteq> bn" using b by simp
  qed
  have w: "walk_ok v ?d (es @ [e])" using ok indirect(5) e by (simp add: path_ok_def)
  have nz: "ptr_walk (v_ptrs v) ?d (es @ [e]) \<noteq> 0"
  proof
    assume "ptr_walk (v_ptrs v) ?d (es @ [e]) = 0"
    then have "\<exists>rp rb. ext2_bmaparray ump v ip True runb maxrun bn = Return (Inr (-1, rp, rb))"
      using bmaparray_ptr [OF n b ok, of True runb maxrun] F by (simp add: blkptrtodb_def int32_def)
    then show False using r by auto
  qed
  note W = bmap_walk_run [OF w neg nz, of ump runb maxrun]
  let ?off = "nat (in_off e)"
  have "rp = run_forward ump (v_ptrs v (in_lbn e)) maxrun (?off + 1) (?n - (?off + 1)) 0"
    "rb = 0 \<or> rb = run_backward ump (v_ptrs v (in_lbn e)) maxrun ?off 0"
    using r(1) indirect(5) e W by (auto simp: ext2_bmaparray_def Let_def split: if_splits)
  then show ?thesis
    using indirect_run [OF n(1) indirect(1-4) p(1) si e, of ip t maxrun] F nz by auto
next
  case big
  then show ?thesis using ok by (simp add: path_ok_def)
qed

lemma getlbns_paths:
  assumes n: "nindir_ok n" "level_base n 4 \<le> 2 ^ 31" and b: "0 \<le> bn" "bn < 2 ^ 31" and g: "ext2_getlbns n bn = Inr (a # es)"
  shows "\<exists>k \<in> {1, 2, 3}. a = top_indir n k \<and> es = tree_path k n (level_base n k) (bn - level_base n k) \<and>
    level_base n k \<le> bn \<and> bn < level_base n (Suc k) \<and> level_base n (Suc k) \<le> 2 ^ 31"
  using n(1) b n(2)
proof (cases rule: block_cases)
  case (indirect k)
  then have "a = top_indir n k" "es = tree_path k n (level_base n k) (bn - level_base n k)"
    using g by (simp_all add: data_path_def)
  then show ?thesis using indirect(1-4) by blast
qed (use g in simp_all)

lemma getlbns_indirect:
  assumes n: "nindir_ok n" "level_base n 4 \<le> 2 ^ 31" and b: "0 \<le> bn" "bn < 2 ^ 31"
    and g: "ext2_getlbns n bn = Inr (a # es)" and j: "j < length es"
  shows "in_lbn (es ! j) < 0 \<and> ext2_getlbns n (in_lbn (es ! j)) = Inr (a # take j es)"
proof -
  obtain k where k: "k \<in> {1, 2, 3}" "a = top_indir n k" "es = tree_path k n (level_base n k) (bn - level_base n k)"
    "level_base n k \<le> bn" "bn < level_base n (Suc k)" "level_base n (Suc k) \<le> 2 ^ 31"
    using getlbns_paths [OF n b g] by blast
  have jk: "j < k" using j k(3) by (simp add: length_tree_path)
  have n0: "0 < n" using n(1) by (simp add: nindir_ok_def)
  have "es ! j \<in> set (tree_path k n (level_base n k) (bn - level_base n k))" using j k(3) by (metis nth_mem)
  then have "in_lbn (es ! j) < 0" using tree_path_lbn_neg [OF level_base_pos(2) [OF k(1), of n] n0, of "bn - level_base n k" "es ! j" k] k(4) by simp
  then show ?thesis using getlbns_meta [OF n(1) k(1,4,5,6) jk] k(2,3) by simp
qed

lemma tiny_blocks_path: "ext2_getlbns 8 13 = Inr [\<lparr>in_lbn = -12, in_off = 0, in_exists = False\<rparr>, \<lparr>in_lbn = -12, in_off = 1, in_exists = False\<rparr>]"
  "ext2_getlbns 8 14 = Inr [\<lparr>in_lbn = -12, in_off = 0, in_exists = False\<rparr>, \<lparr>in_lbn = -12, in_off = 2, in_exists = False\<rparr>]"
  by (simp_all add: ext2_getlbns_def Let_def numeral_3_eq_3 int32_def)

lemma tiny_blocks_ok: "um_nindir tiny_mount = 8" "nindir_ok 8" "level_base 8 4 \<le> 2 ^ 31" "path_ok 8 tiny_vbufs tiny_blocks 13"
  "ptrs_ok 8 (v_ptrs tiny_vbufs l)" "ptrs_ok 12 (i_db tiny_blocks)" "um_seqinc tiny_mount < 2 ^ 31"
  by (auto simp: tiny_mount_def nindir_ok_def level_base_1_4 path_ok_def tiny_blocks_path tiny_blocks_def tiny_vbufs_def
      ptrs_ok_def nth_append nth_Cons')

section \<open>Properties\<close>

text \<open>
  C19: \<^verbatim>\<open>ext2_getlbns\<close> on a data block. A direct block has an empty path; a block past the
  triple indirect range fails with \<^verbatim>\<open>EFBIG\<close>. Otherwise the path has one, two or three
  levels, its first entry selects the indirect pointer of the inode, every offset is
  inside an indirect block, and the offsets are the digits of the block's number relative
  to the first block of its level: the block can be recovered from its path.
\<close>

theorem ext2_getlbns_correct:
  assumes "nindir_ok n" "level_base n 4 \<le> 2 ^ 31" "0 \<le> bn" "bn < 2 ^ 31"
  shows "case ext2_getlbns n bn of
      Inl error \<Rightarrow> error = EFBIG \<and> 12 + int n + int n ^ 2 + int n ^ 3 \<le> bn
    | Inr [] \<Rightarrow> bn < 12
    | Inr (a # es) \<Rightarrow> length es \<in> {1, 2, 3} \<and> in_off a = int (length es) - 1 \<and>
        (\<forall>e \<in> set es. 0 \<le> in_off e \<and> in_off e < int n \<and> in_lbn e < 0) \<and>
        bn = level_base n (length es) + rel_of n (map in_off es)"
  using assms(1,3,4,2)
proof (cases rule: block_cases)
  case direct
  then show ?thesis by simp
next
  case (indirect k)
  have n0: "0 < n" using assms(1) by (simp add: nindir_ok_def)
  let ?rel = "bn - level_base n k"
  have rel: "0 \<le> ?rel" "?rel < int n ^ k" using indirect(2,3) by simp_all
  have "0 \<le> in_off e \<and> in_off e < int n \<and> in_lbn e < 0" if "e \<in> set (tree_path k n (level_base n k) ?rel)" for e
    using tree_path_off_range [OF n0 rel that] tree_path_lbn_neg [OF level_base_pos(2) [OF indirect(1)] n0 rel(1) that] by simp
  then show ?thesis
    using indirect(1,5) rel_of_tree_path [OF n0 rel, of "level_base n k"] by (simp add: data_path_def top_indir_def)
next
  case big
  then show ?thesis unfolding level_base_1_4 by simp
qed

theorem ext2_getlbns_correct_witness:
  "\<exists>a es. ext2_getlbns 8 100 = Inr (a # es) \<and> map in_off (a # es) = [2, 0, 2, 0] \<and>
     100 = level_base 8 (length es) + rel_of 8 (map in_off es)"
proof -
  have n: "nindir_ok 8" "level_base 8 4 \<le> 2 ^ 31" by (simp_all add: nindir_ok_def level_base_1_4)
  have "\<exists>a es. ext2_getlbns 8 100 = Inr (a # es) \<and> map in_off (a # es) = [2, 0, 2, 0]"
    by (simp add: ext2_getlbns_def Let_def numeral_3_eq_3 int32_def)
  then show ?thesis using ext2_getlbns_correct [OF n, of 100] by auto
qed

text \<open>
  \<^verbatim>\<open>ext2_getlbns\<close> on an indirect block. Every indirect block on the path of a data block
  has a negative logical number, and the path of that number is exactly the part of the
  data block's path above it, so the numbers name the indirect blocks uniquely.
\<close>

theorem ext2_getlbns_indirect:
  assumes "nindir_ok n" "level_base n 4 \<le> 2 ^ 31" "0 \<le> bn" "bn < 2 ^ 31"
    and "ext2_getlbns n bn = Inr (a # es)" "j < length es"
  shows "in_lbn (es ! j) < 0 \<and> ext2_getlbns n (in_lbn (es ! j)) = Inr (a # take j es)"
  by (rule getlbns_indirect [OF assms])

theorem ext2_getlbns_indirect_witness:
  "ext2_getlbns 8 100 = Inr [\<lparr>in_lbn = -86, in_off = 2, in_exists = False\<rparr>, \<lparr>in_lbn = -86, in_off = 0, in_exists = False\<rparr>,
     \<lparr>in_lbn = -85, in_off = 2, in_exists = False\<rparr>, \<lparr>in_lbn = -100, in_off = 0, in_exists = False\<rparr>] \<and>
   ext2_getlbns 8 (-100) = Inr [\<lparr>in_lbn = -86, in_off = 2, in_exists = False\<rparr>, \<lparr>in_lbn = -86, in_off = 0, in_exists = False\<rparr>, \<lparr>in_lbn = -85, in_off = 2, in_exists = False\<rparr>]"
proof -
  have n: "nindir_ok 8" "level_base 8 4 \<le> 2 ^ 31" by (simp_all add: nindir_ok_def level_base_1_4)
  have g: "ext2_getlbns 8 100 = Inr [\<lparr>in_lbn = -86, in_off = 2, in_exists = False\<rparr>, \<lparr>in_lbn = -86, in_off = 0, in_exists = False\<rparr>,
     \<lparr>in_lbn = -85, in_off = 2, in_exists = False\<rparr>, \<lparr>in_lbn = -100, in_off = 0, in_exists = False\<rparr>]"
    by (simp add: ext2_getlbns_def Let_def numeral_3_eq_3 int32_def)
  show ?thesis using g ext2_getlbns_indirect [OF n _ _ g, of 2] by simp
qed

text \<open>
  C18: \<^verbatim>\<open>ext2_bmaparray\<close> returns the device block of the pointer the file's block tree holds
  for the block, or -1 for a hole, whenever the indirect blocks on its path can be read.
  Asking for run lengths does not change the block.
\<close>

theorem ext2_bmaparray_correct:
  assumes "nindir_ok (um_nindir ump)" "level_base (um_nindir ump) 4 \<le> 2 ^ 31" "0 \<le> bn" "bn < 2 ^ 31"
    and "path_ok (um_nindir ump) v ip bn"
  shows "\<exists>rp rb. ext2_bmaparray ump v ip runp runb maxrun bn =
    Return (Inr (let b = blkptrtodb ump (file_ptr (um_nindir ump) ip (v_ptrs v) bn) in if b = 0 then -1 else b, rp, rb))"
  by (rule bmaparray_ptr [OF assms])

theorem ext2_bmaparray_correct_witness:
  "\<exists>rp rb. ext2_bmaparray tiny_mount tiny_vbufs tiny_blocks True True 100 13 = Return (Inr (102, rp, rb))"
proof -
  have "blkptrtodb tiny_mount (file_ptr 8 tiny_blocks (v_ptrs tiny_vbufs) 13) = 102"
    by (simp add: file_ptr_def tiny_blocks_path tiny_blocks_def tiny_vbufs_def blkptrtodb_def tiny_mount_def int32_def)
  then show ?thesis
    using ext2_bmaparray_correct [of tiny_mount 13 tiny_vbufs tiny_blocks True True 100] tiny_blocks_ok by simp
qed

text \<open>
  C20: the run lengths \<^verbatim>\<open>ext2_bmaparray\<close> reports are safe to use for clustered transfers. For
  a mapped block, each of the \<^verbatim>\<open>*runp\<close> blocks after it and of the \<^verbatim>\<open>*runb\<close> blocks before it
  in the file has the pointer that continues the sequence on the device.
\<close>

theorem ext2_bmaparray_runs:
  assumes "nindir_ok (um_nindir ump)" "level_base (um_nindir ump) 4 \<le> 2 ^ 31" "0 \<le> bn" "bn < 2 ^ 31"
    and "path_ok (um_nindir ump) v ip bn" "\<forall>l. ptrs_ok (um_nindir ump) (v_ptrs v l)" "ptrs_ok 12 (i_db ip)"
    and "um_seqinc ump < 2 ^ 31"
    and "ext2_bmaparray ump v ip True runb maxrun bn = Return (Inr (bnp, rp, rb))" "bnp \<noteq> -1"
  shows "(t \<le> rp \<longrightarrow> file_ptr (um_nindir ump) ip (v_ptrs v) (bn + int t) =
      file_ptr (um_nindir ump) ip (v_ptrs v) bn + int t * int (um_seqinc ump)) \<and>
    (t \<le> rb \<longrightarrow> file_ptr (um_nindir ump) ip (v_ptrs v) (bn - int t) =
      file_ptr (um_nindir ump) ip (v_ptrs v) bn - int t * int (um_seqinc ump))"
  by (rule bmaparray_run [OF assms])

theorem ext2_bmaparray_runs_witness:
  "ext2_bmaparray tiny_mount tiny_vbufs tiny_blocks True True 100 13 = Return (Inr (102, 1, 1)) \<and>
   file_ptr 8 tiny_blocks (v_ptrs tiny_vbufs) 14 = file_ptr 8 tiny_blocks (v_ptrs tiny_vbufs) 13 + 1"
proof -
  have r: "ext2_bmaparray tiny_mount tiny_vbufs tiny_blocks True True 100 13 = Return (Inr (102, 1, 1))"
    by (simp add: ext2_bmaparray_def tiny_blocks_ok(1) tiny_blocks_path, simp add: tiny_blocks_def tiny_vbufs_def tiny_mount_def
        blkptrtodb_def int32_def is_sequential_def ulong_def eval_nat_numeral)
  have "um_seqinc tiny_mount = 1" by (simp add: tiny_mount_def)
  then show ?thesis
    using r ext2_bmaparray_runs [OF _ _ _ _ _ _ _ _ r, of 1] tiny_blocks_ok by simp
qed

end
