(* ===== verification/Ext2_Balloc.thy ===== *)
theory Ext2_Balloc
  imports Ext2_Bmap
begin

text \<open>
  Block allocation for a file: \<^verbatim>\<open>ext2_balloc2\<close> of \<^verbatim>\<open>ext2_balloc.c\<close>, which maps a logical
  block of a file, allocating the block and the indirect blocks on its path where they do
  not exist yet.

  The routine works on the inode, on the mount (through \<open>ext2_alloc\<close>) and on the buffers of
  the vnode. Reading an indirect block leaves its buffer in the cache. A new indirect
  block is cleared and written synchronously, the block that points to it synchronously only
  under \<^verbatim>\<open>B_SYNC\<close> and with a delayed write otherwise. A synchronous write that fails drops the
  buffer, and what was not on the disk yet is lost with it. For a new indirect block the code
  notices that and gives the block back; for the block that points to it the error is ignored.
\<close>

section \<open>Data\<close>

text \<open>The buffer handed to the caller; no \<open>bp_blkno\<close> means that the read has set it.\<close>

record bufp =
  bp_lblkno :: int
  bp_blkno :: "int option"
  bp_size :: int
  bp_clear :: bool

text \<open>The bits of \<^verbatim>\<open>flags\<close> that the routine looks at.\<close>

record balloc_flags =
  B_NOBUFF :: bool
  B_CLRBUF :: bool
  B_SYNC :: bool

text \<open>
  What the call has around it: the macro \<^verbatim>\<open>btodb\<close>, the contents of uninitialised locals of
  \<open>ext2_alloc\<close>, and the user id of the credential.
\<close>

record balloc_env =
  be_btodb :: "int \<Rightarrow> nat \<Rightarrow> int"
  be_uninit :: "u32 \<times> u32"
  be_uid :: nat

type_synonym balloc_state = "inode \<times> ext2mount \<times> vbufs"

type_synonym 'a balloc_result = "((errno + 'a) \<times> balloc_state) outcome option"

section \<open>Operations\<close>

definition roundup :: "nat \<Rightarrow> nat \<Rightarrow> nat" where
  "roundup x y = ulong (int (x + (y - 1))) div y * y"

definition fragroundup :: "m_ext2fs \<Rightarrow> nat \<Rightarrow> int outcome" where
  "fragroundup fs x = (if e2fs_fsize fs = 0 then Panic Divide_error else Return (int32 (int (roundup x (e2fs_fsize fs)))))"

definition blkoff :: "m_ext2fs \<Rightarrow> nat \<Rightarrow> nat" where
  "blkoff fs loc = loc AND s_qbmask fs"

definition vn_bread :: "vbufs \<Rightarrow> int \<Rightarrow> errno option" where
  "vn_bread v l = (if v_valid v l then None else v_err v l)"

definition vn_meta_bread :: "vbufs \<Rightarrow> int \<Rightarrow> errno + int list \<times> vbufs" where
  "vn_meta_bread v l = (case vn_bread v l of Some error \<Rightarrow> Inl error
     | None \<Rightarrow> Inr (v_ptrs v l, v\<lparr>v_valid := (v_valid v)(l := True)\<rparr>))"

text \<open>A delayed write leaves the buffer in the cache, and so does a synchronous one that succeeds.\<close>

definition vn_bdwrite :: "vbufs \<Rightarrow> int \<Rightarrow> int list \<Rightarrow> vbufs" where
  "vn_bdwrite v l bap = v\<lparr>v_ptrs := (v_ptrs v)(l := bap), v_valid := (v_valid v)(l := True)\<rparr>"

definition vn_bwrite :: "vbufs \<Rightarrow> int \<Rightarrow> int list \<Rightarrow> vbufs" where
  "vn_bwrite v l bap = (case v_werr v l of
       None \<Rightarrow> (vn_bdwrite v l bap)\<lparr>v_disk := (v_disk v)(l := bap)\<rparr>
     | Some error \<Rightarrow> v\<lparr>v_ptrs := (v_ptrs v)(l := v_disk v l), v_valid := (v_valid v)(l := False)\<rparr>)"

text \<open>The write of a block of pointers after one of them was set; its result is not looked at.\<close>

definition write_ptrs :: "balloc_flags \<Rightarrow> vbufs \<Rightarrow> int \<Rightarrow> int list \<Rightarrow> vbufs" where
  "write_ptrs fl v l bap = (if B_SYNC fl then vn_bwrite v l bap else vn_bdwrite v l bap)"

text \<open>Sequential allocation: the hints for \<open>ext2_blkpref\<close> move on.\<close>

definition balloc_seq :: "inode \<Rightarrow> int \<Rightarrow> inode" where
  "balloc_seq ip lbn =
     (if word_of_int lbn = i_next_alloc_block ip + 1
      then ip\<lparr>i_next_alloc_block := i_next_alloc_block ip + 1, i_next_alloc_goal := i_next_alloc_goal ip + 1\<rparr> else ip)"

definition balloc_direct ::
    "balloc_env \<Rightarrow> balloc_flags \<Rightarrow> int \<Rightarrow> int \<Rightarrow> balloc_state \<Rightarrow> (bufp option \<times> int) balloc_result" where
  "balloc_direct env fl bn sz st =
     (case st of (ip, m, v) \<Rightarrow>
      let fs = um_e2fs m; nb = i_db ip ! nat bn; alloc_buf = \<not> B_NOBUFF fl;
          bs = int (s_blocksize fs); short = i_size ip < ulong ((bn + 1) * bs) in
      if nb \<noteq> 0 \<and> \<not> short then
        if alloc_buf then
          case vn_bread v bn of
            Some error \<Rightarrow> Some (Return (Inl error, st))
          | None \<Rightarrow> Some (Return (Inr (Some \<lparr>bp_lblkno = bn, bp_blkno = Some (fsbtodb fs nb), bp_size = bs, bp_clear = False\<rparr>, 0), st))
        else Some (Return (Inr (None, 0), st))
      else if nb \<noteq> 0 then
        bindo (Some (fragroundup fs (blkoff fs (i_size ip)))) (\<lambda>osize.
        bindo (Some (fragroundup fs (ulong sz))) (\<lambda>nsize.
        if nsize \<le> osize then
          if alloc_buf then
            case vn_bread v bn of
              Some error \<Rightarrow> Some (Return (Inl error, st))
            | None \<Rightarrow> Some (Return (Inr (Some \<lparr>bp_lblkno = bn, bp_blkno = Some (fsbtodb fs nb), bp_size = osize, bp_clear = False\<rparr>, nsize),
                (ip\<lparr>i_db := (i_db ip)[nat bn := nb], i_flag := i_flag ip OR 6\<rparr>, m, v)))
          else Some (Return (Inr (None, 0), (ip\<lparr>i_flag := i_flag ip OR 6\<rparr>, m, v)))
        else Some (Panic Balloc_wrong)))
      else
        bindo (if short then Some (fragroundup fs (ulong sz)) else Some (Return (int32 bs))) (\<lambda>nsize.
        bindo (ext2_alloc (be_btodb env) (be_uninit env) m ip bn (ext2_blkpref fs ip bn bn (Some (i_db ip)) 0) nsize (be_uid env))
          (\<lambda>(r, ip, m). case r of
            Inl error \<Rightarrow> Some (Return (Inl error, (ip, m, v)))
          | Inr newb \<Rightarrow> Some (Return (Inr (if alloc_buf then
                Some \<lparr>bp_lblkno = bn, bp_blkno = Some (fsbtodb (um_e2fs m) newb), bp_size = nsize, bp_clear = B_CLRBUF fl\<rparr> else None, nsize),
              (ip\<lparr>i_db := (i_db ip)[nat bn := newb], i_flag := i_flag ip OR 6\<rparr>, m, v))))))"

text \<open>
  A new indirect block with the logical number \<open>l\<close>: allocated, cleared and written, and
  given back when the write fails. The code has this twice.
\<close>

definition balloc_indir :: "balloc_env \<Rightarrow> int \<Rightarrow> int \<Rightarrow> int \<Rightarrow> balloc_state \<Rightarrow> int balloc_result" where
  "balloc_indir env lbn pref l st =
     (case st of (ip, m, v) \<Rightarrow>
      bindo (ext2_alloc (be_btodb env) (be_uninit env) m ip lbn pref (int32 (int (s_blocksize (um_e2fs m)))) (be_uid env))
        (\<lambda>(r, ip, m). case r of
          Inl error \<Rightarrow> Some (Return (Inl error, (ip, m, v)))
        | Inr nb \<Rightarrow>
            let v' = vn_bwrite v l (replicate (s_blocksize (um_e2fs m) div 4) 0) in
            case v_werr v l of
              Some error \<Rightarrow>
                bindo (Some (ext2_blkfree m nb (int32 (int (s_blocksize (um_e2fs m)))))) (\<lambda>m.
                Some (Return (Inl error, (ip, m, v'))))
            | None \<Rightarrow> Some (Return (Inr nb, (ip, m, v')))))"

text \<open>The data block, once the last indirect block is in \<open>bap\<close>.\<close>

definition balloc_data ::
    "balloc_env \<Rightarrow> balloc_flags \<Rightarrow> int \<Rightarrow> indir \<Rightarrow> int list \<Rightarrow> balloc_state \<Rightarrow> (bufp option \<times> int) balloc_result" where
  "balloc_data env fl lbn e bap st =
     (case st of (ip, m, v) \<Rightarrow>
      let fs = um_e2fs m; nb = bap ! nat (in_off e); alloc_buf = \<not> B_NOBUFF fl; bs = int32 (int (s_blocksize fs)) in
      if nb = 0 then
        bindo (ext2_alloc (be_btodb env) (be_uninit env) m ip lbn
            (ext2_blkpref fs ip lbn (in_off e) (Some bap) (in_lbn e)) bs (be_uid env))
          (\<lambda>(r, ip, m). case r of
            Inl error \<Rightarrow> Some (Return (Inl error, (ip, m, v)))
          | Inr nb \<Rightarrow> Some (Return (Inr (if alloc_buf then
                Some \<lparr>bp_lblkno = lbn, bp_blkno = Some (fsbtodb (um_e2fs m) nb), bp_size = bs, bp_clear = B_CLRBUF fl\<rparr> else None, bs),
              (ip, m, write_ptrs fl v (in_lbn e) (bap[nat (in_off e) := nb])))))
      else if alloc_buf then
        if B_CLRBUF fl then
          case vn_bread v lbn of
            Some error \<Rightarrow> Some (Return (Inl error, st))
          | None \<Rightarrow> Some (Return (Inr (Some \<lparr>bp_lblkno = lbn, bp_blkno = None, bp_size = bs, bp_clear = False\<rparr>, 0), st))
        else Some (Return (Inr (Some \<lparr>bp_lblkno = lbn, bp_blkno = Some (fsbtodb fs nb), bp_size = bs, bp_clear = False\<rparr>, 0), st))
      else Some (Return (Inr (None, 0), st)))"

text \<open>
  The loop over the indirect blocks: \<open>e\<close> is \<^verbatim>\<open>indirs[i]\<close> and \<open>es\<close> are the entries after it. The
  preference is computed with the offset of the next entry, as the code has it.
\<close>

fun balloc_loop ::
    "balloc_env \<Rightarrow> balloc_flags \<Rightarrow> int \<Rightarrow> int \<Rightarrow> indir \<Rightarrow> indir list \<Rightarrow> balloc_state \<Rightarrow> (bufp option \<times> int) balloc_result" where
  "balloc_loop env fl lbn pref e es (ip, m, v) =
     (case vn_meta_bread v (in_lbn e) of
        Inl error \<Rightarrow> Some (Return (Inl error, (ip, m, v)))
      | Inr (bap, v) \<Rightarrow>
          (case es of
             [] \<Rightarrow> balloc_data env fl lbn e bap (ip, m, v)
           | e' # es' \<Rightarrow>
               if bap ! nat (in_off e) \<noteq> 0 then balloc_loop env fl lbn pref e' es' (ip, m, v)
               else
                 let pref = (if pref = 0 then ext2_blkpref (um_e2fs m) ip lbn (in_off e') (Some bap) (in_lbn e) else pref) in
                 bindo (balloc_indir env lbn pref (in_lbn e') (ip, m, v)) (\<lambda>(r, ip, m, v).
                 case r of
                   Inl error \<Rightarrow> Some (Return (Inl error, (ip, m, v)))
                 | Inr nb \<Rightarrow> balloc_loop env fl lbn pref e' es'
                     (ip, m, write_ptrs fl v (in_lbn e) (bap[nat (in_off e) := nb])))))"

definition ext2_balloc2 ::
    "balloc_env \<Rightarrow> balloc_flags \<Rightarrow> int \<Rightarrow> int \<Rightarrow> balloc_state \<Rightarrow> (bufp option \<times> int) balloc_result" where
  "ext2_balloc2 env fl bn sz st =
     (case st of (ip, m, v) \<Rightarrow>
      if bn < 0 then Some (Return (Inl EFBIG, st))
      else
        let ip = balloc_seq ip bn in
        if bn < 12 then balloc_direct env fl bn sz (ip, m, v)
        else
          case ext2_getlbns (um_nindir m) bn of
            Inl error \<Rightarrow> Some (Return (Inl error, (ip, m, v)))
          | Inr (a # e # es) \<Rightarrow>
              let nb = i_ib ip ! nat (in_off a) in
              if nb = 0 then
                let pref = ext2_blkpref (um_e2fs m) ip bn (in_off a + 12) (Some (i_db ip @ i_ib ip)) 0 in
                bindo (balloc_indir env bn pref (in_lbn e) (ip, m, v)) (\<lambda>(r, ip, m, v).
                case r of
                  Inl error \<Rightarrow> Some (Return (Inl error, (ip, m, v)))
                | Inr nb \<Rightarrow> balloc_loop env fl bn pref e es
                    (ip\<lparr>i_ib := (i_ib ip)[nat (in_off a) := nb], i_flag := i_flag ip OR 6\<rparr>, m, v))
              else balloc_loop env fl bn 0 e es (ip, m, v)
          | Inr _ \<Rightarrow> Some (Panic Wild_pointer))"

section \<open>What a call does to a file\<close>

text \<open>
  \<open>tree_ptr\<close> is the pointer at the end of a path; \<open>path_ptrs\<close> are the blocks on it, the
  indirect ones and the data block; \<open>no_stale\<close> says that no buffer is cached for an
  indirect block that does not exist.
\<close>

fun path_ptrs :: "(int \<Rightarrow> int list) \<Rightarrow> int \<Rightarrow> indir list \<Rightarrow> nat set" where
  "path_ptrs ptrs d [] = (if d = 0 then {} else {nat d})"
| "path_ptrs ptrs d (e # es) = (if d = 0 then {} else insert (nat d) (path_ptrs ptrs (ptrs (in_lbn e) ! nat (in_off e)) es))"

fun no_stale :: "(int \<Rightarrow> int list) \<Rightarrow> (int \<Rightarrow> bool) \<Rightarrow> int \<Rightarrow> indir list \<Rightarrow> bool" where
  "no_stale ptrs valid d [] \<longleftrightarrow> True"
| "no_stale ptrs valid d (e # es) \<longleftrightarrow> (if d = 0 then \<forall>x \<in> set (e # es). \<not> valid (in_lbn x)
     else no_stale ptrs valid (ptrs (in_lbn e) ! nat (in_off e)) es)"

definition file_paths :: "nat \<Rightarrow> (nat \<times> indir list) set" where
  "file_paths n = {(nat (in_off a), es) | a es. \<exists>bn. nindir_ok n \<and> level_base n 4 \<le> 2 ^ 31 \<and> 0 \<le> bn \<and> bn < 2 ^ 31 \<and>
     ext2_getlbns n bn = Inr (a # es)}"

definition mount_ok :: "nat \<Rightarrow> inode \<Rightarrow> ext2mount \<Rightarrow> bool" where
  "mount_ok n ip m \<longleftrightarrow> balloc_wf m \<and> prealloc_ok m ip \<and> um_nindir m = n \<and> s_blocksize (um_e2fs m) = 4 * n \<and>
     e2fs_fsize (um_e2fs m) = 4 * n \<and> 0 < n \<and> 4 * n < 2 ^ 31"

definition file_ok :: "nat \<Rightarrow> inode \<Rightarrow> vbufs \<Rightarrow> bool" where
  "file_ok n ip v \<longleftrightarrow> ptrs_ok 12 (i_db ip) \<and> ptrs_ok 3 (i_ib ip) \<and> (\<forall>l. ptrs_ok n (v_ptrs v l)) \<and>
     (\<forall>l. \<not> v_valid v l \<longrightarrow> v_ptrs v l = v_disk v l) \<and>
     (\<forall>(t, p) \<in> file_paths n. no_stale (v_ptrs v) (v_valid v) (i_ib ip ! t) p)"

text \<open>Under \<^verbatim>\<open>B_SYNC\<close> the writes of the blocks on a path do not fail.\<close>

definition sync_ok :: "balloc_flags \<Rightarrow> vbufs \<Rightarrow> indir list \<Rightarrow> bool" where
  "sync_ok fl v p \<longleftrightarrow> (B_SYNC fl \<longrightarrow> (\<forall>e \<in> set p. v_werr v (in_lbn e) = None))"

definition tree_ptr :: "inode \<Rightarrow> vbufs \<Rightarrow> nat \<times> indir list \<Rightarrow> int" where
  "tree_ptr ip v x = ptr_walk (v_ptrs v) (i_ib ip ! fst x) (snd x)"

definition tree_blocks :: "inode \<Rightarrow> vbufs \<Rightarrow> nat \<times> indir list \<Rightarrow> nat set" where
  "tree_blocks ip v x = path_ptrs (v_ptrs v) (i_ib ip ! fst x) (snd x)"

definition mount_step :: "inode \<Rightarrow> ext2mount \<Rightarrow> inode \<Rightarrow> ext2mount \<Rightarrow> bool" where
  "mount_step ip m ip' m' \<longleftrightarrow> same_layout (um_e2fs m) (um_e2fs m') \<and> blocks_frame m m' \<and> i_db ip' = i_db ip"

text \<open>What the allocator gives to this routine.\<close>

definition fresh_block :: "nat \<Rightarrow> inode \<Rightarrow> ext2mount \<Rightarrow> nat \<Rightarrow> inode \<Rightarrow> ext2mount \<Rightarrow> bool" where
  "fresh_block n ip m b ip' m' \<longleftrightarrow> 0 < b \<and> int b < 2 ^ 31 \<and> b \<notin> held_blocks m ip \<and> held_blocks m' ip' = insert b (held_blocks m ip) \<and>
     b \<notin> prealloc_run ip' \<and> data_range (um_e2fs m') b 1 \<and> mount_ok n ip' m' \<and> mount_step ip m ip' m' \<and> i_ib ip' = i_ib ip"

text \<open>
  Growing a file at the path \<open>x\<close>: nothing but the blocks on that path is added, every other
  path leads to the same block, and the blocks the file gained are exactly those that
  have become held.
\<close>

fun grows :: "nat \<Rightarrow> nat \<times> indir list \<Rightarrow> balloc_state \<Rightarrow> balloc_state \<Rightarrow> bool" where
  "grows n x (ip, m, v) (ip', m', v') \<longleftrightarrow> mount_ok n ip' m' \<and> file_ok n ip' v' \<and> mount_step ip m ip' m' \<and> v_err v' = v_err v \<and> v_werr v' = v_werr v \<and>
     (\<forall>y \<in> file_paths n. y \<noteq> x \<longrightarrow> tree_ptr ip' v' y = tree_ptr ip v y) \<and>
     (tree_ptr ip v x \<noteq> 0 \<longrightarrow> tree_ptr ip' v' x = tree_ptr ip v x) \<and>
     held_blocks m' ip' = held_blocks m ip \<union> tree_blocks ip' v' x \<and>
     tree_blocks ip' v' x \<inter> held_blocks m ip = tree_blocks ip v x"

text \<open>
  The outcome of the indirect part of the routine for the block \<open>lbn\<close> with the path \<open>x\<close>.
  A buffer that is returned is the one of the block, at the device address of the block,
  unless its address was left to the read.
\<close>

definition buf_ok :: "ext2mount \<Rightarrow> int \<Rightarrow> int \<Rightarrow> bufp option \<times> int \<Rightarrow> bool" where
  "buf_ok m lbn b y \<longleftrightarrow> (case fst y of None \<Rightarrow> True
     | Some bp \<Rightarrow> bp_lblkno bp = lbn \<and> (bp_blkno bp = None \<or> bp_blkno bp = Some (fsbtodb (um_e2fs m) b)))"

definition grown :: "nat \<Rightarrow> int \<Rightarrow> nat \<times> indir list \<Rightarrow> balloc_state \<Rightarrow> (bufp option \<times> int) balloc_result \<Rightarrow> bool" where
  "grown n lbn x s R \<longleftrightarrow> (\<exists>r ip' m' v'. R = Some (Return (r, ip', m', v')) \<and> grows n x s (ip', m', v') \<and>
     (case r of Inl _ \<Rightarrow> tree_ptr ip' v' x = tree_ptr (fst s) (snd (snd s)) x
      | Inr y \<Rightarrow> tree_ptr ip' v' x \<noteq> 0 \<and> buf_ok m' lbn (tree_ptr ip' v' x) y))"

text \<open>The blocks on the way to a block of the file, the block included.\<close>

definition blocks_to :: "nat \<Rightarrow> inode \<Rightarrow> (int \<Rightarrow> int list) \<Rightarrow> int \<Rightarrow> nat set" where
  "blocks_to n ip ptrs bn = (case ext2_getlbns n bn of Inl _ \<Rightarrow> {} | Inr [] \<Rightarrow> path_ptrs ptrs (i_db ip ! nat bn) []
     | Inr (a # es) \<Rightarrow> path_ptrs ptrs (i_ib ip ! nat (in_off a)) es)"

text \<open>The sizes a caller may ask for, and a direct block exists only below the end of the file.\<close>

definition direct_ok :: "nat \<Rightarrow> inode \<Rightarrow> ext2mount \<Rightarrow> int \<Rightarrow> int \<Rightarrow> bool" where
  "direct_ok n ip m bn sz \<longleftrightarrow> 0 < sz \<and> sz \<le> int (4 * n) \<and> s_qbmask (um_e2fs m) = 4 * n - 1 \<and> (\<exists>k. 4 * n = 2 ^ k) \<and>
     (bn < 12 \<and> i_db ip ! nat bn \<noteq> 0 \<longrightarrow> nat bn * (4 * n) < i_size ip)"

text \<open>The outcome of a call for the block \<open>bn\<close>.\<close>

definition mapped :: "nat \<Rightarrow> int \<Rightarrow> balloc_state \<Rightarrow> (bufp option \<times> int) balloc_result \<Rightarrow> bool" where
  "mapped n bn s R \<longleftrightarrow> (case s of (ip, m, v) \<Rightarrow> \<exists>r ip' m' v'. R = Some (Return (r, ip', m', v')) \<and>
     mount_ok n ip' m' \<and> file_ok n ip' v' \<and> v_err v' = v_err v \<and> same_layout (um_e2fs m) (um_e2fs m') \<and> blocks_frame m m' \<and>
     (\<forall>c. 0 \<le> c \<and> c < 2 ^ 31 \<and> c \<noteq> bn \<longrightarrow> file_ptr n ip' (v_ptrs v') c = file_ptr n ip (v_ptrs v) c) \<and>
     held_blocks m' ip' = held_blocks m ip \<union> blocks_to n ip' (v_ptrs v') bn \<and>
     blocks_to n ip' (v_ptrs v') bn \<inter> held_blocks m ip = blocks_to n ip (v_ptrs v) bn \<and>
     (file_ptr n ip (v_ptrs v) bn \<noteq> 0 \<longrightarrow> file_ptr n ip' (v_ptrs v') bn = file_ptr n ip (v_ptrs v) bn) \<and>
     (case r of Inl _ \<Rightarrow> file_ptr n ip' (v_ptrs v') bn = file_ptr n ip (v_ptrs v) bn
      | Inr y \<Rightarrow> file_ptr n ip' (v_ptrs v') bn \<noteq> 0 \<and> buf_ok m' bn (file_ptr n ip' (v_ptrs v') bn) y))"

definition empty_vbufs :: vbufs where
  "empty_vbufs = \<lparr>v_ptrs = (\<lambda>l. replicate 8 0), v_disk = (\<lambda>l. replicate 8 0), v_valid = (\<lambda>l. False), v_err = (\<lambda>l. None), v_werr = (\<lambda>l. None)\<rparr>"

definition tiny_env :: balloc_env where
  "tiny_env = \<lparr>be_btodb = (\<lambda>n d. n div int d), be_uninit = (0, 0), be_uid = 0\<rparr>"

definition tiny_flags :: balloc_flags where
  "tiny_flags = \<lparr>B_NOBUFF = False, B_CLRBUF = True, B_SYNC = False\<rparr>"

section \<open>Lemmas\<close>

lemma ptr_walk_cong:
  "\<forall>x \<in> set q. ptrs' (in_lbn x) ! nat (in_off x) = ptrs (in_lbn x) ! nat (in_off x) \<Longrightarrow> ptr_walk ptrs' d q = ptr_walk ptrs d q"
  by (induction q arbitrary: d) simp_all

lemma no_stale_cong:
  "\<forall>x \<in> set q. ptrs' (in_lbn x) ! nat (in_off x) = ptrs (in_lbn x) ! nat (in_off x) \<Longrightarrow> no_stale ptrs' valid d q = no_stale ptrs valid d q"
  by (induction q arbitrary: d) simp_all

lemma no_stale_valid:
  assumes "no_stale ptrs valid d q"
    and "\<And>i. i < length q \<Longrightarrow> valid' (in_lbn (q ! i)) \<Longrightarrow> \<not> valid (in_lbn (q ! i)) \<Longrightarrow> ptr_walk ptrs d (take i q) \<noteq> 0"
  shows "no_stale ptrs valid' d q"
  using assms
proof (induction q arbitrary: d)
  case (Cons e q)
  show ?case
  proof (cases "d = 0")
    case True
    have "\<not> valid' (in_lbn ((e # q) ! i))" if "i < length (e # q)" for i
      using Cons.prems(1) Cons.prems(2) [OF that] True that nth_mem [OF that] by auto
    then show ?thesis using True by (metis in_set_conv_nth no_stale.simps(2))
  next
    case False
    have "ptr_walk ptrs (ptrs (in_lbn e) ! nat (in_off e)) (take i q) \<noteq> 0"
      if "i < length q" "valid' (in_lbn (q ! i))" "\<not> valid (in_lbn (q ! i))" for i
      using Cons.prems(2) [of "Suc i"] that False by simp
    then show ?thesis using Cons.IH Cons.prems(1) False by simp
  qed
qed simp

lemma no_stale_append:
  "ptr_walk ptrs d pre \<noteq> 0 \<Longrightarrow> no_stale ptrs valid d (pre @ q) \<longleftrightarrow> no_stale ptrs valid (ptr_walk ptrs d pre) q"
  by (induction pre arbitrary: d) (auto split: if_splits)

lemma path_ptrs_0 [simp]: "path_ptrs ptrs 0 q = {}"
  by (cases q) simp_all

lemma path_ptrs_append: "path_ptrs ptrs d (pre @ q) = path_ptrs ptrs d pre \<union> path_ptrs ptrs (ptr_walk ptrs d pre) q"
proof (induction pre arbitrary: d)
  case Nil
  show ?case by (cases q) auto
qed auto

lemma path_ptrs_cong:
  "\<forall>x \<in> set q. ptrs' (in_lbn x) ! nat (in_off x) = ptrs (in_lbn x) ! nat (in_off x) \<Longrightarrow> path_ptrs ptrs' d q = path_ptrs ptrs d q"
  by (induction q arbitrary: d) simp_all

text \<open>
  The block tree as an interface: what the routine relies on of the paths that
  \<open>ext2_getlbns\<close> returns. Two paths with the same root are equally long; where they have
  agreed so far the next block is the same one; and a logical number occurs at one place.
\<close>

locale block_tree =
  fixes paths :: "(nat \<times> indir list) set" and n :: nat
  assumes same_length: "(t, p) \<in> paths \<Longrightarrow> (t, q) \<in> paths \<Longrightarrow> length p = length q"
    and same_step: "(t, p) \<in> paths \<Longrightarrow> (t, q) \<in> paths \<Longrightarrow> i < length p \<Longrightarrow> take i p = take i q \<Longrightarrow> in_lbn (p ! i) = in_lbn (q ! i)"
    and lbn_inj: "(t, p) \<in> paths \<Longrightarrow> (u, q) \<in> paths \<Longrightarrow> i < length p \<Longrightarrow> j < length q \<Longrightarrow> in_lbn (p ! i) = in_lbn (q ! j) \<Longrightarrow>
      t = u \<and> i = j \<and> take i p = take i q"
    and entry: "(t, p) \<in> paths \<Longrightarrow> e \<in> set p \<Longrightarrow> 0 \<le> in_off e \<and> in_off e < int n \<and> \<not> in_exists e"
begin

lemma lbn_split:
  assumes "(t, pre @ e # es) \<in> paths" "(u, q) \<in> paths" "j < length q" "in_lbn (q ! j) = in_lbn e"
  shows "u = t" "j = length pre" "take j q = pre"
  using lbn_inj [OF assms(1,2), of "length pre" j] assms(3,4) by auto

lemma lbn_notin:
  assumes "(t, pre @ e # es) \<in> paths"
  shows "\<forall>x \<in> set pre. in_lbn x \<noteq> in_lbn e" "\<forall>x \<in> set es. in_lbn x \<noteq> in_lbn e"
proof -
  have J: "j = length pre" if "j < length (pre @ e # es)" "in_lbn ((pre @ e # es) ! j) = in_lbn e" for j
    using lbn_split(2) [OF assms assms that] .
  show "\<forall>x \<in> set pre. in_lbn x \<noteq> in_lbn e"
  proof
    fix x assume "x \<in> set pre"
    then obtain j where "j < length pre" "x = pre ! j" by (auto simp: in_set_conv_nth)
    then show "in_lbn x \<noteq> in_lbn e" using J [of j] by (auto simp: nth_append)
  qed
  show "\<forall>x \<in> set es. in_lbn x \<noteq> in_lbn e"
  proof
    fix x assume "x \<in> set es"
    then obtain j where "j < length es" "x = es ! j" by (auto simp: in_set_conv_nth)
    then show "in_lbn x \<noteq> in_lbn e" using J [of "length pre + Suc j"] by (auto simp: nth_append)
  qed
qed

text \<open>A path either goes through an entry of another one, or has no pointer in common with it from there on.\<close>

lemma through:
  assumes p: "(t, pre @ e # es) \<in> paths" and q: "(u, q) \<in> paths"
  shows "(u = t \<and> (\<exists>fs. q = pre @ e # fs \<and> length fs = length es)) \<or>
    (\<forall>x \<in> set q. (in_lbn x = in_lbn e \<longrightarrow> nat (in_off x) \<noteq> nat (in_off e)) \<and> (\<forall>y \<in> set es. in_lbn x \<noteq> in_lbn y))"
proof (rule disjCI)
  assume N: "\<not> (\<forall>x \<in> set q. (in_lbn x = in_lbn e \<longrightarrow> nat (in_off x) \<noteq> nat (in_off e)) \<and> (\<forall>y \<in> set es. in_lbn x \<noteq> in_lbn y))"
  have ee: "0 \<le> in_off e" "\<not> in_exists e" using entry [OF p] by simp_all
  have "\<exists>fs. u = t \<and> q = pre @ e # fs"
  proof -
    from N obtain x where x: "x \<in> set q"
      "in_lbn x = in_lbn e \<and> nat (in_off x) = nat (in_off e) \<or> (\<exists>y \<in> set es. in_lbn x = in_lbn y)" by blast
    then obtain j where j: "j < length q" "in_lbn (q ! j) = in_lbn e \<and> nat (in_off (q ! j)) = nat (in_off e) \<or> (\<exists>y \<in> set es. in_lbn (q ! j) = in_lbn y)"
      by (metis in_set_conv_nth)
    from j(2) show ?thesis
    proof
      assume a: "in_lbn (q ! j) = in_lbn e \<and> nat (in_off (q ! j)) = nat (in_off e)"
      then have s: "u = t" "take j q = pre" using lbn_split [OF p q j(1)] by simp_all
      have "0 \<le> in_off (q ! j)" "\<not> in_exists (q ! j)" using entry [OF q nth_mem [OF j(1)]] by simp_all
      then have "q ! j = e" using a ee by (simp add: nat_eq_iff2)
      then have "q = pre @ e # drop (Suc j) q" using s(2) id_take_nth_drop [OF j(1)] by simp
      then show ?thesis using s(1) by blast
    next
      assume "\<exists>y \<in> set es. in_lbn (q ! j) = in_lbn y"
      then obtain x where x: "x \<in> set es" "in_lbn (q ! j) = in_lbn x" by blast
      obtain es1 es2 where es: "es = es1 @ x # es2" using split_list [OF x(1)] by blast
      have p': "(t, (pre @ e # es1) @ x # es2) \<in> paths" using p es by simp
      have "u = t" "take j q = pre @ e # es1" using lbn_split [OF p' q j(1) x(2)] by simp_all
      then have "q = pre @ e # es1 @ drop j q" by (metis append_take_drop_id append.assoc append_Cons)
      then show ?thesis using \<open>u = t\<close> by blast
    qed
  qed
  then show "u = t \<and> (\<exists>fs. q = pre @ e # fs \<and> length fs = length es)"
    using same_length [OF p, of q] q by auto
qed

lemma next_lbn:
  assumes "(t, pre @ e # e' # es) \<in> paths" "(t, pre @ e # f # fs) \<in> paths"
  shows "in_lbn f = in_lbn e'"
  using same_step [OF assms, of "Suc (length pre)"] by (simp add: nth_append)

text \<open>Linking a cleared block into the tree changes no file block.\<close>

lemma walk_link:
  fixes nb :: int
  assumes p: "(t, pre @ e # e' # es) \<in> paths" and q: "(u, q) \<in> paths"
    and z: "ptrs (in_lbn e) ! nat (in_off e) = 0"
  defines "ptrs' \<equiv> ptrs(in_lbn e' := replicate n 0, in_lbn e := (ptrs (in_lbn e))[nat (in_off e) := nb])"
  shows "ptr_walk ptrs' d q = ptr_walk ptrs d q"
  using through [OF p q]
proof (elim disjE conjE exE)
  fix fs assume u: "u = t" and q': "q = pre @ e # fs" and l: "length fs = length (e' # es)"
  then obtain f gs where fs: "fs = f # gs" by (cases fs) auto
  have f: "in_lbn f = in_lbn e'" using next_lbn [OF p, of f gs] q u q' fs by simp
  have ne: "in_lbn e' \<noteq> in_lbn e" using lbn_notin(2) [OF p] by auto
  have off: "nat (in_off f) < n" using entry [OF q, of f] q' fs by auto
  have "\<forall>x \<in> set pre. in_lbn x \<noteq> in_lbn e" "\<forall>x \<in> set pre. in_lbn x \<noteq> in_lbn e'"
    using lbn_notin(1) [OF p] lbn_notin(1) [of t "pre @ [e]" e' es] p by auto
  then have P: "ptr_walk ptrs' d pre = ptr_walk ptrs d pre"
    by (intro ptr_walk_cong) (auto simp: ptrs'_def)
  have "ptr_walk ptrs' x fs = 0" for x using fs f ne off by (simp add: ptrs'_def)
  then show ?thesis using P q' z by (simp add: ptr_walk_append)
next
  assume N: "\<forall>x \<in> set q. (in_lbn x = in_lbn e \<longrightarrow> nat (in_off x) \<noteq> nat (in_off e)) \<and> (\<forall>y \<in> set (e' # es). in_lbn x \<noteq> in_lbn y)"
  then show ?thesis by (intro ptr_walk_cong) (auto simp: ptrs'_def)
qed

lemma walk_leaf:
  assumes p: "(t, pre @ [e]) \<in> paths" and q: "(u, q) \<in> paths" "(u, q) \<noteq> (t, pre @ [e])"
  shows "ptr_walk (ptrs(in_lbn e := (ptrs (in_lbn e))[nat (in_off e) := nb])) d q = ptr_walk ptrs d q"
  using through [OF p q(1)] q(2) by (intro ptr_walk_cong) auto

lemma walk_root:
  assumes p: "(t, e # es) \<in> paths" and q: "(u, q) \<in> paths" and d: "u = t \<longrightarrow> d = 0"
  shows "ptr_walk (ptrs(in_lbn e := replicate n 0)) (if u = t then nb else d) q = ptr_walk ptrs d q"
proof (cases "u = t")
  case True
  have "length q = length (e # es)" using same_length [OF p, of q] q True by simp
  then obtain f fs where f: "q = f # fs" by (cases q) auto
  have "in_lbn f = in_lbn e" using same_step [OF p, of q 0] q True f by simp
  moreover have "nat (in_off f) < n" using entry [OF q, of f] f by auto
  ultimately show ?thesis using True d f by simp
next
  case False
  have "in_lbn x \<noteq> in_lbn e" if "x \<in> set q" for x
    using that lbn_split(1) [of t "[]" e es u q] p q False by (metis append_Nil in_set_conv_nth)
  then show ?thesis using False by (simp, intro ptr_walk_cong) auto
qed

text \<open>The same for the buffers in the cache.\<close>

lemma stale_read:
  assumes p: "(t, pre @ e # es) \<in> paths" and q: "(u, q) \<in> paths" and s: "no_stale ptrs valid (D u) q"
    and r: "ptr_walk ptrs (D t) pre \<noteq> 0"
  shows "no_stale ptrs (valid(in_lbn e := True)) (D u) q"
proof (rule no_stale_valid [OF s])
  fix i assume "i < length q" "(valid(in_lbn e := True)) (in_lbn (q ! i))" "\<not> valid (in_lbn (q ! i))"
  then have i: "i < length q" "in_lbn (q ! i) = in_lbn e" by (auto split: if_splits)
  show "ptr_walk ptrs (D u) (take i q) \<noteq> 0" using lbn_split [OF p q i] r by simp
qed

lemma stale_link:
  fixes nb :: int
  assumes p: "(t, pre @ e # e' # es) \<in> paths" and q: "(u, q) \<in> paths" and s: "no_stale ptrs valid (D u) q"
    and r: "ptr_walk ptrs (D t) pre \<noteq> 0" and z: "ptrs (in_lbn e) ! nat (in_off e) = 0" and nb: "nb \<noteq> 0"
    and n: "length (ptrs (in_lbn e)) = n"
  defines "ptrs' \<equiv> ptrs(in_lbn e' := replicate n 0, in_lbn e := (ptrs (in_lbn e))[nat (in_off e) := nb])"
  shows "no_stale ptrs' (valid(in_lbn e' := True)) (D u) q"
  using through [OF p q]
proof (elim disjE conjE exE)
  fix fs assume u: "u = t" and q': "q = pre @ e # fs" and l: "length fs = length (e' # es)"
  then obtain f gs where fs: "fs = f # gs" by (cases fs) auto
  have qq: "(t, (pre @ [e]) @ f # gs) \<in> paths" using q u q' fs by simp
  have f: "in_lbn f = in_lbn e'" using next_lbn [OF p, of f gs] q u q' fs by simp
  have ne: "in_lbn e' \<noteq> in_lbn e" using lbn_notin(2) [OF p] by auto
  have off: "nat (in_off f) < n" "nat (in_off e) < n" using entry [OF q, of f] entry [OF q, of e] q' fs by auto
  have "\<forall>x \<in> set pre. in_lbn x \<noteq> in_lbn e" "\<forall>x \<in> set pre. in_lbn x \<noteq> in_lbn e'"
    using lbn_notin(1) [OF p] lbn_notin(1) [of t "pre @ [e]" e' es] p by auto
  then have P: "ptr_walk ptrs' (D t) pre = ptr_walk ptrs (D t) pre"
    by (intro ptr_walk_cong) (auto simp: ptrs'_def)
  have "\<forall>x \<in> set gs. \<not> valid (in_lbn x)" using s u q' fs r z by (simp add: no_stale_append)
  moreover have "\<forall>x \<in> set gs. in_lbn x \<noteq> in_lbn e'" using lbn_notin(2) [OF qq] f by auto
  ultimately have "no_stale ptrs' (valid(in_lbn e' := True)) 0 gs" by (cases gs) auto
  then have "no_stale ptrs' (valid(in_lbn e' := True)) (ptr_walk ptrs' (D t) pre) (e # fs)"
    using fs f ne off n nb P r by (simp add: ptrs'_def)
  then show ?thesis using q' u P r by (simp add: no_stale_append)
next
  assume N: "\<forall>x \<in> set q. (in_lbn x = in_lbn e \<longrightarrow> nat (in_off x) \<noteq> nat (in_off e)) \<and> (\<forall>y \<in> set (e' # es). in_lbn x \<noteq> in_lbn y)"
  then have "\<forall>x \<in> set q. ptrs' (in_lbn x) ! nat (in_off x) = ptrs (in_lbn x) ! nat (in_off x)" by (auto simp: ptrs'_def)
  from no_stale_cong [OF this] have "no_stale ptrs' valid (D u) q" using s by simp
  then show ?thesis by (rule no_stale_valid) (use N nth_mem in \<open>auto split: if_splits\<close>)
qed

lemma stale_leaf:
  assumes p: "(t, pre @ [e]) \<in> paths" and q: "(u, q) \<in> paths" and s: "no_stale ptrs valid d q"
  shows "no_stale (ptrs(in_lbn e := (ptrs (in_lbn e))[nat (in_off e) := nb])) valid d q"
  using through [OF p q]
proof (elim disjE conjE exE)
  fix fs assume "q = pre @ e # fs" "length fs = length []"
  then have q': "q = pre @ [e]" by simp
  have "no_stale ptrs valid d (pre @ [e]) \<Longrightarrow> \<forall>x \<in> set pre. in_lbn x \<noteq> in_lbn e \<Longrightarrow>
      no_stale (ptrs(in_lbn e := bap)) valid d (pre @ [e])" for bap
    by (induction pre arbitrary: d) (auto split: if_splits)
  from this [OF _ lbn_notin(1) [OF p]] s q'
  have "no_stale (ptrs(in_lbn e := bap)) valid d (pre @ [e])" for bap by simp
  then show ?thesis using q' by simp
next
  assume N: "\<forall>x \<in> set q. (in_lbn x = in_lbn e \<longrightarrow> nat (in_off x) \<noteq> nat (in_off e)) \<and> (\<forall>y \<in> set []. in_lbn x \<noteq> in_lbn y)"
  then have eq: "\<forall>x \<in> set q. (ptrs(in_lbn e := (ptrs (in_lbn e))[nat (in_off e) := nb])) (in_lbn x) ! nat (in_off x) =
      ptrs (in_lbn x) ! nat (in_off x)" by auto
  show ?thesis by (rule iffD2 [OF no_stale_cong [OF eq] s])
qed

lemma stale_root:
  assumes p: "(t, e # es) \<in> paths" and q: "(u, q) \<in> paths" and s: "no_stale ptrs valid d q" and d: "u = t \<longrightarrow> d = 0" and nb: "nb \<noteq> 0"
  shows "no_stale (ptrs(in_lbn e := replicate n 0)) (valid(in_lbn e := True)) (if u = t then nb else d) q"
proof (cases "u = t")
  case True
  have "length q = length (e # es)" using same_length [OF p, of q] q True by simp
  then obtain f fs where f: "q = f # fs" by (cases q) auto
  have e: "in_lbn f = in_lbn e" using same_step [OF p, of q 0] q True f by simp
  have off: "nat (in_off f) < n" using entry [OF q, of f] f by auto
  have v: "\<forall>x \<in> set fs. \<not> valid (in_lbn x) \<and> in_lbn x \<noteq> in_lbn e" "\<not> valid (in_lbn e)"
    using s d True f e lbn_notin(2) [of u "[]" f fs] q by auto
  have "no_stale (ptrs(in_lbn e := replicate n 0)) (valid(in_lbn e := True)) 0 fs" using v by (cases fs) auto
  then show ?thesis using True f e off nb by simp
next
  case False
  have N: "in_lbn x \<noteq> in_lbn e" if "x \<in> set q" for x
    using that lbn_split(1) [of t "[]" e es u q] p q False by (metis append_Nil in_set_conv_nth)
  have "no_stale (ptrs(in_lbn e := replicate n 0)) valid d q"
    using s no_stale_cong [of q "ptrs(in_lbn e := replicate n 0)" ptrs] N by auto
  then have "no_stale (ptrs(in_lbn e := replicate n 0)) (valid(in_lbn e := True)) d q"
    by (rule no_stale_valid) (use N nth_mem in \<open>auto split: if_splits\<close>)
  then show ?thesis using False by simp
qed

text \<open>The blocks on the path itself: exactly the new block is added.\<close>

lemma path_link:
  fixes nb :: int
  assumes p: "(t, pre @ e # e' # es) \<in> paths" and r: "ptr_walk ptrs d pre \<noteq> 0" and z: "ptrs (in_lbn e) ! nat (in_off e) = 0"
    and nb: "nb \<noteq> 0" and n: "length (ptrs (in_lbn e)) = n"
  defines "ptrs' \<equiv> ptrs(in_lbn e' := replicate n 0, in_lbn e := (ptrs (in_lbn e))[nat (in_off e) := nb])"
  shows "path_ptrs ptrs' d (pre @ e # e' # es) = insert (nat nb) (path_ptrs ptrs d (pre @ e # e' # es))"
    "ptr_walk ptrs' d (pre @ [e]) = nb"
proof -
  have ne: "in_lbn e' \<noteq> in_lbn e" using lbn_notin(2) [OF p] by auto
  have off: "nat (in_off e') < n" "nat (in_off e) < n" using entry [OF p, of e'] entry [OF p, of e] by auto
  have eq: "\<forall>x \<in> set pre. ptrs' (in_lbn x) ! nat (in_off x) = ptrs (in_lbn x) ! nat (in_off x)"
    using lbn_notin(1) [OF p] lbn_notin(1) [of t "pre @ [e]" e' es] p by (auto simp: ptrs'_def)
  have E: "ptrs' (in_lbn e) ! nat (in_off e) = nb" "ptrs' (in_lbn e') ! nat (in_off e') = 0"
    using ne off n by (simp_all add: ptrs'_def)
  show "path_ptrs ptrs' d (pre @ e # e' # es) = insert (nat nb) (path_ptrs ptrs d (pre @ e # e' # es))"
    using r E z nb by (auto simp: path_ptrs_append path_ptrs_cong [OF eq] ptr_walk_cong [OF eq])
  show "ptr_walk ptrs' d (pre @ [e]) = nb"
    using r E by (simp add: ptr_walk_append ptr_walk_cong [OF eq])
qed

lemma path_leaf:
  fixes nb :: int
  assumes p: "(t, pre @ [e]) \<in> paths" and r: "ptr_walk ptrs d pre \<noteq> 0" and z: "ptrs (in_lbn e) ! nat (in_off e) = 0"
    and nb: "nb \<noteq> 0" and n: "length (ptrs (in_lbn e)) = n"
  defines "ptrs' \<equiv> ptrs(in_lbn e := (ptrs (in_lbn e))[nat (in_off e) := nb])"
  shows "path_ptrs ptrs' d (pre @ [e]) = insert (nat nb) (path_ptrs ptrs d (pre @ [e]))"
    "ptr_walk ptrs' d (pre @ [e]) = nb"
proof -
  have off: "nat (in_off e) < n" using entry [OF p, of e] by auto
  have eq: "\<forall>x \<in> set pre. ptrs' (in_lbn x) ! nat (in_off x) = ptrs (in_lbn x) ! nat (in_off x)"
    using lbn_notin(1) [OF p] by (auto simp: ptrs'_def)
  have E: "ptrs' (in_lbn e) ! nat (in_off e) = nb" using off n by (simp add: ptrs'_def)
  show "path_ptrs ptrs' d (pre @ [e]) = insert (nat nb) (path_ptrs ptrs d (pre @ [e]))" "ptr_walk ptrs' d (pre @ [e]) = nb"
    using r E z nb by (auto simp: path_ptrs_append ptr_walk_append path_ptrs_cong [OF eq] ptr_walk_cong [OF eq])
qed

lemma path_root:
  assumes p: "(t, e # es) \<in> paths" and nb: "nb \<noteq> 0"
  shows "path_ptrs (ptrs(in_lbn e := replicate n 0)) nb (e # es) = {nat nb}"
  using entry [OF p, of e] nb by auto

end

lemma file_pathsE:
  assumes "(t, p) \<in> file_paths n"
  obtains bn where "nindir_ok n" "level_base n 4 \<le> 2 ^ 31" "0 \<le> bn" "bn < 2 ^ 31" "t < 3"
    "ext2_getlbns n bn = Inr (top_indir n (Suc t) # p)" "p = tree_path (Suc t) n (level_base n (Suc t)) (bn - level_base n (Suc t))"
    "level_base n (Suc t) \<le> bn" "bn < level_base n (Suc (Suc t))"
proof -
  from assms obtain a bn where b: "t = nat (in_off a)" "nindir_ok n" "level_base n 4 \<le> 2 ^ 31" "0 \<le> bn" "bn < 2 ^ 31"
    "ext2_getlbns n bn = Inr (a # p)" unfolding file_paths_def by blast
  obtain k where k: "k \<in> {1, 2, 3}" "a = top_indir n k" "p = tree_path k n (level_base n k) (bn - level_base n k)"
    "level_base n k \<le> bn" "bn < level_base n (Suc k)" using getlbns_paths [OF b(2-6)] by blast
  have t: "k = Suc t" using b(1) k(1,2) by (auto simp: top_indir_def)
  have "t < 3" using k(1) t by auto
  then show thesis using that [of bn] b(2-6) k(2-5) unfolding t by blast
qed

lemma file_paths_length: "(t, p) \<in> file_paths n \<Longrightarrow> length p = Suc t"
  by (erule file_pathsE) (simp del: tree_path.simps level_base.simps)

lemma tree_path_same_step:
  "i < k \<Longrightarrow> take i (tree_path k n f x) = take i (tree_path k n f y) \<Longrightarrow> in_lbn (tree_path k n f x ! i) = in_lbn (tree_path k n f y ! i)"
proof (induction k arbitrary: i f x y)
  case (Suc k)
  show ?case
  proof (cases i)
    case 0
    then show ?thesis by (simp add: Let_def)
  next
    case (Suc j)
    have o: "x div int n ^ k = y div int n ^ k"
      and t: "take j (tree_path k n (f + x div int n ^ k * int n ^ k) (x mod int n ^ k)) =
        take j (tree_path k n (f + y div int n ^ k * int n ^ k) (y mod int n ^ k))"
      using Suc.prems(2) unfolding Suc tree_path.simps Let_def take_Suc_Cons list.inject indir.iffs by blast+
    have "j < k" using Suc.prems(1) Suc by simp
    from Suc.IH [OF this t [unfolded o]] show ?thesis unfolding Suc tree_path.simps Let_def nth_Cons_Suc o .
  qed
qed simp

lemma tree_path_exists: "e \<in> set (tree_path k n f x) \<Longrightarrow> \<not> in_exists e"
  by (induction k arbitrary: f x) (auto simp: Let_def)

interpretation getlbns: block_tree "file_paths n" n for n
proof
  fix t p q assume p: "(t, p) \<in> file_paths n" and q: "(t, q) \<in> file_paths n"
  show "length p = length q" using file_paths_length [OF p] file_paths_length [OF q] by simp
  fix i assume i: "i < length p" "take i p = take i q"
  obtain x where x: "p = tree_path (Suc t) n (level_base n (Suc t)) x" using p by (rule file_pathsE) blast
  obtain y where y: "q = tree_path (Suc t) n (level_base n (Suc t)) y" using q by (rule file_pathsE) blast
  have "i < Suc t" using i(1) file_paths_length [OF p] by simp
  from tree_path_same_step [OF this] show "in_lbn (p ! i) = in_lbn (q ! i)" using i(2) unfolding x y by blast
next
  fix t p u q i j
  assume p: "(t, p) \<in> file_paths n" and q: "(u, q) \<in> file_paths n" and i: "i < length p" "j < length q"
    and e: "in_lbn (p ! i) = in_lbn (q ! j)"
  obtain b where b: "nindir_ok n" "level_base n 4 \<le> 2 ^ 31" "0 \<le> b" "b < 2 ^ 31" "ext2_getlbns n b = Inr (top_indir n (Suc t) # p)"
    using p by (rule file_pathsE) blast
  obtain c where c: "0 \<le> c" "c < 2 ^ 31" "ext2_getlbns n c = Inr (top_indir n (Suc u) # q)"
    using q by (rule file_pathsE) blast
  have "ext2_getlbns n (in_lbn (p ! i)) = Inr (top_indir n (Suc t) # take i p)"
    "ext2_getlbns n (in_lbn (q ! j)) = Inr (top_indir n (Suc u) # take j q)"
    using getlbns_indirect [OF b i(1)] getlbns_indirect [OF b(1,2) c i(2)] by blast+
  then have s: "top_indir n (Suc t) = top_indir n (Suc u)" "take i p = take j q" using e by simp_all
  have "i = j" using arg_cong [OF s(2), of length] i by simp
  then show "t = u \<and> i = j \<and> take i p = take i q" using s arg_cong [OF s(1), of in_off] by (simp add: top_indir_def)
next
  fix t p e assume p: "(t, p) \<in> file_paths n" and e: "e \<in> set p"
  obtain b where b: "nindir_ok n" "p = tree_path (Suc t) n (level_base n (Suc t)) (b - level_base n (Suc t))"
    "level_base n (Suc t) \<le> b" "b < level_base n (Suc (Suc t))" using p by (rule file_pathsE) blast
  have r: "0 < n" "0 \<le> b - level_base n (Suc t)" "b - level_base n (Suc t) < int n ^ Suc t"
    using b(1,3,4) by (simp_all add: nindir_ok_def level_base.simps(2) [of n "Suc t"] del: level_base.simps)
  show "0 \<le> in_off e \<and> in_off e < int n \<and> \<not> in_exists e"
    using tree_path_off_range [OF r e [unfolded b(2)]] tree_path_exists [OF e [unfolded b(2)]] by blast
qed

lemma mount_step_refl: "mount_step ip m ip m"
  by (simp add: mount_step_def same_layout_refl blocks_frame_refl)

lemma mount_step_trans: "mount_step ip m ip1 m1 \<Longrightarrow> mount_step ip1 m1 ip2 m2 \<Longrightarrow> mount_step ip m ip2 m2"
  unfolding mount_step_def using blocks_frame_trans same_layout_trans by metis

lemma grows_refl:
  "mount_ok n ip m \<Longrightarrow> file_ok n ip v \<Longrightarrow> tree_blocks ip v x \<subseteq> held_blocks m ip \<Longrightarrow> grows n x (ip, m, v) (ip, m, v)"
  by (auto simp: mount_step_refl)

lemma grows_trans:
  assumes "grows n x s s1" "grows n x s1 s2"
  shows "grows n x s s2"
proof -
  obtain ip m v ip1 m1 v1 ip2 m2 v2 where st: "s = (ip, m, v)" "s1 = (ip1, m1, v1)" "s2 = (ip2, m2, v2)"
    by (metis prod.exhaust)
  have a: "held_blocks m1 ip1 = held_blocks m ip \<union> tree_blocks ip1 v1 x" "tree_blocks ip1 v1 x \<inter> held_blocks m ip = tree_blocks ip v x"
    "held_blocks m2 ip2 = held_blocks m1 ip1 \<union> tree_blocks ip2 v2 x" "tree_blocks ip2 v2 x \<inter> held_blocks m1 ip1 = tree_blocks ip1 v1 x"
    using assms by (simp_all add: st)
  have "held_blocks m2 ip2 = held_blocks m ip \<union> tree_blocks ip2 v2 x" "tree_blocks ip2 v2 x \<inter> held_blocks m ip = tree_blocks ip v x"
    using a by blast+
  moreover have "mount_step ip m ip2 m2" using assms mount_step_trans by (simp add: st) blast
  ultimately show ?thesis using assms by (simp add: st)
qed

lemma mount_ok_step:
  assumes "mount_ok n ip m" "balloc_wf m'" "prealloc_ok m' ip'" "same_layout (um_e2fs m) (um_e2fs m')" "blocks_frame m m'"
  shows "mount_ok n ip' m'"
proof -
  have "e2fs_fsize (um_e2fs m') = e2fs_fsize (um_e2fs m)" "um_nindir m' = um_nindir m"
    using assms(5) by (auto simp: blocks_frame_def only_free_counts_def)
  then show ?thesis using assms by (simp add: mount_ok_def same_layout_def)
qed

lemma mount_ok_size: "mount_ok n ip m \<Longrightarrow> int32 (int (s_blocksize (um_e2fs m))) = int (4 * n)"
    "mount_ok n ip m \<Longrightarrow> ulong (int (4 * n)) = s_blocksize (um_e2fs m)"
  using int32_int [of "4 * n"] ulong_id [of "4 * n"] by (simp_all add: mount_ok_def)

lemma alloc_fresh:
  assumes ok: "mount_ok n ip m"
  shows "\<exists>r ip' m'. ext2_alloc btodb uninit m ip lbn pref (int (4 * n)) uid = Some (Return (r, ip', m')) \<and>
    (case r of Inl _ \<Rightarrow> ip' = ip \<and> m' = m | Inr nb \<Rightarrow> \<exists>b. nb = int b \<and> fresh_block n ip m b ip' m')"
proof -
  have wf: "balloc_wf m" "prealloc_ok m ip" using ok by (simp_all add: mount_ok_def)
  obtain r ip' m' where e: "ext2_alloc btodb uninit m ip lbn pref (int (4 * n)) uid = Some (Return (r, ip', m'))"
    "if alloc_nospace (um_e2fs m) (int (4 * n)) uid then r = Inl ENOSPC \<and> ip' = ip \<and> m' = m
     else \<exists>b. r = Inr (int b) \<and> block_granted m ip b ip' m' \<and>
       (\<exists>c k. ip' = ip\<lparr>i_prealloc_count := c, i_prealloc_block := k, i_next_alloc_block := word_of_int lbn,
         i_next_alloc_goal := of_nat b, i_blocks := int32 (i_blocks ip + btodb (int (4 * n)) (s_d_blocksize (um_e2fs m'))),
         i_flag := i_flag ip OR 6\<rparr>)"
    using alloc_granted [OF wf mount_ok_size(2) [OF ok]] by blast
  have "fresh_block n ip m b ip' m'" if g: "block_granted m ip b ip' m'" and d: "i_db ip' = i_db ip" "i_ib ip' = i_ib ip" for b
  proof -
    have "blocks_count (um_e2fs m) \<le> 2 ^ 31" using wf(1) by (auto simp: balloc_wf_def geometry_ok_def)
    then have "b < 2 ^ 31" using g by (simp add: block_granted_def)
    then have "int b < 2 ^ 31" by simp
    then show ?thesis
      using g d granted_data_range [OF wf g] mount_ok_step [OF ok]
      by (simp add: fresh_block_def mount_step_def block_granted_def)
  qed
  then have "case r of Inl _ \<Rightarrow> ip' = ip \<and> m' = m | Inr nb \<Rightarrow> \<exists>b. nb = int b \<and> fresh_block n ip m b ip' m'"
    using e(2) by (auto split: if_splits)
  then show ?thesis using e(1) by blast
qed

text \<open>Writing a buffer, when it succeeds and when it fails for a block that is not cached.\<close>

lemma bwrite_ok: "v_werr v l = None \<Longrightarrow> vn_bwrite v l bap = (vn_bdwrite v l bap)\<lparr>v_disk := (v_disk v)(l := bap)\<rparr>"
  by (simp add: vn_bwrite_def)

lemma bwrite_lost: "v_werr v l = Some er \<Longrightarrow> \<not> v_valid v l \<Longrightarrow> v_ptrs v l = v_disk v l \<Longrightarrow> vn_bwrite v l bap = v"
  by (simp add: vn_bwrite_def fun_upd_idem)

lemma write_ptrs_ok:
  assumes "B_SYNC fl \<longrightarrow> v_werr v l = None"
  obtains D where "write_ptrs fl v l bap = (vn_bdwrite v l bap)\<lparr>v_disk := D\<rparr>" "\<And>k. k \<noteq> l \<Longrightarrow> D k = v_disk v k"
proof (cases "B_SYNC fl")
  case True
  then show ?thesis using assms that [of "(v_disk v)(l := bap)"] by (simp add: write_ptrs_def bwrite_ok)
next
  case False
  then show ?thesis using that [of "v_disk v"] by (simp add: write_ptrs_def vn_bdwrite_def)
qed

lemma alloc_space:
  assumes ok: "mount_ok n ip m" and s: "\<not> alloc_nospace (um_e2fs m) (int (4 * n)) uid"
  shows "\<exists>b ip' m'. ext2_alloc btodb uninit m ip lbn pref (int (4 * n)) uid = Some (Return (Inr (int b), ip', m')) \<and> fresh_block n ip m b ip' m'"
proof -
  have wf: "balloc_wf m" "prealloc_ok m ip" using ok by (simp_all add: mount_ok_def)
  obtain r ip' m' where e: "ext2_alloc btodb uninit m ip lbn pref (int (4 * n)) uid = Some (Return (r, ip', m'))"
    "case r of Inl _ \<Rightarrow> ip' = ip \<and> m' = m | Inr nb \<Rightarrow> \<exists>b. nb = int b \<and> fresh_block n ip m b ip' m'"
    using alloc_fresh [OF ok] by blast
  moreover have "\<exists>b. r = Inr (int b)"
    using alloc_granted [OF wf mount_ok_size(2) [OF ok], of btodb uninit lbn pref uid] s e(1) by auto
  ultimately show ?thesis by auto
qed

lemma indir_fresh:
  assumes ok: "mount_ok n ip m" and l: "\<not> v_valid v l" "v_ptrs v l = v_disk v l"
  shows "\<exists>r ip' m' v'. balloc_indir env lbn pref l (ip, m, v) = Some (Return (r, ip', m', v')) \<and>
    (case r of
       Inl _ \<Rightarrow> v' = v \<and> mount_ok n ip' m' \<and> mount_step ip m ip' m' \<and> i_ib ip' = i_ib ip \<and> held_blocks m' ip' = held_blocks m ip
     | Inr nb \<Rightarrow> v' = (vn_bdwrite v l (replicate n 0))\<lparr>v_disk := (v_disk v)(l := replicate n 0)\<rparr> \<and> (\<exists>b. nb = int b \<and> fresh_block n ip m b ip' m'))"
proof -
  note sz = mount_ok_size(1) [OF ok]
  obtain r ip1 m1 where e: "ext2_alloc (be_btodb env) (be_uninit env) m ip lbn pref (int (4 * n)) (be_uid env) = Some (Return (r, ip1, m1))"
    "case r of Inl _ \<Rightarrow> ip1 = ip \<and> m1 = m | Inr nb \<Rightarrow> \<exists>b. nb = int b \<and> fresh_block n ip m b ip1 m1"
    using alloc_fresh [OF ok] by blast
  show ?thesis
  proof (cases r)
    case (Inl er)
    then show ?thesis using e ok sz mount_step_refl by (simp add: balloc_indir_def)
  next
    case (Inr nb)
    then obtain b where b: "nb = int b" "fresh_block n ip m b ip1 m1" using e(2) by auto
    have ok1: "mount_ok n ip1 m1" and st: "mount_step ip m ip1 m1" using b(2) by (simp_all add: fresh_block_def)
    have sz1: "s_blocksize (um_e2fs m1) div 4 = n" using ok1 by (simp add: mount_ok_def)
    show ?thesis
    proof (cases "v_werr v l")
      case None
      then show ?thesis using e(1) Inr b sz sz1 by (simp add: balloc_indir_def bwrite_ok Let_def)
    next
      case (Some er)
      have f: "balloc_wf m1" "prealloc_ok m1 ip1" "data_range (um_e2fs m1) b 1" "b \<notin> prealloc_run ip1"
        "ulong (int (4 * n)) = e2fs_fsize (um_e2fs m1)" "0 < e2fs_fsize (um_e2fs m1)"
        using b(2) ok1 mount_ok_size(2) [OF ok1] by (simp_all add: fresh_block_def mount_ok_def)
      obtain m2 where m2: "ext2_blkfree m1 (int b) (int (4 * n)) = Return m2" "balloc_wf m2" "prealloc_ok m2 ip1"
        "held_blocks m2 ip1 = held_blocks m1 ip1 - {b}" "same_layout (um_e2fs m1) (um_e2fs m2)" "blocks_frame m1 m2"
        using blkfree_held [OF f] by blast
      have "mount_ok n ip1 m2" by (rule mount_ok_step [OF ok1 m2(2,3,5,6)])
      moreover have "mount_step ip m ip1 m2" using mount_step_trans [OF st] m2(5,6) by (simp add: mount_step_def)
      moreover have "held_blocks m2 ip1 = held_blocks m ip" "i_ib ip1 = i_ib ip" using m2(4) b(2) by (auto simp: fresh_block_def)
      ultimately show ?thesis
        using e(1) Inr b(1) Some m2(1) sz mount_ok_size(1) [OF ok1] by (simp add: balloc_indir_def bwrite_lost [OF Some l] Let_def)
    qed
  qed
qed

text \<open>The three ways the routine changes the tree, and reading a buffer.\<close>

lemma file_okD:
  assumes "file_ok n ip v"
  shows "length (v_ptrs v l) = n" "(t, p) \<in> file_paths n \<Longrightarrow> no_stale (v_ptrs v) (v_valid v) (i_ib ip ! t) p"
    "length (i_ib ip) = 3" "\<not> v_valid v l \<Longrightarrow> v_ptrs v l = v_disk v l"
  using assms by (auto simp: file_ok_def ptrs_ok_def)

lemma file_ok_read:
  assumes ok: "file_ok n ip v" and p: "(t, pre @ e # es) \<in> file_paths n" and r: "ptr_walk (v_ptrs v) (i_ib ip ! t) pre \<noteq> 0"
  shows "file_ok n ip (v\<lparr>v_valid := (v_valid v)(in_lbn e := True)\<rparr>)"
  using ok getlbns.stale_read [where D = "\<lambda>t. i_ib ip ! t", OF p _ _ r] by (auto simp: file_ok_def)

lemma ptrs_ok_update: "ptrs_ok n bap \<Longrightarrow> int b < 2 ^ 31 \<Longrightarrow> ptrs_ok n (bap[i := int b])"
  unfolding ptrs_ok_def using set_update_subset_insert [of bap i "int b"] by auto

lemma link_grows:
  assumes ok: "file_ok n ip v" and f: "fresh_block n ip m b ip' m'" and p: "(t, pre @ e # e' # es) \<in> file_paths n"
    and r: "ptr_walk (v_ptrs v) (i_ib ip ! t) pre \<noteq> 0" and z: "v_ptrs v (in_lbn e) ! nat (in_off e) = 0"
    and va: "v_valid v (in_lbn e)" and h: "tree_blocks ip v (t, pre @ e # e' # es) \<subseteq> held_blocks m ip"
    and D: "\<And>l. l \<noteq> in_lbn e \<Longrightarrow> l \<noteq> in_lbn e' \<Longrightarrow> D l = v_disk v l"
  defines "v' \<equiv> (vn_bdwrite (vn_bdwrite v (in_lbn e') (replicate n 0)) (in_lbn e) ((v_ptrs v (in_lbn e))[nat (in_off e) := int b]))\<lparr>v_disk := D\<rparr>"
  shows "grows n (t, pre @ e # e' # es) (ip, m, v) (ip', m', v')" "ptr_walk (v_ptrs v') (i_ib ip' ! t) (pre @ [e]) \<noteq> 0"
    "tree_ptr ip' v' (t, pre @ e # e' # es) = tree_ptr ip v (t, pre @ e # e' # es)"
proof -
  have b: "int b \<noteq> 0" "int b < 2 ^ 31" and ib: "i_ib ip' = i_ib ip" "i_db ip' = i_db ip"
    using f by (simp_all add: fresh_block_def mount_step_def)
  have V: "v_ptrs v' = (v_ptrs v)(in_lbn e' := replicate n 0, in_lbn e := (v_ptrs v (in_lbn e))[nat (in_off e) := int b])"
    "v_valid v' = (v_valid v)(in_lbn e' := True)" "v_err v' = v_err v" "v_werr v' = v_werr v" "v_disk v' = D" using va by (auto simp: v'_def vn_bdwrite_def fun_eq_iff)
  note n = file_okD(1) [OF ok, of "in_lbn e"]
  have "ptrs_ok n (v_ptrs v' l)" for l
    using ok b(2) ptrs_ok_update [of n "v_ptrs v (in_lbn e)" b] by (auto simp: V file_ok_def ptrs_ok_def)
  moreover have "no_stale (v_ptrs v') (v_valid v') (i_ib ip ! u) q" if "(u, q) \<in> file_paths n" for u q
    unfolding V by (rule getlbns.stale_link [where D = "\<lambda>t. i_ib ip ! t", OF p that file_okD(2) [OF ok that] r z b(1) n])
  moreover have "v_ptrs v' l = v_disk v' l" if "\<not> v_valid v' l" for l
    using that va D file_okD(4) [OF ok, of l] by (auto simp: V split: if_splits)
  ultimately have fo: "file_ok n ip' v'" using ok ib by (auto simp: file_ok_def)
  have w: "tree_ptr ip' v' y = tree_ptr ip v y" if "y \<in> file_paths n" for y
    unfolding tree_ptr_def V ib using getlbns.walk_link [OF p, where ptrs = "v_ptrs v", OF _ z] that by (metis prod.collapse)
  have t: "tree_blocks ip' v' (t, pre @ e # e' # es) = insert b (tree_blocks ip v (t, pre @ e # e' # es))"
    unfolding tree_blocks_def V ib fst_conv snd_conv getlbns.path_link(1) [OF p r z b(1) n] by simp
  show "grows n (t, pre @ e # e' # es) (ip, m, v) (ip', m', v')" using f fo w p h V(3,4) by (auto simp: fresh_block_def t)
  show "ptr_walk (v_ptrs v') (i_ib ip' ! t) (pre @ [e]) \<noteq> 0"
    unfolding V ib getlbns.path_link(2) [OF p r z b(1) n] by (rule b(1))
  show "tree_ptr ip' v' (t, pre @ e # e' # es) = tree_ptr ip v (t, pre @ e # e' # es)" by (rule w [OF p])
qed

lemma leaf_grows:
  assumes ok: "file_ok n ip v" and f: "fresh_block n ip m b ip' m'" and p: "(t, pre @ [e]) \<in> file_paths n"
    and r: "ptr_walk (v_ptrs v) (i_ib ip ! t) pre \<noteq> 0" and z: "v_ptrs v (in_lbn e) ! nat (in_off e) = 0"
    and va: "v_valid v (in_lbn e)" and h: "tree_blocks ip v (t, pre @ [e]) \<subseteq> held_blocks m ip"
    and D: "\<And>l. l \<noteq> in_lbn e \<Longrightarrow> D l = v_disk v l"
  defines "v' \<equiv> (vn_bdwrite v (in_lbn e) ((v_ptrs v (in_lbn e))[nat (in_off e) := int b]))\<lparr>v_disk := D\<rparr>"
  shows "grows n (t, pre @ [e]) (ip, m, v) (ip', m', v')" "tree_ptr ip' v' (t, pre @ [e]) = int b"
proof -
  have b: "int b \<noteq> 0" "int b < 2 ^ 31" and ib: "i_ib ip' = i_ib ip" "i_db ip' = i_db ip"
    using f by (simp_all add: fresh_block_def mount_step_def)
  have V: "v_ptrs v' = (v_ptrs v)(in_lbn e := (v_ptrs v (in_lbn e))[nat (in_off e) := int b])"
    "v_valid v' = v_valid v" "v_err v' = v_err v" "v_werr v' = v_werr v" "v_disk v' = D" using va by (auto simp: v'_def vn_bdwrite_def fun_eq_iff)
  note n = file_okD(1) [OF ok, of "in_lbn e"]
  have "ptrs_ok n (v_ptrs v' l)" for l
    using ok b(2) ptrs_ok_update [of n "v_ptrs v (in_lbn e)" b] by (auto simp: V file_ok_def)
  moreover have "no_stale (v_ptrs v') (v_valid v') (i_ib ip ! u) q" if "(u, q) \<in> file_paths n" for u q
    unfolding V by (rule getlbns.stale_leaf [OF p that file_okD(2) [OF ok that]])
  moreover have "v_ptrs v' l = v_disk v' l" if "\<not> v_valid v' l" for l
    using that va D file_okD(4) [OF ok, of l] by (auto simp: V)
  ultimately have fo: "file_ok n ip' v'" using ok ib by (auto simp: file_ok_def)
  have w: "tree_ptr ip' v' y = tree_ptr ip v y" if "y \<in> file_paths n" "y \<noteq> (t, pre @ [e])" for y
    unfolding tree_ptr_def V ib using getlbns.walk_leaf [OF p] that by (metis prod.collapse)
  note P = getlbns.path_leaf [OF p r z b(1) n]
  have t: "tree_blocks ip' v' (t, pre @ [e]) = insert b (tree_blocks ip v (t, pre @ [e]))"
    unfolding tree_blocks_def V ib fst_conv snd_conv P(1) by simp
  have z0: "tree_ptr ip v (t, pre @ [e]) = 0" using z by (simp add: tree_ptr_def ptr_walk_append)
  show "grows n (t, pre @ [e]) (ip, m, v) (ip', m', v')" using f fo w p h z0 V(3,4) by (auto simp: fresh_block_def t)
  show "tree_ptr ip' v' (t, pre @ [e]) = int b" unfolding tree_ptr_def V ib fst_conv snd_conv P(2) ..
qed

lemma root_grows:
  fixes fl :: u32
  assumes ok: "file_ok n ip v" and f: "fresh_block n ip m b ip' m'" and p: "(t, e # es) \<in> file_paths n"
    and z: "i_ib ip ! t = 0"
  defines "v' \<equiv> (vn_bdwrite v (in_lbn e) (replicate n 0))\<lparr>v_disk := (v_disk v)(in_lbn e := replicate n 0)\<rparr>" and "ip'' \<equiv> ip'\<lparr>i_ib := (i_ib ip')[t := int b], i_flag := fl\<rparr>"
  shows "grows n (t, e # es) (ip, m, v) (ip'', m', v')" "i_ib ip'' ! t \<noteq> 0"
    "tree_ptr ip'' v' (t, e # es) = tree_ptr ip v (t, e # es)"
proof -
  have b: "int b \<noteq> 0" "int b < 2 ^ 31" and ib: "i_ib ip' = i_ib ip" "i_db ip' = i_db ip"
    using f by (simp_all add: fresh_block_def mount_step_def)
  have t3: "t < 3" using p by (rule file_pathsE)
  have V: "v_ptrs v' = (v_ptrs v)(in_lbn e := replicate n 0)" "v_valid v' = (v_valid v)(in_lbn e := True)"
    "v_err v' = v_err v" "v_werr v' = v_werr v" "v_disk v' = (v_disk v)(in_lbn e := replicate n 0)" by (simp_all add: v'_def vn_bdwrite_def)
  have I: "i_ib ip'' ! u = (if u = t then int b else i_ib ip ! u)" for u
    using file_okD(3) [OF ok] t3 ib by (simp add: ip''_def)
  have "ptrs_ok n (v_ptrs v' l)" for l using ok by (auto simp: V file_ok_def ptrs_ok_def)
  moreover have "no_stale (v_ptrs v') (v_valid v') (i_ib ip'' ! u) q" if "(u, q) \<in> file_paths n" for u q
    unfolding V I by (rule getlbns.stale_root [OF p that file_okD(2) [OF ok that] _ b(1)]) (use z in simp)
  moreover have "ptrs_ok 3 (i_ib ip'')" using ok ib b(2) ptrs_ok_update by (simp add: file_ok_def ip''_def)
  moreover have "v_ptrs v' l = v_disk v' l" if "\<not> v_valid v' l" for l
    using that file_okD(4) [OF ok, of l] by (auto simp: V split: if_splits)
  ultimately have fo: "file_ok n ip'' v'" using ok ib by (auto simp: file_ok_def ip''_def)
  have w: "tree_ptr ip'' v' y = tree_ptr ip v y" if "y \<in> file_paths n" for y
    unfolding tree_ptr_def V I using getlbns.walk_root [OF p, where nb = "int b"] that z by (metis prod.collapse)
  have T: "tree_blocks ip'' v' (t, e # es) = {b}" "tree_blocks ip v (t, e # es) = {}"
    using getlbns.path_root [OF p b(1)] z unfolding tree_blocks_def V I fst_conv snd_conv by simp_all
  have "mount_ok n ip'' m'" "mount_step ip m ip'' m'" "held_blocks m' ip'' = held_blocks m' ip'"
    using f by (simp_all add: fresh_block_def mount_ok_def mount_step_def ip''_def prealloc_ok_def prealloc_run_def held_blocks_def)
  then show "grows n (t, e # es) (ip, m, v) (ip'', m', v')" using f fo w p V(3,4) by (auto simp: fresh_block_def T)
  show "i_ib ip'' ! t \<noteq> 0" using b(1) I by simp
  show "tree_ptr ip'' v' (t, e # es) = tree_ptr ip v (t, e # es)" by (rule w [OF p])
qed

lemma grown_error:
  "grows n x (ip, m, v) (ip', m', v') \<Longrightarrow> tree_ptr ip' v' x = tree_ptr ip v x \<Longrightarrow> grown n lbn x (ip, m, v) (Some (Return (Inl er, ip', m', v')))"
  unfolding grown_def fst_conv snd_conv by (intro exI conjI, rule refl, assumption) simp

lemma grown_done:
  "grows n x s (ip', m', v') \<Longrightarrow> tree_ptr ip' v' x \<noteq> 0 \<Longrightarrow> buf_ok m' lbn (tree_ptr ip' v' x) y \<Longrightarrow>
   grown n lbn x s (Some (Return (Inr y, ip', m', v')))"
  unfolding grown_def by (intro exI conjI, rule refl, assumption) simp

lemma grown_trans:
  assumes "grows n x (ip, m, v) (ip1, m1, v1)" "tree_ptr ip1 v1 x = tree_ptr ip v x" "grown n lbn x (ip1, m1, v1) R"
  shows "grown n lbn x (ip, m, v) R"
proof -
  obtain r ip' m' v' where R: "R = Some (Return (r, ip', m', v'))" "grows n x (ip1, m1, v1) (ip', m', v')"
    "case r of Inl _ \<Rightarrow> tree_ptr ip' v' x = tree_ptr ip1 v1 x | Inr y \<Rightarrow> tree_ptr ip' v' x \<noteq> 0 \<and> buf_ok m' lbn (tree_ptr ip' v' x) y"
    using assms(3) unfolding grown_def fst_conv snd_conv by blast
  note g = grows_trans [OF assms(1) R(2)]
  show ?thesis
  proof (cases r)
    case (Inl er)
    have "tree_ptr ip' v' x = tree_ptr ip v x" using R(3) assms(2) Inl by simp
    then show ?thesis unfolding R(1) Inl by (rule grown_error [OF g])
  next
    case (Inr y)
    have "tree_ptr ip' v' x \<noteq> 0" "buf_ok m' lbn (tree_ptr ip' v' x) y" using R(3) Inr by simp_all
    then show ?thesis unfolding R(1) Inr by (rule grown_done [OF g])
  qed
qed

lemma data_grown:
  assumes mo: "mount_ok n ip m" and ok: "file_ok n ip v" and p: "(t, pre @ [e]) \<in> file_paths n"
    and r: "ptr_walk (v_ptrs v) (i_ib ip ! t) pre \<noteq> 0" and va: "v_valid v (in_lbn e)"
    and h: "tree_blocks ip v (t, pre @ [e]) \<subseteq> held_blocks m ip" and s: "B_SYNC fl \<longrightarrow> v_werr v (in_lbn e) = None"
  shows "grown n lbn (t, pre @ [e]) (ip, m, v) (balloc_data env fl lbn e (v_ptrs v (in_lbn e)) (ip, m, v))"
proof (cases "v_ptrs v (in_lbn e) ! nat (in_off e) = 0")
  case False
  then have t: "tree_ptr ip v (t, pre @ [e]) = v_ptrs v (in_lbn e) ! nat (in_off e)" "tree_ptr ip v (t, pre @ [e]) \<noteq> 0"
    using r by (simp_all add: tree_ptr_def ptr_walk_append)
  note g = grown_done [OF grows_refl [OF mo ok h] t(2)] grown_error [OF grows_refl [OF mo ok h] refl]
  have "\<exists>r. balloc_data env fl lbn e (v_ptrs v (in_lbn e)) (ip, m, v) = Some (Return (r, ip, m, v)) \<and>
      (case r of Inl _ \<Rightarrow> True | Inr y \<Rightarrow> buf_ok m lbn (tree_ptr ip v (t, pre @ [e])) y)"
    using False unfolding t(1) by (simp add: balloc_data_def Let_def buf_ok_def split: option.split)
  then obtain r where "balloc_data env fl lbn e (v_ptrs v (in_lbn e)) (ip, m, v) = Some (Return (r, ip, m, v))"
    "case r of Inl _ \<Rightarrow> True | Inr y \<Rightarrow> buf_ok m lbn (tree_ptr ip v (t, pre @ [e])) y" by blast
  then show ?thesis using g by (cases r) simp_all
next
  case True
  let ?pref = "ext2_blkpref (um_e2fs m) ip lbn (in_off e) (Some (v_ptrs v (in_lbn e))) (in_lbn e)"
  obtain r ip1 m1 where e: "ext2_alloc (be_btodb env) (be_uninit env) m ip lbn ?pref (int (4 * n)) (be_uid env) = Some (Return (r, ip1, m1))"
    "case r of Inl _ \<Rightarrow> ip1 = ip \<and> m1 = m | Inr nb \<Rightarrow> \<exists>b. nb = int b \<and> fresh_block n ip m b ip1 m1"
    using alloc_fresh [OF mo] by blast
  show ?thesis
  proof (cases r)
    case (Inl er)
    then have "balloc_data env fl lbn e (v_ptrs v (in_lbn e)) (ip, m, v) = Some (Return (Inl er, ip, m, v))"
      using e True mount_ok_size(1) [OF mo] by (simp add: balloc_data_def Let_def)
    then show ?thesis using grown_error [OF grows_refl [OF mo ok h] refl] by simp
  next
    case (Inr nb)
    then obtain b where b: "nb = int b" "fresh_block n ip m b ip1 m1" using e(2) by auto
    then have "int b \<noteq> 0" by (simp add: fresh_block_def)
    obtain D where D: "write_ptrs fl v (in_lbn e) ((v_ptrs v (in_lbn e))[nat (in_off e) := int b]) =
        (vn_bdwrite v (in_lbn e) ((v_ptrs v (in_lbn e))[nat (in_off e) := int b]))\<lparr>v_disk := D\<rparr>" "\<And>k. k \<noteq> in_lbn e \<Longrightarrow> D k = v_disk v k"
      using write_ptrs_ok [OF s] by blast
    note G = leaf_grows [OF ok b(2) p r True va h, of D, OF D(2), folded D(1)]
    have "tree_ptr ip1 (write_ptrs fl v (in_lbn e) ((v_ptrs v (in_lbn e))[nat (in_off e) := int b])) (t, pre @ [e]) \<noteq> 0"
      using G(2) \<open>int b \<noteq> 0\<close> by simp
    from grown_done [OF G(1) this] show ?thesis
      using G(2) e(1) Inr b(1) True mount_ok_size(1) [OF mo] by (simp add: balloc_data_def Let_def buf_ok_def)
  qed
qed

lemma grows_held: "grows n x (ip, m, v) (ip', m', v') \<Longrightarrow> tree_blocks ip' v' x \<subseteq> held_blocks m' ip'"
  by auto

lemma read_grows:
  assumes mo: "mount_ok n ip m" and ok: "file_ok n ip v" and p: "(t, pre @ e # es) \<in> file_paths n"
    and r: "ptr_walk (v_ptrs v) (i_ib ip ! t) pre \<noteq> 0" and h: "tree_blocks ip v (t, pre @ e # es) \<subseteq> held_blocks m ip"
  defines "v' \<equiv> v\<lparr>v_valid := (v_valid v)(in_lbn e := True)\<rparr>"
  shows "grows n (t, pre @ e # es) (ip, m, v) (ip, m, v')"
  using mo file_ok_read [OF ok p r] h unfolding v'_def by (auto simp: mount_step_refl tree_ptr_def tree_blocks_def)

lemma same_tree_grows:
  assumes "mount_ok n ip' m'" "mount_step ip m ip' m'" "i_ib ip' = i_ib ip" "held_blocks m' ip' = held_blocks m ip"
    "file_ok n ip v" "tree_blocks ip v x \<subseteq> held_blocks m ip"
  shows "grows n x (ip, m, v) (ip', m', v)" "tree_ptr ip' v x = tree_ptr ip v x"
  using assms by (auto simp: file_ok_def mount_step_def tree_ptr_def tree_blocks_def)

text \<open>No buffer is cached for an indirect block that is about to be made.\<close>

lemma fresh_uncached:
  assumes "file_ok n ip v" "(t, pre @ e # e' # es) \<in> file_paths n" "ptr_walk (v_ptrs v) (i_ib ip ! t) pre \<noteq> 0"
    "v_ptrs v (in_lbn e) ! nat (in_off e) = 0"
  shows "\<not> v_valid v (in_lbn e')" "v_ptrs v (in_lbn e') = v_disk v (in_lbn e')"
proof -
  show "\<not> v_valid v (in_lbn e')" using file_okD(2) [OF assms(1,2)] assms(3,4) by (simp add: no_stale_append)
  then show "v_ptrs v (in_lbn e') = v_disk v (in_lbn e')" by (rule file_okD(4) [OF assms(1)])
qed

lemma loop_new:
  fixes ip :: inode and m :: ext2mount
  assumes "vn_bread v (in_lbn e) = None" "v_ptrs v (in_lbn e) ! nat (in_off e) = 0"
    and "balloc_indir env lbn pref' (in_lbn e') (ip, m, v\<lparr>v_valid := (v_valid v)(in_lbn e := True)\<rparr>) = Some (Return (r, ip2, m2, v2))"
    and "pref' = (if pref = 0 then ext2_blkpref (um_e2fs m) ip lbn (in_off e') (Some (v_ptrs v (in_lbn e))) (in_lbn e) else pref)"
  shows "balloc_loop env fl lbn pref e (e' # es) (ip, m, v) = (case r of
      Inl error \<Rightarrow> Some (Return (Inl error, (ip2, m2, v2)))
    | Inr nb \<Rightarrow> balloc_loop env fl lbn pref' e' es (ip2, m2, write_ptrs fl v2 (in_lbn e) ((v_ptrs v (in_lbn e))[nat (in_off e) := nb])))"
  by (subst balloc_loop.simps, cases "pref = 0"; cases r) (use assms in \<open>simp_all add: vn_meta_bread_def Let_def\<close>)

lemma loop_grown:
  assumes "mount_ok n ip m" "file_ok n ip v" "(t, pre @ e # es) \<in> file_paths n"
    "ptr_walk (v_ptrs v) (i_ib ip ! t) pre \<noteq> 0" "tree_blocks ip v (t, pre @ e # es) \<subseteq> held_blocks m ip" "sync_ok fl v (e # es)"
  shows "grown n lbn (t, pre @ e # es) (ip, m, v) (balloc_loop env fl lbn pref e es (ip, m, v))"
  using assms
proof (induction es arbitrary: pre e pref ip m v)
  case (Cons e' es)
  let ?x = "(t, pre @ e # e' # es)"
  show ?case
  proof (cases "vn_bread v (in_lbn e)")
    case (Some er)
    then show ?thesis using grown_error [OF grows_refl [OF Cons.prems(1,2,5)] refl] by (simp add: vn_meta_bread_def)
  next
    case None
    define v1 where "v1 = v\<lparr>v_valid := (v_valid v)(in_lbn e := True)\<rparr>"
    have g: "grows n ?x (ip, m, v) (ip, m, v1)" using read_grows [OF Cons.prems(1-5)] by (simp add: v1_def)
    have T: "tree_ptr ip v1 ?x = tree_ptr ip v ?x" by (simp add: v1_def tree_ptr_def)
    have ok1: "file_ok n ip v1" "tree_blocks ip v1 ?x \<subseteq> held_blocks m ip" "v_valid v1 (in_lbn e)" "v_ptrs v1 = v_ptrs v"
      using g grows_held [OF g] by (simp_all add: v1_def)
    have s: "sync_ok fl v1 (e' # es)" "B_SYNC fl \<longrightarrow> v_werr v1 (in_lbn e) = None" using Cons.prems(6) by (simp_all add: sync_ok_def v1_def)
    note r1 = Cons.prems(4) [folded ok1(4)]
    have p': "(t, (pre @ [e]) @ e' # es) \<in> file_paths n" using Cons.prems(3) by simp
    show ?thesis
    proof (cases "v_ptrs v1 (in_lbn e) ! nat (in_off e) = 0")
      case False
      have "ptr_walk (v_ptrs v1) (i_ib ip ! t) (pre @ [e]) \<noteq> 0" using False r1 by (simp add: ptr_walk_append)
      from Cons.IH [OF Cons.prems(1) ok1(1) p' this _ s(1), of pref] ok1(2)
      have "grown n lbn ?x (ip, m, v1) (balloc_loop env fl lbn pref e' es (ip, m, v1))" by simp
      from grown_trans [OF g _ this] T False None show ?thesis by (simp add: vn_meta_bread_def v1_def)
    next
      case True
      define pref' where "pref' = (if pref = 0 then ext2_blkpref (um_e2fs m) ip lbn (in_off e') (Some (v_ptrs v (in_lbn e))) (in_lbn e) else pref)"
      obtain r ip2 m2 v2 where i: "balloc_indir env lbn pref' (in_lbn e') (ip, m, v1) = Some (Return (r, ip2, m2, v2))"
        "case r of
           Inl _ \<Rightarrow> v2 = v1 \<and> mount_ok n ip2 m2 \<and> mount_step ip m ip2 m2 \<and> i_ib ip2 = i_ib ip \<and> held_blocks m2 ip2 = held_blocks m ip
         | Inr nb \<Rightarrow> v2 = (vn_bdwrite v1 (in_lbn e') (replicate n 0))\<lparr>v_disk := (v_disk v1)(in_lbn e' := replicate n 0)\<rparr> \<and>
             (\<exists>b. nb = int b \<and> fresh_block n ip m b ip2 m2)"
        using indir_fresh [OF Cons.prems(1) fresh_uncached [OF ok1(1) Cons.prems(3) r1 True], of env lbn pref'] by (elim exE conjE) (rule that)
      have L: "balloc_loop env fl lbn pref e (e' # es) (ip, m, v) = (case r of
          Inl error \<Rightarrow> Some (Return (Inl error, (ip2, m2, v2)))
        | Inr nb \<Rightarrow> balloc_loop env fl lbn pref' e' es (ip2, m2, write_ptrs fl v2 (in_lbn e) ((v_ptrs v (in_lbn e))[nat (in_off e) := nb])))"
        by (rule loop_new [OF None _ i(1) [unfolded v1_def] pref'_def]) (use True ok1(4) in simp)
      have "grown n lbn ?x (ip, m, v1) (balloc_loop env fl lbn pref e (e' # es) (ip, m, v))"
      proof (cases r)
        case (Inl er)
        have "mount_ok n ip2 m2" "mount_step ip m ip2 m2" "i_ib ip2 = i_ib ip" "held_blocks m2 ip2 = held_blocks m ip" "v2 = v1"
          using i(2) Inl by simp_all
        then show ?thesis using L Inl grown_error [OF same_tree_grows [OF _ _ _ _ ok1(1,2), of ip2 m2]] by simp
      next
        case (Inr nb)
        then obtain b where b: "nb = int b" "fresh_block n ip m b ip2 m2"
          "v2 = (vn_bdwrite v1 (in_lbn e') (replicate n 0))\<lparr>v_disk := (v_disk v1)(in_lbn e' := replicate n 0)\<rparr>" using i(2) by auto
        have s2: "B_SYNC fl \<longrightarrow> v_werr v2 (in_lbn e) = None" "sync_ok fl v2 (e' # es)" using s by (simp_all add: b(3) vn_bdwrite_def sync_ok_def)
        define v3 where "v3 = write_ptrs fl v2 (in_lbn e) ((v_ptrs v1 (in_lbn e))[nat (in_off e) := int b])"
        obtain D where D: "v3 = (vn_bdwrite v2 (in_lbn e) ((v_ptrs v1 (in_lbn e))[nat (in_off e) := int b]))\<lparr>v_disk := D\<rparr>"
          "\<And>k. k \<noteq> in_lbn e \<Longrightarrow> D k = v_disk v2 k" using write_ptrs_ok [OF s2(1)] unfolding v3_def by blast
        have D': "v3 = (vn_bdwrite (vn_bdwrite v1 (in_lbn e') (replicate n 0)) (in_lbn e) ((v_ptrs v1 (in_lbn e))[nat (in_off e) := int b]))\<lparr>v_disk := D\<rparr>"
          unfolding D(1) b(3) by (simp add: vn_bdwrite_def)
        have Dv: "D l = v_disk v1 l" if "l \<noteq> in_lbn e" "l \<noteq> in_lbn e'" for l using D(2) [OF that(1)] that(2) by (simp add: b(3) vn_bdwrite_def)
        note G = link_grows [OF ok1(1) b(2) Cons.prems(3) r1 True ok1(3,2), of D, OF Dv, folded D']
        have G': "mount_ok n ip2 m2" "file_ok n ip2 v3" "v_werr v3 = v_werr v1" using G(1) by simp_all
        have "sync_ok fl v3 (e' # es)" using s(1) G'(3) by (simp add: sync_ok_def)
        then have "grown n lbn ?x (ip2, m2, v3) (balloc_loop env fl lbn pref' e' es (ip2, m2, v3))"
          using Cons.IH [OF G'(1,2) p' G(2)] grows_held [OF G(1)] by simp
        from grown_trans [OF G(1) G(3) this] show ?thesis using L Inr b(1) by (simp add: v3_def ok1(4))
      qed
      from grown_trans [OF g _ this] T show ?thesis by simp
    qed
  qed
next
  case Nil
  show ?case
  proof (cases "vn_bread v (in_lbn e)")
    case (Some er)
    then show ?thesis using grown_error [OF grows_refl [OF Nil(1,2,5)] refl] by (simp add: vn_meta_bread_def)
  next
    case None
    define v' where "v' = v\<lparr>v_valid := (v_valid v)(in_lbn e := True)\<rparr>"
    have g: "grows n (t, pre @ [e]) (ip, m, v) (ip, m, v')" using read_grows [OF Nil(1-5)] by (simp add: v'_def)
    have "grown n lbn (t, pre @ [e]) (ip, m, v') (balloc_data env fl lbn e (v_ptrs v' (in_lbn e)) (ip, m, v'))"
      by (rule data_grown) (use g Nil grows_held [OF g] in \<open>simp_all add: v'_def sync_ok_def\<close>)
    from grown_trans [OF g _ this] show ?thesis using None by (simp add: vn_meta_bread_def v'_def tree_ptr_def)
  qed
qed


lemma path_of:
  assumes "nindir_ok n" "level_base n 4 \<le> 2 ^ 31" "0 \<le> c" "c < 2 ^ 31" "ext2_getlbns n c = Inr (a # es)"
  shows "(nat (in_off a), es) \<in> file_paths n" "file_ptr n ip (v_ptrs v) c = tree_ptr ip v (nat (in_off a), es)"
    "blocks_to n ip (v_ptrs v) c = tree_blocks ip v (nat (in_off a), es)"
  using assms by (auto simp: file_paths_def file_ptr_def tree_ptr_def blocks_to_def tree_blocks_def)

lemma path_value:
  assumes n: "nindir_ok n" "level_base n 4 \<le> 2 ^ 31" and b: "0 \<le> b" "b < 2 ^ 31" "ext2_getlbns n b = Inr (a # es)"
  shows "b = level_base n (length es) + rel_of n (map in_off es)"
proof -
  obtain k where k: "k \<in> {1, 2, 3}" "es = tree_path k n (level_base n k) (b - level_base n k)" "level_base n k \<le> b" "b < level_base n (Suc k)"
    using getlbns_paths [OF n b] by blast
  have r: "0 < n" "0 \<le> b - level_base n k" "b - level_base n k < int n ^ k" using n(1) k(3,4) by (simp_all add: nindir_ok_def)
  show ?thesis using rel_of_tree_path [OF r, of "level_base n k"] unfolding k(2) length_tree_path by simp
qed

lemma path_of_inj:
  assumes n: "nindir_ok n" "level_base n 4 \<le> 2 ^ 31" and b: "0 \<le> b" "b < 2 ^ 31" "ext2_getlbns n b = Inr (a # es)"
    and c: "0 \<le> c" "c < 2 ^ 31" "ext2_getlbns n c = Inr (a' # es)"
  shows "b = c"
  using path_value [OF n b] path_value [OF n c] by simp

lemma grown_mapped:
  assumes n: "nindir_ok n" "level_base n 4 \<le> 2 ^ 31" and b: "0 \<le> bn" "bn < 2 ^ 31" "ext2_getlbns n bn = Inr (a # es)"
    and g: "grown n bn (nat (in_off a), es) (ip, m, v) R"
  shows "mapped n bn (ip, m, v) R"
proof -
  obtain r ip' m' v' where R: "R = Some (Return (r, ip', m', v'))" and G: "grows n (nat (in_off a), es) (ip, m, v) (ip', m', v')"
    and C: "case r of Inl _ \<Rightarrow> tree_ptr ip' v' (nat (in_off a), es) = tree_ptr ip v (nat (in_off a), es)
      | Inr y \<Rightarrow> tree_ptr ip' v' (nat (in_off a), es) \<noteq> 0 \<and> buf_ok m' bn (tree_ptr ip' v' (nat (in_off a), es)) y"
    using g unfolding grown_def fst_conv snd_conv by blast
  have db: "i_db ip' = i_db ip" using G by (simp add: mount_step_def)
  have "file_ptr n ip' (v_ptrs v') c = file_ptr n ip (v_ptrs v) c" if c: "0 \<le> c" "c < 2 ^ 31" "c \<noteq> bn" for c
  proof (cases "\<exists>a' es'. ext2_getlbns n c = Inr (a' # es')")
    case True
    then obtain a' es' where e: "ext2_getlbns n c = Inr (a' # es')" by blast
    have "es' \<noteq> es" using path_of_inj [OF n b c(1,2)] e c(3) by blast
    then have "(nat (in_off a'), es') \<noteq> (nat (in_off a), es)" by simp
    then show ?thesis using G path_of(1) [OF n c(1,2) e] unfolding path_of(2) [OF n c(1,2) e] grows.simps by blast
  next
    case False
    then consider er where "ext2_getlbns n c = Inl er" | "ext2_getlbns n c = Inr []"
      by (metis neq_Nil_conv sum.exhaust)
    then show ?thesis using db by cases (simp_all add: file_ptr_def)
  qed
  then have F: "\<forall>c. 0 \<le> c \<and> c < 2 ^ 31 \<and> c \<noteq> bn \<longrightarrow> file_ptr n ip' (v_ptrs v') c = file_ptr n ip (v_ptrs v) c" by blast
  show ?thesis unfolding mapped_def prod.case path_of(2,3) [OF n b]
    by (intro exI conjI, rule R) (use G [unfolded grows.simps mount_step_def] F C in blast)+
qed

text \<open>Changes of the inode that do not concern its blocks.\<close>

lemma same_blocks:
  assumes "i_db ip' = i_db ip" "i_ib ip' = i_ib ip" "i_prealloc_count ip' = i_prealloc_count ip" "i_prealloc_block ip' = i_prealloc_block ip"
  shows "mount_ok n ip' m = mount_ok n ip m" "file_ok n ip' v = file_ok n ip v" "file_ptr n ip' = file_ptr n ip"
    "blocks_to n ip' = blocks_to n ip" "held_blocks m ip' = held_blocks m ip"
  unfolding mount_ok_def file_ok_def file_ptr_def [abs_def] blocks_to_def [abs_def] held_blocks_def prealloc_ok_def prealloc_run_def assms
  by (rule refl)+

lemma mapped_same:
  assumes "mount_ok n ip m" "file_ok n ip v" "blocks_to n ip (v_ptrs v) bn \<subseteq> held_blocks m ip"
    and ip': "i_db ip' = i_db ip" "i_ib ip' = i_ib ip" "i_prealloc_count ip' = i_prealloc_count ip" "i_prealloc_block ip' = i_prealloc_block ip"
    and r: "case r of Inl _ \<Rightarrow> True | Inr y \<Rightarrow> file_ptr n ip (v_ptrs v) bn \<noteq> 0 \<and> buf_ok m bn (file_ptr n ip (v_ptrs v) bn) y"
  shows "mapped n bn (ip, m, v) (Some (Return (r, ip', m, v)))"
  unfolding mapped_def prod.case
  by (intro exI conjI, rule refl) (use assms in \<open>auto simp: same_blocks [OF ip'] same_layout_refl blocks_frame_refl split: sum.splits\<close>)

lemma mapped_seq: "mapped n bn (balloc_seq ip c, m, v) R \<longleftrightarrow> mapped n bn (ip, m, v) R"
proof -
  have "i_db (balloc_seq ip c) = i_db ip" "i_ib (balloc_seq ip c) = i_ib ip" "i_prealloc_count (balloc_seq ip c) = i_prealloc_count ip"
    "i_prealloc_block (balloc_seq ip c) = i_prealloc_block ip" by (simp_all add: balloc_seq_def)
  note S = same_blocks [OF this]
  show ?thesis unfolding mapped_def prod.case S ..
qed

lemma fragroundup_block:
  assumes "mount_ok n ip m" "0 < x" "x \<le> 4 * n"
  shows "fragroundup (um_e2fs m) x = Return (int (4 * n))"
proof -
  have n: "e2fs_fsize (um_e2fs m) = 4 * n" "0 < n" "4 * n < 2 ^ 31" using assms(1) by (simp_all add: mount_ok_def)
  have "x + (4 * n - 1) < 2 ^ 64" using n assms by simp
  then have "ulong (int (x + (4 * n - 1))) = x + (4 * n - 1)" by (rule ulong_id)
  moreover have "(x + (4 * n - 1)) div (4 * n) = 1" by (rule div_nat_eqI) (use n assms in simp_all)
  ultimately have "roundup x (4 * n) = 4 * n" by (simp only: roundup_def)
  then show ?thesis using n int32_int [of "4 * n"] by (simp add: fragroundup_def)
qed

lemma direct_present:
  assumes mo: "mount_ok n ip m" and b: "0 \<le> bn" "bn < 12" and d: "direct_ok n ip m bn sz" and z: "i_db ip ! nat bn \<noteq> 0"
  shows "\<exists>r ip'. balloc_direct env fl bn sz (ip, m, v) = Some (Return (r, ip', m, v)) \<and>
     i_db ip' = i_db ip \<and> i_ib ip' = i_ib ip \<and> i_prealloc_count ip' = i_prealloc_count ip \<and> i_prealloc_block ip' = i_prealloc_block ip \<and>
     (case r of Inl _ \<Rightarrow> True | Inr y \<Rightarrow> buf_ok m bn (i_db ip ! nat bn) y)"
proof -
  have bs: "s_blocksize (um_e2fs m) = 4 * n" "4 * n < 2 ^ 31" "0 < n" using mo by (simp_all add: mount_ok_def)
  show ?thesis
  proof (cases "i_size ip < ulong ((bn + 1) * int (s_blocksize (um_e2fs m)))")
    case False
    then show ?thesis using z by (simp add: balloc_direct_def Let_def buf_ok_def split: option.split)
  next
    case True
    obtain k where k: "4 * n = 2 ^ k" and mask: "s_qbmask (um_e2fs m) = 4 * n - 1" and sz: "0 < sz" "sz \<le> int (4 * n)"
      and eof: "nat bn * (4 * n) < i_size ip" using d b z unfolding direct_ok_def by blast
    have "(nat bn + 1) * (4 * n) < 12 * 2 ^ 31"
      using b bs mult_le_mono [of "nat bn + 1" 12 "4 * n" "4 * n"] by linarith
    then have "ulong (int ((nat bn + 1) * (4 * n))) = (nat bn + 1) * (4 * n)" by (intro ulong_id) simp
    moreover have "(bn + 1) * int (s_blocksize (um_e2fs m)) = int ((nat bn + 1) * (4 * n))" using b bs by (simp add: distrib_right)
    ultimately have "i_size ip < (nat bn + 1) * (4 * n)" using True by simp
    then have "i_size ip div (4 * n) = nat bn" using eof bs(3) by (intro div_nat_eqI) (simp_all add: mult.commute)
    then have "i_size ip mod (4 * n) = i_size ip - nat bn * (4 * n)" by (metis minus_div_mult_eq_mod)
    then have off: "0 < i_size ip mod (4 * n)" "i_size ip mod (4 * n) \<le> 4 * n"
      using eof bs(3) mod_less_divisor [of "4 * n" "i_size ip"] by linarith+
    have bo: "blkoff (um_e2fs m) (i_size ip) = i_size ip mod (4 * n)"
      unfolding blkoff_def mask k by (simp add: take_bit_eq_mod [symmetric] take_bit_eq_mask mask_eq_exp_minus_1)
    have us: "ulong sz = nat sz" using ulong_id [of "nat sz"] sz bs(2) by simp
    have f: "fragroundup (um_e2fs m) (blkoff (um_e2fs m) (i_size ip)) = Return (int (4 * n))"
      "fragroundup (um_e2fs m) (ulong sz) = Return (int (4 * n))"
      unfolding bo us by (rule fragroundup_block [OF mo off]) (rule fragroundup_block [OF mo], use sz in simp_all)
    show ?thesis using z True f by (simp add: balloc_direct_def Let_def buf_ok_def split: option.split)
  qed
qed

lemma direct_mapped:
  assumes mo: "mount_ok n ip m" and ok: "file_ok n ip v" and h: "blocks_to n ip (v_ptrs v) bn \<subseteq> held_blocks m ip"
    and g: "ext2_getlbns n bn = Inr []" and b: "0 \<le> bn" "bn < 12" and d: "direct_ok n ip m bn sz"
    and D: "\<And>c. 0 \<le> c \<Longrightarrow> c < 12 \<Longrightarrow> ext2_getlbns n c = Inr []"
      "\<And>c. 0 \<le> c \<Longrightarrow> c < 2 ^ 31 \<Longrightarrow> ext2_getlbns n c = Inr [] \<Longrightarrow> c < 12"
  shows "mapped n bn (ip, m, v) (balloc_direct env fl bn sz (ip, m, v))"
proof (cases "i_db ip ! nat bn = 0")
  case True
  have sz: "0 < sz" "sz \<le> int (4 * n)" using d by (simp_all add: direct_ok_def)
  have bs: "s_blocksize (um_e2fs m) = 4 * n" using mo by (simp add: mount_ok_def)
  have n31: "4 * n < 2 ^ 31" using mo by (simp add: mount_ok_def)
  have us: "ulong sz = nat sz" using ulong_id [of "nat sz"] sz n31 by simp
  have fr: "fragroundup (um_e2fs m) (ulong sz) = Return (int (4 * n))"
    unfolding us by (rule fragroundup_block [OF mo]) (use sz in simp_all)
  let ?pref = "ext2_blkpref (um_e2fs m) ip bn bn (Some (i_db ip)) 0"
  obtain r ip1 m1 where e: "ext2_alloc (be_btodb env) (be_uninit env) m ip bn ?pref (int (4 * n)) (be_uid env) = Some (Return (r, ip1, m1))"
    "case r of Inl _ \<Rightarrow> ip1 = ip \<and> m1 = m | Inr nb \<Rightarrow> \<exists>b. nb = int b \<and> fresh_block n ip m b ip1 m1"
    using alloc_fresh [OF mo] by blast
  have L: "balloc_direct env fl bn sz (ip, m, v) = (case r of
      Inl error \<Rightarrow> Some (Return (Inl error, (ip1, m1, v)))
    | Inr newb \<Rightarrow> Some (Return (Inr (if \<not> B_NOBUFF fl then
          Some \<lparr>bp_lblkno = bn, bp_blkno = Some (fsbtodb (um_e2fs m1) newb), bp_size = int (4 * n), bp_clear = B_CLRBUF fl\<rparr> else None, int (4 * n)),
        (ip1\<lparr>i_db := (i_db ip1)[nat bn := newb], i_flag := i_flag ip1 OR 6\<rparr>, m1, v))))"
    using True e(1) fr int32_int [of "4 * n"] n31 by (simp add: balloc_direct_def Let_def bs split: sum.split)
  show ?thesis
  proof (cases r)
    case (Inl er)
    then show ?thesis unfolding L using e(2) mapped_same [OF mo ok h, of ip "Inl er"] by simp
  next
    case (Inr nb)
    then obtain k where k: "nb = int k" "fresh_block n ip m k ip1 m1" using e(2) by auto
    define ip2 where "ip2 = ip1\<lparr>i_db := (i_db ip1)[nat bn := int k], i_flag := i_flag ip1 OR 6\<rparr>"
    have f: "0 < k" "int k < 2 ^ 31" "k \<notin> held_blocks m ip" "held_blocks m1 ip1 = insert k (held_blocks m ip)" "mount_ok n ip1 m1"
      "i_ib ip1 = i_ib ip" "i_db ip1 = i_db ip" "same_layout (um_e2fs m) (um_e2fs m1)" "blocks_frame m m1" using k(2) by (simp_all add: fresh_block_def mount_step_def)
    have l: "length (i_db ip) = 12" using ok by (simp add: file_ok_def ptrs_ok_def)
    have ip2: "mount_ok n ip2 m1" "file_ok n ip2 v" "held_blocks m1 ip2 = held_blocks m1 ip1"
      using f ok ptrs_ok_update [of 12 "i_db ip" k "nat bn"]
      by (simp_all add: ip2_def mount_ok_def file_ok_def held_blocks_def prealloc_ok_def prealloc_run_def)
    have F: "file_ptr n ip2 (v_ptrs v) c = file_ptr n ip (v_ptrs v) c" if c: "0 \<le> c" "c < 2 ^ 31" "c \<noteq> bn" for c
    proof (cases "ext2_getlbns n c")
      case (Inr p)
      then show ?thesis using D(2) [OF c(1,2)] f l b c by (cases p) (simp_all add: file_ptr_def ip2_def nth_list_update nat_eq_iff)
    qed (simp add: file_ptr_def)
    have P: "file_ptr n ip2 (v_ptrs v) bn = int k" "file_ptr n ip (v_ptrs v) bn = 0" "blocks_to n ip2 (v_ptrs v) bn = {k}" "blocks_to n ip (v_ptrs v) bn = {}"
      using True g f l b by (simp_all add: file_ptr_def blocks_to_def ip2_def)
    show ?thesis unfolding L Inr k(1) mapped_def prod.case sum.case ip2_def [symmetric]
      by (intro exI conjI, rule refl) (use ip2 F P f in \<open>auto simp: buf_ok_def\<close>)
  qed
next
  case False
  have p: "file_ptr n ip (v_ptrs v) bn = i_db ip ! nat bn" using g by (simp add: file_ptr_def)
  have "\<exists>r ip'. balloc_direct env fl bn sz (ip, m, v) = Some (Return (r, ip', m, v)) \<and>
     i_db ip' = i_db ip \<and> i_ib ip' = i_ib ip \<and> i_prealloc_count ip' = i_prealloc_count ip \<and> i_prealloc_block ip' = i_prealloc_block ip \<and>
     (case r of Inl _ \<Rightarrow> True | Inr y \<Rightarrow> buf_ok m bn (i_db ip ! nat bn) y)"
    by (rule direct_present [OF mo b d False])
  then obtain r ip' where R: "balloc_direct env fl bn sz (ip, m, v) = Some (Return (r, ip', m, v))"
     "i_db ip' = i_db ip" "i_ib ip' = i_ib ip" "i_prealloc_count ip' = i_prealloc_count ip" "i_prealloc_block ip' = i_prealloc_block ip"
     "case r of Inl _ \<Rightarrow> True | Inr y \<Rightarrow> buf_ok m bn (i_db ip ! nat bn) y" by blast
  show ?thesis unfolding R(1) by (rule mapped_same [OF mo ok h R(2-5)]) (use R(6) p False in \<open>auto split: sum.splits\<close>)
qed

lemma indirect_mapped:
  assumes n: "nindir_ok n" "level_base n 4 \<le> 2 ^ 31" and b: "0 \<le> bn" "bn < 2 ^ 31" "ext2_getlbns n bn = Inr (a # e # es)"
    and mo: "mount_ok n ip m" and ok: "file_ok n ip v" and h: "blocks_to n ip (v_ptrs v) bn \<subseteq> held_blocks m ip"
    and s: "sync_ok fl v (e # es)"
  shows "mapped n bn (ip, m, v)
    (if i_ib ip ! nat (in_off a) = 0 then
       bindo (balloc_indir env bn pref (in_lbn e) (ip, m, v)) (\<lambda>(r, ip, m, v).
       case r of
         Inl error \<Rightarrow> Some (Return (Inl error, (ip, m, v)))
       | Inr nb \<Rightarrow> balloc_loop env fl bn pref e es
           (ip\<lparr>i_ib := (i_ib ip)[nat (in_off a) := nb], i_flag := i_flag ip OR 6\<rparr>, m, v))
     else balloc_loop env fl bn 0 e es (ip, m, v))" (is "mapped n bn (ip, m, v) ?R")
proof -
  let ?t = "nat (in_off a)"
  have p: "(?t, e # es) \<in> file_paths n" and bt: "tree_blocks ip v (?t, e # es) \<subseteq> held_blocks m ip"
    using path_of [OF n b] h by simp_all
  have "grown n bn (?t, e # es) (ip, m, v) ?R"
  proof (cases "i_ib ip ! ?t = 0")
    case False
    then show ?thesis using loop_grown [of n ip m v ?t "[]" e es] mo ok p bt s by simp
  next
    case True
    have nv: "\<not> v_valid v (in_lbn e)" using file_okD(2) [OF ok p] True by simp
    obtain r ip1 m1 v1 where i: "balloc_indir env bn pref (in_lbn e) (ip, m, v) = Some (Return (r, ip1, m1, v1))"
      "case r of
         Inl _ \<Rightarrow> v1 = v \<and> mount_ok n ip1 m1 \<and> mount_step ip m ip1 m1 \<and> i_ib ip1 = i_ib ip \<and> held_blocks m1 ip1 = held_blocks m ip
       | Inr nb \<Rightarrow> v1 = (vn_bdwrite v (in_lbn e) (replicate n 0))\<lparr>v_disk := (v_disk v)(in_lbn e := replicate n 0)\<rparr> \<and>
           (\<exists>b. nb = int b \<and> fresh_block n ip m b ip1 m1)"
      using indir_fresh [OF mo nv(1) file_okD(4) [OF ok nv(1)], of env bn pref] by (elim exE conjE) (rule that)
    show ?thesis
    proof (cases r)
      case (Inl er)
      then have "mount_ok n ip1 m1" "mount_step ip m ip1 m1" "i_ib ip1 = i_ib ip" "held_blocks m1 ip1 = held_blocks m ip" "v1 = v"
        using i(2) by simp_all
      then show ?thesis using True i(1) Inl grown_error [OF same_tree_grows [OF _ _ _ _ ok bt, of ip1 m1]] by simp
    next
      case (Inr nb)
      then obtain k where k: "nb = int k" "fresh_block n ip m k ip1 m1"
        "v1 = (vn_bdwrite v (in_lbn e) (replicate n 0))\<lparr>v_disk := (v_disk v)(in_lbn e := replicate n 0)\<rparr>" using i(2) by auto
      define ip2 where "ip2 = ip1\<lparr>i_ib := (i_ib ip1)[?t := int k], i_flag := i_flag ip1 OR 6\<rparr>"
      note G = root_grows [OF ok k(2) p True, of "i_flag ip1 OR 6", folded ip2_def k(3)]
      have G': "mount_ok n ip2 m1" "file_ok n ip2 v1" "v_werr v1 = v_werr v" using G(1) by simp_all
      have s1: "sync_ok fl v1 (e # es)" using s G'(3) by (simp add: sync_ok_def)
      have "grown n bn (?t, e # es) (ip2, m1, v1) (balloc_loop env fl bn pref e es (ip2, m1, v1))"
        using loop_grown [OF G'(1,2), of ?t "[]" e es] p G(2) grows_held [OF G(1)] s1 by simp
      from grown_trans [OF G(1) G(3) this] show ?thesis using True i(1) Inr k(1) by (simp add: ip2_def)
    qed
  qed
  then show ?thesis by (rule grown_mapped [OF n b])
qed

lemma balloc2_mapped:
  assumes n: "nindir_ok n" "level_base n 4 \<le> 2 ^ 31" and b: "0 \<le> bn" "bn < 2 ^ 31"
    and mo: "mount_ok n ip m" and ok: "file_ok n ip v" and h: "blocks_to n ip (v_ptrs v) bn \<subseteq> held_blocks m ip"
    and d: "direct_ok n ip m bn sz" and s: "\<forall>p. ext2_getlbns n bn = Inr p \<longrightarrow> sync_ok fl v p"
  shows "mapped n bn (ip, m, v) (ext2_balloc2 env fl bn sz (ip, m, v))"
proof -
  define ip1 where "ip1 = balloc_seq ip bn"
  have f: "i_db ip1 = i_db ip" "i_ib ip1 = i_ib ip" "i_prealloc_count ip1 = i_prealloc_count ip"
    "i_prealloc_block ip1 = i_prealloc_block ip" "i_size ip1 = i_size ip" by (simp_all add: ip1_def balloc_seq_def)
  note S = same_blocks [OF f(1-4)]
  have mo1: "mount_ok n ip1 m" and ok1: "file_ok n ip1 v" and h1: "blocks_to n ip1 (v_ptrs v) bn \<subseteq> held_blocks m ip1"
    and d1: "direct_ok n ip1 m bn sz" using mo ok h d S f by (simp_all add: direct_ok_def)
  have nn: "um_nindir m = n" using mo by (simp add: mount_ok_def)
  have "mapped n bn (ip1, m, v) (ext2_balloc2 env fl bn sz (ip, m, v))"
    using n(1) b n(2)
  proof (cases rule: block_cases)
    case direct
    have D: "ext2_getlbns n c = Inr []" if "0 \<le> c" "c < 12" for c using getlbns_data(1) [OF n(1), of c] that by simp
    have D2: "c < 12" if c: "0 \<le> c" "c < 2 ^ 31" "ext2_getlbns n c = Inr []" for c
      using n(1) c(1,2) n(2) by (cases rule: block_cases) (use c(3) in \<open>simp_all add: data_path_def\<close>)
    have L: "ext2_balloc2 env fl bn sz (ip, m, v) = balloc_direct env fl bn sz (ip1, m, v)"
      using direct(1) b by (simp add: ext2_balloc2_def Let_def ip1_def)
    show ?thesis unfolding L by (rule direct_mapped [OF mo1 ok1 h1 direct(2) b(1) direct(1) d1 D D2])
  next
    case (indirect k)
    have "length (tree_path k n (level_base n k) (bn - level_base n k)) \<noteq> 0" unfolding length_tree_path using indirect(1) by auto
    then obtain e es where e: "tree_path k n (level_base n k) (bn - level_base n k) = e # es" unfolding length_0_conv neq_Nil_conv by blast
    have g: "ext2_getlbns n bn = Inr (top_indir n k # e # es)" unfolding indirect(5) data_path_def e ..
    have "12 \<le> bn" using level_base_pos(1) [OF indirect(1), of n] indirect(2) by linarith
    then have L: "ext2_balloc2 env fl bn sz (ip, m, v) =
        (let pref = ext2_blkpref (um_e2fs m) ip1 bn (in_off (top_indir n k) + 12) (Some (i_db ip1 @ i_ib ip1)) 0 in
         if i_ib ip1 ! nat (in_off (top_indir n k)) = 0 then
           bindo (balloc_indir env bn pref (in_lbn e) (ip1, m, v)) (\<lambda>(r, ip, m, v).
           case r of
             Inl error \<Rightarrow> Some (Return (Inl error, (ip, m, v)))
           | Inr nb \<Rightarrow> balloc_loop env fl bn pref e es
               (ip\<lparr>i_ib := (i_ib ip)[nat (in_off (top_indir n k)) := nb], i_flag := i_flag ip OR 6\<rparr>, m, v))
         else balloc_loop env fl bn 0 e es (ip1, m, v))"
      using g nn b by (simp add: ext2_balloc2_def Let_def ip1_def)
    show ?thesis unfolding L Let_def by (rule indirect_mapped [OF n b g mo1 ok1 h1]) (use s g in \<open>simp add: sync_ok_def\<close>)
  next
    case big
    have "0 \<le> int n ^ 2" "0 \<le> int n ^ 3" by simp_all
    then have "12 \<le> bn" using big(1) unfolding level_base_1_4 by linarith
    then have "ext2_balloc2 env fl bn sz (ip, m, v) = Some (Return (Inl EFBIG, ip1, m, v))"
      using big(2) nn b by (simp add: ext2_balloc2_def Let_def ip1_def)
    then show ?thesis using mapped_same [OF mo1 ok1 h1 refl refl refl refl, of "Inl EFBIG"] by simp
  qed
  then show ?thesis unfolding ip1_def mapped_seq .
qed

section \<open>Properties\<close>

lemma no_stale_walk:
  "no_stale (v_ptrs v) (v_valid v) d p \<Longrightarrow> \<forall>l. v_err v l = None \<Longrightarrow> walk_ok v d p"
  by (induction p arbitrary: d) (auto split: if_splits)

lemma file_ok_path:
  assumes "nindir_ok n" "level_base n 4 \<le> 2 ^ 31" "0 \<le> bn" "bn < level_base n 4" "file_ok n ip v" "\<forall>l. v_err v l = None"
  shows "path_ok n v ip bn"
proof -
  have b: "bn < 2 ^ 31" using assms by linarith
  show ?thesis
    using assms(1,3) b assms(2)
  proof (cases rule: block_cases)
    case (indirect k)
    then have g: "ext2_getlbns n bn = Inr (top_indir n k # tree_path k n (level_base n k) (bn - level_base n k))" by (simp only: data_path_def)
    show ?thesis
      using no_stale_walk [OF file_okD(2) [OF assms(5) path_of(1) [OF assms(1,2,3) b g]] assms(6)] by (simp add: path_ok_def g)
  next
    case direct
    then show ?thesis by (simp add: path_ok_def)
  next
    case big
    then show ?thesis using assms(4) by simp
  qed
qed

lemma tiny_balloc_ok: "nindir_ok 8" "level_base 8 4 \<le> 2 ^ 31" "mount_ok 8 tiny_file tiny_mount" "file_ok 8 tiny_file empty_vbufs"
  "direct_ok 8 tiny_file tiny_mount bn 32" "blocks_to 8 tiny_file (v_ptrs empty_vbufs) 12 \<subseteq> held_blocks tiny_mount tiny_file"
proof -
  show "nindir_ok 8" "level_base 8 4 \<le> 2 ^ 31" by (simp_all add: nindir_ok_def level_base_1_4)
  show "mount_ok 8 tiny_file tiny_mount"
    using tiny_fs_wf(2) tiny_file_fields(3) by (simp add: mount_ok_def tiny_fields) (simp add: tiny_defs tiny_mount_def)
  have d: "i_db tiny_file = replicate 12 0" "i_ib tiny_file = replicate 3 0" by (simp_all add: tiny_file_def tiny_dir_def)
  have "no_stale (v_ptrs empty_vbufs) (v_valid empty_vbufs) x p" for x p
    by (induction p arbitrary: x) (simp_all add: empty_vbufs_def)
  then show "file_ok 8 tiny_file empty_vbufs" by (auto simp: file_ok_def ptrs_ok_def d) (simp_all add: empty_vbufs_def)
  have "(4 * 8 :: nat) = 2 ^ 5" by simp
  then have "\<exists>k. (4 * 8 :: nat) = 2 ^ k" by blast
  then show "direct_ok 8 tiny_file tiny_mount bn 32"
    by (auto simp: direct_ok_def d tiny_mount_def tiny_sb_def nth_replicate nat_less_iff)
  have "ext2_getlbns 8 12 = Inr [\<lparr>in_lbn = -12, in_off = 0, in_exists = False\<rparr>, \<lparr>in_lbn = -12, in_off = 0, in_exists = False\<rparr>]"
    by (simp add: ext2_getlbns_def Let_def numeral_3_eq_3 int32_def)
  then show "blocks_to 8 tiny_file (v_ptrs empty_vbufs) 12 \<subseteq> held_blocks tiny_mount tiny_file" by (simp add: blocks_to_def d)
qed

text \<open>
  C2: \<^verbatim>\<open>ext2_balloc2\<close> always returns and never panics, for a block in any of the four ranges, on a
  consistent mount and file (\<open>mount_ok\<close>, \<open>file_ok\<close>), for a size of at most one block, when a direct block
  that exists lies below the end of the file (\<open>direct_ok\<close>; without that the call may panic) and when, under \<^verbatim>\<open>B_SYNC\<close>, the
  writes of the indirect blocks on the path succeed (\<open>sync_ok\<close>; without that a block can be lost).
  Then no other block of the file changes, the block itself keeps its place if it has one, and the blocks on its
  path that the file did not have before are exactly the ones that have become held: none is leaked and none was held by anybody
  else, also when a read fails, when the allocation of a later block fails, or when, without \<^verbatim>\<open>B_SYNC\<close>, the write of a new indirect block
  fails. On success the block is mapped and the buffer returned is at its device address. The consistency of the
  mount, of the block tree and of the cached buffers is preserved.
\<close>

theorem ext2_balloc2_correct:
  assumes "nindir_ok n" "level_base n 4 \<le> 2 ^ 31" "0 \<le> bn" "bn < 2 ^ 31"
    and "mount_ok n ip m" "file_ok n ip v" "blocks_to n ip (v_ptrs v) bn \<subseteq> held_blocks m ip" "direct_ok n ip m bn sz"
    and "\<forall>p. ext2_getlbns n bn = Inr p \<longrightarrow> sync_ok fl v p"
  shows "\<exists>r ip' m' v'. ext2_balloc2 env fl bn sz (ip, m, v) = Some (Return (r, ip', m', v')) \<and>
     mount_ok n ip' m' \<and> file_ok n ip' v' \<and>
     (\<forall>c. 0 \<le> c \<and> c < 2 ^ 31 \<and> c \<noteq> bn \<longrightarrow> file_ptr n ip' (v_ptrs v') c = file_ptr n ip (v_ptrs v) c) \<and>
     held_blocks m' ip' = held_blocks m ip \<union> blocks_to n ip' (v_ptrs v') bn \<and>
     blocks_to n ip' (v_ptrs v') bn \<inter> held_blocks m ip = blocks_to n ip (v_ptrs v) bn \<and>
     (file_ptr n ip (v_ptrs v) bn \<noteq> 0 \<longrightarrow> file_ptr n ip' (v_ptrs v') bn = file_ptr n ip (v_ptrs v) bn) \<and>
     (case r of Inl _ \<Rightarrow> file_ptr n ip' (v_ptrs v') bn = file_ptr n ip (v_ptrs v) bn
      | Inr y \<Rightarrow> file_ptr n ip' (v_ptrs v') bn \<noteq> 0 \<and> buf_ok m' bn (file_ptr n ip' (v_ptrs v') bn) y)"
  using balloc2_mapped [OF assms, of env] unfolding mapped_def prod.case by blast

theorem ext2_balloc2_correct_witness:
  "\<exists>r ip' m' v'. ext2_balloc2 tiny_env tiny_flags 12 32 (tiny_file, tiny_mount, empty_vbufs) = Some (Return (r, ip', m', v')) \<and>
     mount_ok 8 ip' m' \<and> held_blocks m' ip' = held_blocks tiny_mount tiny_file \<union> blocks_to 8 ip' (v_ptrs v') 12"
  using ext2_balloc2_correct [OF tiny_balloc_ok(1,2) _ _ tiny_balloc_ok(3,4,6,5), of tiny_flags tiny_env] by (simp add: sync_ok_def tiny_flags_def, blast)

lemma blocks_to_self:
  assumes "file_ptr n ip ptrs bn \<noteq> 0"
  shows "nat (file_ptr n ip ptrs bn) \<in> blocks_to n ip ptrs bn"
proof -
  have "nat (ptr_walk ptrs d p) \<in> path_ptrs ptrs d p" if "ptr_walk ptrs d p \<noteq> 0" for d p
    using that by (induction p arbitrary: d) (auto split: if_splits)
  then show ?thesis using assms by (auto simp: file_ptr_def blocks_to_def split: sum.splits list.splits)
qed

lemma ptr_walk_pos:
  "0 \<le> d \<Longrightarrow> \<forall>l. ptrs_ok n (ptrs l) \<Longrightarrow> \<forall>e \<in> set p. nat (in_off e) < n \<Longrightarrow> 0 \<le> ptr_walk ptrs d p"
proof (induction p arbitrary: d)
  case (Cons e p)
  have "ptrs_ok n (ptrs (in_lbn e))" "nat (in_off e) < n" using Cons.prems(2,3) by simp_all
  then have "0 \<le> ptrs (in_lbn e) ! nat (in_off e)" unfolding ptrs_ok_def by (metis nth_mem)
  then show ?case using Cons by simp
qed simp

lemma file_ptr_pos:
  assumes n: "nindir_ok n" "level_base n 4 \<le> 2 ^ 31" and b: "0 \<le> bn" "bn < 2 ^ 31" and ok: "file_ok n ip v"
  shows "0 \<le> file_ptr n ip (v_ptrs v) bn"
proof (cases "ext2_getlbns n bn")
  case (Inr p)
  show ?thesis
  proof (cases p)
    case Nil
    have "bn < 12" using n(1) b n(2) by (cases rule: block_cases) (use Inr Nil in \<open>simp_all add: data_path_def\<close>)
    then show ?thesis using ok b Inr Nil by (auto simp: file_ptr_def file_ok_def ptrs_ok_def)
  next
    case (Cons a es)
    note x = path_of(1) [OF n b Inr [unfolded Cons]]
    have t: "nat (in_off a) < 3" using x by (rule file_pathsE)
    have d: "0 \<le> i_ib ip ! nat (in_off a)" using ok t by (simp add: file_ok_def ptrs_ok_def)
    have "\<forall>e \<in> set es. nat (in_off e) < n" using getlbns.entry [OF x] by (auto simp: nat_less_iff)
    then show ?thesis using ptr_walk_pos [OF d, of n "v_ptrs v" es] ok Inr Cons by (simp add: file_ptr_def file_ok_def)
  qed
qed (simp add: file_ptr_def)

text \<open>
  C17: what \<^verbatim>\<open>ext2_balloc2\<close> maps, \<^verbatim>\<open>ext2_bmaparray\<close> finds: when no read fails and, under \<^verbatim>\<open>B_SYNC\<close>, no write on the path, looking the block
  up after a successful call gives the device address of the block the file now has there, and never the
  mark for a hole. The device is assumed to have fewer than \<open>2\<^sup>3\<^sup>1\<close> of its blocks, so that the address fits.
\<close>

theorem ext2_balloc2_bmap:
  assumes "nindir_ok n" "level_base n 4 \<le> 2 ^ 31" "0 \<le> bn" "bn < level_base n 4"
    and "mount_ok n ip m" "file_ok n ip v" "blocks_to n ip (v_ptrs v) bn \<subseteq> held_blocks m ip" "direct_ok n ip m bn sz"
    and "\<forall>p. ext2_getlbns n bn = Inr p \<longrightarrow> sync_ok fl v p" "\<forall>l. v_err v l = None"
    and "int (blocks_count (um_e2fs m)) * 2 ^ um_bptrtodb m \<le> 2 ^ 31"
    and "ext2_balloc2 env fl bn sz (ip, m, v) = Some (Return (Inr y, ip', m', v'))"
  shows "file_ptr n ip' (v_ptrs v') bn \<noteq> 0 \<and>
    (\<exists>rp rb. ext2_bmaparray m' v' ip' runp runb maxrun bn = Return (Inr (file_ptr n ip' (v_ptrs v') bn * 2 ^ um_bptrtodb m, rp, rb)))"
proof -
  have b: "bn < 2 ^ 31" using assms by linarith
  let ?p = "file_ptr n ip' (v_ptrs v') bn"
  have r: "mount_ok n ip' m'" "file_ok n ip' v'" "v_err v' = v_err v" "?p \<noteq> 0" "blocks_to n ip' (v_ptrs v') bn \<subseteq> held_blocks m' ip'"
    "same_layout (um_e2fs m) (um_e2fs m')" "blocks_frame m m'"
    using balloc2_mapped [OF assms(1-3) b assms(5-9), of env] assms(12) by (auto simp: mapped_def)
  have nn: "um_nindir m' = n" using r(1) by (simp add: mount_ok_def)
  have p0: "0 < ?p" using file_ptr_pos [OF assms(1-3) b r(2)] r(4) by linarith
  have "nat ?p < blocks_count (um_e2fs m')"
    using blocks_to_self [OF r(4)] r(5) by (auto simp: held_blocks_def used_blocks_def)
  moreover have "blocks_count (um_e2fs m') = blocks_count (um_e2fs m)" using r(6) unfolding same_layout_def by blast
  ultimately have "?p < int (blocks_count (um_e2fs m))" using nat_less_iff [of ?p "blocks_count (um_e2fs m)"] p0 by simp
  then have "?p * 2 ^ um_bptrtodb m < int (blocks_count (um_e2fs m)) * 2 ^ um_bptrtodb m" by (rule mult_strict_right_mono) simp
  then have "?p * 2 ^ um_bptrtodb m < 2 ^ 31" using assms(11) by (rule order.strict_trans2)
  moreover have "0 \<le> ?p * 2 ^ um_bptrtodb m" using p0 by simp
  ultimately have "int32 (?p * 2 ^ um_bptrtodb m) = ?p * 2 ^ um_bptrtodb m" by (intro int32_id) simp_all
  moreover have "um_bptrtodb m' = um_bptrtodb m" using r(7) by (simp add: blocks_frame_def)
  ultimately have e: "blkptrtodb m' ?p = ?p * 2 ^ um_bptrtodb m" by (simp add: blkptrtodb_def)
  have "path_ok n v' ip' bn" using file_ok_path [OF assms(1-4) r(2)] r(3) assms(10) by simp
  then show ?thesis using bmaparray_ptr [of m' bn v' ip' runp runb maxrun] assms(1-3) b nn r(4) e p0 by simp
qed

lemma tiny_balloc_direct:
  "\<exists>y ip' m' v'. ext2_balloc2 tiny_env tiny_flags 0 32 (tiny_file, tiny_mount, empty_vbufs) = Some (Return (Inr y, ip', m', v'))"
proof -
  let ?pref = "ext2_blkpref tiny_sb tiny_file 0 0 (Some (i_db tiny_file)) 0"
  have z: "ulong 32 = s_blocksize (um_e2fs tiny_mount)" using tiny_alloc_ok(2) by (simp add: tiny_fields)
  obtain b ip' m' where a: "ext2_alloc (\<lambda>n d. n div int d) (0, 0) tiny_mount tiny_file 0 ?pref 32 0 = Some (Return (Inr (int b), ip', m'))"
    using alloc_granted [OF tiny_fs_wf(2) tiny_file_fields(3) z, of "\<lambda>n d. n div int d" "(0, 0)" 0 ?pref 0] tiny_alloc_ok(1)
    by (auto simp: tiny_fields)
  have s: "balloc_seq tiny_file 0 = tiny_file" by (simp add: balloc_seq_def tiny_file_fields)
  have d: "i_db tiny_file ! 0 = 0" "um_e2fs tiny_mount = tiny_sb" "i_size tiny_file = 0" "s_blocksize tiny_sb = 32" "0 < ulong 32"
    using tiny_alloc_ok(2) by (simp_all add: tiny_file_def tiny_dir_def tiny_fields)
  have f: "fragroundup tiny_sb (ulong 32) = Return 32"
    using fragroundup_block [OF tiny_balloc_ok(3), of "ulong 32"] tiny_alloc_ok(2) by (simp add: d)
  show ?thesis using a f d by (simp add: ext2_balloc2_def Let_def s balloc_direct_def tiny_env_def)
qed

theorem ext2_balloc2_bmap_witness:
  "\<exists>y ip' m' v'. ext2_balloc2 tiny_env tiny_flags 0 32 (tiny_file, tiny_mount, empty_vbufs) = Some (Return (Inr y, ip', m', v')) \<and>
     file_ptr 8 ip' (v_ptrs v') 0 \<noteq> 0"
proof -
  obtain y ip' m' v' where r: "ext2_balloc2 tiny_env tiny_flags 0 32 (tiny_file, tiny_mount, empty_vbufs) = Some (Return (Inr y, ip', m', v'))"
    using tiny_balloc_direct by blast
  have g: "ext2_getlbns 8 0 = Inr []" using getlbns_data(1) [OF tiny_balloc_ok(1), of 0] by simp
  have h: "blocks_to 8 tiny_file (v_ptrs empty_vbufs) 0 \<subseteq> held_blocks tiny_mount tiny_file"
    by (simp add: blocks_to_def g tiny_file_def)
  have l: "0 < level_base 8 4" by (simp add: level_base_1_4)
  have e: "\<forall>l. v_err empty_vbufs l = None" by (simp add: empty_vbufs_def)
  have s: "\<forall>p. ext2_getlbns 8 0 = Inr p \<longrightarrow> sync_ok tiny_flags empty_vbufs p" by (simp add: sync_ok_def tiny_flags_def)
  have c: "int (blocks_count (um_e2fs tiny_mount)) * 2 ^ um_bptrtodb tiny_mount \<le> 2 ^ 31" by (simp add: tiny_mount_def tiny_sb_def tiny_es_def)
  show ?thesis using r ext2_balloc2_bmap [OF tiny_balloc_ok(1,2) order_refl l tiny_balloc_ok(3,4) h tiny_balloc_ok(5) s e c r] by blast
qed

text \<open>
  C38: a direct block that lies at or behind the end of the file makes \<^verbatim>\<open>ext2_balloc2\<close> panic: the size
  of the last fragment is then 0, less than any size that is asked for, and the case that the
  comment says cannot happen without fragments does happen.
\<close>

theorem ext2_balloc2_panics:
  assumes "mount_ok n ip m" "4 * n = 2 ^ k" "s_qbmask (um_e2fs m) = 4 * n - 1" "0 \<le> bn" "bn < 12" "i_db ip ! nat bn \<noteq> 0"
    and "i_size ip = nat bn * (4 * n)" "0 < sz" "sz \<le> int (4 * n)"
  shows "ext2_balloc2 env fl bn sz (ip, m, v) = Some (Panic Balloc_wrong)"
proof -
  have bs: "s_blocksize (um_e2fs m) = 4 * n" "4 * n < 2 ^ 31" "0 < n" "e2fs_fsize (um_e2fs m) = 4 * n"
    using assms(1) by (simp_all add: mount_ok_def)
  have "(nat bn + 1) * (4 * n) < 12 * 2 ^ 31"
    using assms(4,5) bs mult_le_mono [of "nat bn + 1" 12 "4 * n" "4 * n"] by linarith
  then have "ulong (int ((nat bn + 1) * (4 * n))) = (nat bn + 1) * (4 * n)" by (intro ulong_id) simp
  moreover have "(bn + 1) * int (s_blocksize (um_e2fs m)) = int ((nat bn + 1) * (4 * n))" using assms(4) bs by (simp add: distrib_right)
  ultimately have s: "i_size ip < ulong ((bn + 1) * int (s_blocksize (um_e2fs m)))" using assms(7) bs(3) by simp
  have "blkoff (um_e2fs m) (i_size ip) = i_size ip mod 2 ^ k"
    unfolding blkoff_def assms(3) assms(2) by (simp add: take_bit_eq_mod [symmetric] take_bit_eq_mask mask_eq_exp_minus_1)
  then have "blkoff (um_e2fs m) (i_size ip) = 0" using assms(2,7) by simp
  moreover have "roundup 0 (4 * n) = 0" using ulong_id [of "4 * n - 1"] bs(2,3) by (simp add: roundup_def)
  ultimately have f0: "fragroundup (um_e2fs m) (blkoff (um_e2fs m) (i_size ip)) = Return 0"
    using bs by (simp add: fragroundup_def int32_def)
  have us: "ulong sz = nat sz" using ulong_id [of "nat sz"] assms(8,9) bs(2) by simp
  have f1: "fragroundup (um_e2fs m) (ulong sz) = Return (int (4 * n))"
    unfolding us by (rule fragroundup_block [OF assms(1)]) (use assms(8,9) in simp_all)
  have q: "i_db (balloc_seq ip bn) = i_db ip" "i_size (balloc_seq ip bn) = i_size ip" by (simp_all add: balloc_seq_def)
  show ?thesis using s f0 f1 assms(4-6) bs(3) by (simp add: ext2_balloc2_def Let_def balloc_direct_def q)
qed

theorem ext2_balloc2_panics_witness:
  "ext2_balloc2 tiny_env tiny_flags 0 32 (tiny_file\<lparr>i_db := 9 # replicate 11 0\<rparr>, tiny_mount, empty_vbufs) = Some (Panic Balloc_wrong)"
proof (rule ext2_balloc2_panics [where n = 8 and k = 5])
  show "mount_ok 8 (tiny_file\<lparr>i_db := 9 # replicate 11 0\<rparr>) tiny_mount"
    using tiny_balloc_ok(3) by (simp add: mount_ok_def prealloc_ok_def prealloc_run_def)
qed (simp_all add: tiny_mount_def tiny_sb_def tiny_file_def)

text \<open>
  Why \<open>sync_ok\<close> is needed: with \<^verbatim>\<open>B_SYNC\<close>, a write of the indirect block that fails is not noticed: \<^verbatim>\<open>ext2_balloc2\<close> reports success and hands out the new block,
  but the pointer to it is lost with the buffer. The file has a hole at the block, and a
  block that nothing refers to stays marked as used.
\<close>

theorem ext2_balloc2_sync_lost:
  assumes "nindir_ok n" "level_base n 4 \<le> 2 ^ 31" "12 \<le> bn" "bn < 12 + int n" "mount_ok n ip m" "length (i_ib ip) = 3"
    and "i_ib ip ! 0 \<noteq> 0" "v_err v (-12) = None" "v_ptrs v (-12) ! nat (bn - 12) = 0" "v_disk v (-12) ! nat (bn - 12) = 0"
    and "s_free_blocks_count (s_es (um_e2fs m)) \<noteq> 0" "be_uid env = 0" "B_SYNC fl" "v_werr v (-12) = Some er"
  shows "\<exists>y ip' m' v' b. ext2_balloc2 env fl bn sz (ip, m, v) = Some (Return (Inr y, ip', m', v')) \<and>
    file_ptr n ip' (v_ptrs v') bn = 0 \<and> 0 < b \<and> b \<notin> held_blocks m ip \<and> held_blocks m' ip' = insert b (held_blocks m ip)"
proof -
  let ?e = "\<lparr>in_lbn = -12, in_off = bn - 12, in_exists = False\<rparr>" and ?a = "\<lparr>in_lbn = -12, in_off = 0, in_exists = False\<rparr>"
  define v1 where "v1 = v\<lparr>v_valid := (v_valid v)(-12 := True)\<rparr>"
  define ip1 where "ip1 = balloc_seq ip bn"
  have b: "0 \<le> bn" "bn < 2 ^ 31" and nn: "um_nindir m = n" using assms(1,3-5) by (simp_all add: nindir_ok_def mount_ok_def)
  have l: "level_base n 1 = 12" "level_base n (Suc 1) = 12 + int n" by (simp_all add: level_base_1_4 flip: numeral_2_eq_2)
  have g: "ext2_getlbns n bn = Inr [?a, ?e]"
    using getlbns_data(3) [OF assms(1) b, of 1] assms(1-4) l by (simp add: data_path_def top_indir_def nindir_ok_def)
  have f: "i_ib ip1 = i_ib ip" "mount_ok n ip1 m" "held_blocks m ip1 = held_blocks m ip"
    using same_blocks(1,5) [of ip1 ip, where m = m] assms(5) by (simp_all add: ip1_def balloc_seq_def)
  let ?pref = "ext2_blkpref (um_e2fs m) ip1 bn (bn - 12) (Some (v_ptrs v (-12))) (-12)"
  have ns: "\<not> alloc_nospace (um_e2fs m) (int (4 * n)) (be_uid env)" using assms(11,12) by (simp add: alloc_nospace_def)
  obtain b ip2 m2 where al: "ext2_alloc (be_btodb env) (be_uninit env) m ip1 bn ?pref (int (4 * n)) (be_uid env) = Some (Return (Inr (int b), ip2, m2))"
    "fresh_block n ip1 m b ip2 m2"
    using alloc_space [OF f(2) ns] by blast
  let ?v = "write_ptrs fl v1 (-12) ((v_ptrs v (-12))[nat (bn - 12) := int b])"
  have w: "v_ptrs ?v (-12) ! nat (bn - 12) = 0" using assms(10,13,14) by (simp add: write_ptrs_def vn_bwrite_def v1_def)
  have "\<exists>y. ext2_balloc2 env fl bn sz (ip, m, v) = Some (Return (Inr y, ip2, m2, ?v))"
    using g nn assms(3,7-9) al(1) f(1) mount_ok_size(1) [OF f(2)]
    by (simp add: ext2_balloc2_def Let_def ip1_def [symmetric] vn_meta_bread_def vn_bread_def v1_def balloc_data_def)
  moreover have "file_ptr n ip2 (v_ptrs ?v) bn = 0" using w by (simp add: file_ptr_def g)
  ultimately show ?thesis using al(2) f(3) unfolding fresh_block_def by metis
qed

theorem ext2_balloc2_sync_lost_witness:
  "\<exists>y ip' m' v' b. ext2_balloc2 tiny_env (tiny_flags\<lparr>B_SYNC := True\<rparr>) 13 32
       (tiny_file\<lparr>i_ib := [9, 0, 0]\<rparr>, tiny_mount, empty_vbufs\<lparr>v_werr := (\<lambda>l. Some EIO)\<rparr>) = Some (Return (Inr y, ip', m', v')) \<and>
     file_ptr 8 ip' (v_ptrs v') 13 = 0 \<and> b \<notin> held_blocks tiny_mount tiny_file \<and> held_blocks m' ip' = insert b (held_blocks tiny_mount tiny_file)"
proof -
  let ?ip = "tiny_file\<lparr>i_ib := [9, 0, 0]\<rparr>"
  have h: "mount_ok 8 ?ip tiny_mount" "held_blocks tiny_mount ?ip = held_blocks tiny_mount tiny_file"
    using tiny_balloc_ok(3) by (simp_all add: mount_ok_def prealloc_ok_def prealloc_run_def held_blocks_def)
  have "s_free_blocks_count (s_es (um_e2fs tiny_mount)) \<noteq> 0" by (simp add: tiny_mount_def tiny_sb_def tiny_es_def)
  from ext2_balloc2_sync_lost [OF tiny_balloc_ok(1,2) _ _ h(1), of 13 "empty_vbufs\<lparr>v_werr := (\<lambda>l. Some EIO)\<rparr>" tiny_env "tiny_flags\<lparr>B_SYNC := True\<rparr>" EIO 32] this
  show ?thesis unfolding h(2) by (simp add: empty_vbufs_def tiny_env_def) blast
qed

end
