(* ===== verification/Ext2_Hash.thy ===== *)
theory Ext2_Hash
  imports Ext2_Prelude
begin

text \<open>
  The hash of a file name for indexed directories: \<^verbatim>\<open>ext2_hash.c\<close>, the routine
  \<^verbatim>\<open>ext2fs_htree_hash\<close> with its three hash functions.

  A name is a list of bytes. The hash words are 32 bit words, and the state of a hash
  function is passed through. An array of the caller that a routine fills is the list of
  the words it writes.
\<close>

unbundle bit_operations_syntax

section \<open>Operations\<close>

definition ROTATE_LEFT :: "u32 \<Rightarrow> nat \<Rightarrow> u32" where
  "ROTATE_LEFT x n = push_bit n x OR drop_bit (32 - n) x"

definition F :: "u32 \<Rightarrow> u32 \<Rightarrow> u32 \<Rightarrow> u32" where
  "F x y z = (x AND y) OR (NOT x AND z)"

definition G :: "u32 \<Rightarrow> u32 \<Rightarrow> u32 \<Rightarrow> u32" where
  "G x y z = (x AND y) OR (x AND z) OR (y AND z)"

definition H :: "u32 \<Rightarrow> u32 \<Rightarrow> u32 \<Rightarrow> u32" where
  "H x y z = x XOR y XOR z"

text \<open>The macros assign to their first argument; here they return its new value.\<close>

definition FF :: "u32 \<Rightarrow> u32 \<Rightarrow> u32 \<Rightarrow> u32 \<Rightarrow> u32 \<Rightarrow> nat \<Rightarrow> u32" where
  "FF a b c d x s = ROTATE_LEFT (a + (F b c d + x)) s"

definition GG :: "u32 \<Rightarrow> u32 \<Rightarrow> u32 \<Rightarrow> u32 \<Rightarrow> u32 \<Rightarrow> nat \<Rightarrow> u32" where
  "GG a b c d x s = ROTATE_LEFT (a + (G b c d + x + 0x5A827999)) s"

definition HH :: "u32 \<Rightarrow> u32 \<Rightarrow> u32 \<Rightarrow> u32 \<Rightarrow> u32 \<Rightarrow> nat \<Rightarrow> u32" where
  "HH a b c d x s = ROTATE_LEFT (a + (H b c d + x + 0x6ED9EBA1)) s"

text \<open>A byte of the name as the \<^verbatim>\<open>int\<close> that is added: zero or sign extended.\<close>

definition buf_byte :: "bool \<Rightarrow> u8 \<Rightarrow> u32" where
  "buf_byte unsigned_char b = (if unsigned_char then ucast b else scast b)"

definition hash_padding :: "int \<Rightarrow> u32" where
  "hash_padding slen = (let s = word_of_int slen in s OR push_bit 8 s OR push_bit 16 s OR push_bit 24 s)"

text \<open>The loop over the bytes: \<open>i\<close> counts them, \<open>dlen\<close> is the space left, the result has the words written.\<close>

fun prep_bytes :: "u32 \<Rightarrow> bool \<Rightarrow> nat \<Rightarrow> u8 list \<Rightarrow> u32 \<Rightarrow> int \<Rightarrow> u32 list \<times> u32 \<times> int" where
  "prep_bytes padding uc i [] buf_val dlen = ([], buf_val, dlen)"
| "prep_bytes padding uc i (b # bs) buf_val dlen =
     (let buf_val = (if i mod 4 = 0 then padding else buf_val);
          buf_val = push_bit 8 buf_val + buf_byte uc b in
      if i mod 4 = 3 then
        case prep_bytes padding uc (i + 1) bs padding (dlen - 4) of (dst, buf_val', dlen') \<Rightarrow> (buf_val # dst, buf_val', dlen')
      else prep_bytes padding uc (i + 1) bs buf_val dlen)"

function prep_rest :: "u32 \<Rightarrow> int \<Rightarrow> u32 list" where
  "prep_rest padding dlen = (if dlen \<ge> 0 then padding # prep_rest padding (dlen - 4) else [])"
  by pat_completeness auto
termination by (relation "measure (\<lambda>(p, d). nat (d + 4))") auto

declare prep_rest.simps [simp del]

definition ext2fs_prep_hashbuf :: "u8 list \<Rightarrow> int \<Rightarrow> int \<Rightarrow> bool \<Rightarrow> u32 list" where
  "ext2fs_prep_hashbuf src slen dlen unsigned_char =
     (let padding = hash_padding slen;
          len = (if slen > dlen then dlen else slen) in
      case prep_bytes padding unsigned_char 0 (take (nat len) src) padding dlen of (dst, buf_val, dlen) \<Rightarrow>
        let dlen = dlen - 4;
            dst = (if dlen \<ge> 0 then dst @ [buf_val] else dst) in
        dst @ prep_rest padding (dlen - 4))"

fun legacy_loop :: "bool \<Rightarrow> u8 list \<Rightarrow> u32 \<Rightarrow> u32 \<Rightarrow> u32" where
  "legacy_loop uc [] h1 h2 = h1"
| "legacy_loop uc (b # bs) h1 h2 =
     (let h0 = h2 + (h1 XOR (buf_byte uc b * 0x6D22F5));
          h0 = (if h0 AND 0x80000000 \<noteq> 0 then h0 - 0x7FFFFFFF else h0) in
      legacy_loop uc bs h0 h1)"

definition ext2fs_legacy_hash :: "u8 list \<Rightarrow> int \<Rightarrow> bool \<Rightarrow> u32" where
  "ext2fs_legacy_hash name len unsigned_char =
     push_bit 1 (legacy_loop unsigned_char (take (nat len) name) 0x12A3FE2D 0x37ABE8F9)"

type_synonym hash4 = "u32 \<times> u32 \<times> u32 \<times> u32"

definition ext2fs_half_md4 :: "hash4 \<Rightarrow> u32 list \<Rightarrow> hash4" where
  "ext2fs_half_md4 h data =
     (case h of (h0, h1, h2, h3) \<Rightarrow>
      let a = h0; b = h1; c = h2; d = h3;
          a = FF a b c d (data ! 0) 3;
          d = FF d a b c (data ! 1) 7;
          c = FF c d a b (data ! 2) 11;
          b = FF b c d a (data ! 3) 19;
          a = FF a b c d (data ! 4) 3;
          d = FF d a b c (data ! 5) 7;
          c = FF c d a b (data ! 6) 11;
          b = FF b c d a (data ! 7) 19;
          a = GG a b c d (data ! 1) 3;
          d = GG d a b c (data ! 3) 5;
          c = GG c d a b (data ! 5) 9;
          b = GG b c d a (data ! 7) 13;
          a = GG a b c d (data ! 0) 3;
          d = GG d a b c (data ! 2) 5;
          c = GG c d a b (data ! 4) 9;
          b = GG b c d a (data ! 6) 13;
          a = HH a b c d (data ! 3) 3;
          d = HH d a b c (data ! 7) 9;
          c = HH c d a b (data ! 2) 11;
          b = HH b c d a (data ! 6) 15;
          a = HH a b c d (data ! 1) 3;
          d = HH d a b c (data ! 5) 9;
          c = HH c d a b (data ! 0) 11;
          b = HH b c d a (data ! 4) 15 in
      (h0 + a, h1 + b, h2 + c, h3 + d))"

fun tea_loop :: "nat \<Rightarrow> u32 \<Rightarrow> u32 list \<Rightarrow> u32 \<times> u32 \<Rightarrow> u32 \<times> u32" where
  "tea_loop 0 i data xy = xy"
| "tea_loop (Suc n) i data (x, y) =
     (let sum = i * 0x9E3779B9;
          x = x + ((push_bit 4 y + data ! 0) XOR (y + sum) XOR (drop_bit 5 y + data ! 1));
          y = y + ((push_bit 4 x + data ! 2) XOR (x + sum) XOR (drop_bit 5 x + data ! 3)) in
      tea_loop n (i + 1) data (x, y))"

definition ext2fs_tea :: "hash4 \<Rightarrow> u32 list \<Rightarrow> hash4" where
  "ext2fs_tea h data =
     (case h of (h0, h1, h2, h3) \<Rightarrow>
      case tea_loop 16 1 data (h0, h1) of (x, y) \<Rightarrow> (h0 + x, h1 + y, h2, h3))"

text \<open>The two loops over the name, in steps of \<open>k\<close> bytes.\<close>

function htree_blocks :: "(hash4 \<Rightarrow> u32 list \<Rightarrow> hash4) \<Rightarrow> nat \<Rightarrow> bool \<Rightarrow> u8 list \<Rightarrow> int \<Rightarrow> hash4 \<Rightarrow> hash4" where
  "htree_blocks f k uc name len h =
     (if len > 0 \<and> k > 0
      then htree_blocks f k uc (drop k name) (len - int k) (f h (ext2fs_prep_hashbuf name len (int k) uc))
      else h)"
  by pat_completeness auto
termination by (relation "measure (\<lambda>(f, k, uc, name, len, h). nat len)") auto

declare htree_blocks.simps [simp del]

text \<open>
  The entry point. \<open>None\<close> stands for the error return, which sets both results to 0. The
  version numbers are 0 legacy, 1 half MD4, 2 TEA, and 3 to 5 the same with unsigned bytes.
\<close>

definition htree_major :: "u32 \<Rightarrow> u32" where
  "htree_major major =
     (let major = major AND NOT 1 in
      if major = push_bit 1 0x7FFFFFFF then push_bit 1 (0x7FFFFFFF - 1) else major)"

definition ext2fs_htree_hash :: "u8 list \<Rightarrow> int \<Rightarrow> hash4 option \<Rightarrow> int \<Rightarrow> (u32 \<times> u32) option" where
  "ext2fs_htree_hash name len hash_seed hash_version =
     (if len < 1 \<or> len > 255 then None
      else
        let hash = (case hash_seed of None \<Rightarrow> (0x67452301, 0xEFCDAB89, 0x98BADCFE, 0x10325476) | Some s \<Rightarrow> s);
            uc = (hash_version = 3 \<or> hash_version = 4 \<or> hash_version = 5) in
        if hash_version = 5 \<or> hash_version = 2 then
          case htree_blocks ext2fs_tea 16 uc name len hash of (h0, h1, h2, h3) \<Rightarrow> Some (htree_major h0, h1)
        else if hash_version = 3 \<or> hash_version = 0 then
          Some (htree_major (ext2fs_legacy_hash name len uc), 0)
        else if hash_version = 4 \<or> hash_version = 1 then
          case htree_blocks ext2fs_half_md4 32 uc name len hash of (h0, h1, h2, h3) \<Rightarrow> Some (htree_major h1, h2)
        else None)"

section \<open>The words of a name\<close>

text \<open>
  What the buffer should hold: the word number \<open>k\<close> is the padding, with the bytes \<open>4 k\<close> to
  \<open>4 k + 3\<close> of the name, as far as there are any, shifted in from the right.
\<close>

definition name_word :: "u32 \<Rightarrow> bool \<Rightarrow> u8 list \<Rightarrow> nat \<Rightarrow> u32" where
  "name_word padding uc bs k = foldl (\<lambda>w b. push_bit 8 w + buf_byte uc b) padding (take 4 (drop (4 * k) bs))"

section \<open>Lemmas\<close>

lemma prep_rest_eq: "prep_rest padding dlen = replicate (nat ((dlen + 4) div 4)) padding"
proof (induction padding dlen rule: prep_rest.induct)
  case (1 padding dlen)
  show ?case
  proof (cases "dlen \<ge> 0")
    case True
    have "nat ((dlen + 4) div 4) = Suc (nat ((dlen - 4 + 4) div 4))" using True by (simp add: nat_add_distrib)
    then show ?thesis using 1 True by (subst prep_rest.simps) simp
  next
    case False
    then have "(dlen + 4) div 4 \<le> 0" by simp
    then show ?thesis using False by (subst prep_rest.simps) simp
  qed
qed

text \<open>The loop, one word at a time.\<close>

lemma prep_bytes_word:
  assumes "i mod 4 = 0"
  shows "length bs < 4 \<Longrightarrow> prep_bytes padding uc i bs padding dlen = ([], name_word padding uc bs 0, dlen)"
    "length bs = 4 \<Longrightarrow> prep_bytes padding uc i (bs @ cs) padding dlen =
       (case prep_bytes padding uc (i + 4) cs padding (dlen - 4) of (dst, v, d) \<Rightarrow> (name_word padding uc bs 0 # dst, v, d))"
proof -
  have m: "Suc i mod 4 = 1" "Suc (Suc i) mod 4 = 2" "Suc (Suc (Suc i)) mod 4 = 3" using assms by presburger+
  show "prep_bytes padding uc i bs padding dlen = ([], name_word padding uc bs 0, dlen)" if "length bs < 4"
  proof -
    have "length bs = 0 \<or> length bs = 1 \<or> length bs = 2 \<or> length bs = 3" using that by linarith
    then have "bs = [] \<or> (\<exists>a. bs = [a]) \<or> (\<exists>a b. bs = [a, b]) \<or> (\<exists>a b c. bs = [a, b, c])"
      by (auto simp: numeral_3_eq_3 numeral_2_eq_2 length_Suc_conv)
    then show ?thesis using assms m by (elim disjE exE) (simp_all add: name_word_def Let_def)
  qed
  show "prep_bytes padding uc i (bs @ cs) padding dlen =
       (case prep_bytes padding uc (i + 4) cs padding (dlen - 4) of (dst, v, d) \<Rightarrow> (name_word padding uc bs 0 # dst, v, d))"
    if "length bs = 4"
  proof -
    from that obtain a b c d where "bs = [a, b, c, d]" by (auto simp: numeral_eq_Suc length_Suc_conv)
    moreover have e: "i + 4 = Suc (Suc (Suc (Suc i)))" by simp
    ultimately show ?thesis using assms m unfolding e by (simp add: name_word_def Let_def split: prod.split)
  qed
qed


lemma name_word_drop: "name_word padding uc (bs @ cs) (Suc k) = name_word padding uc cs k" if "length bs = 4"
  using that by (simp add: name_word_def)

lemma prep_bytes_words:
  assumes "i mod 4 = 0"
  shows "prep_bytes padding uc i bs padding dlen =
    (map (name_word padding uc bs) [0..<length bs div 4], name_word padding uc bs (length bs div 4), dlen - 4 * int (length bs div 4))"
  using assms
proof (induction "length bs div 4" arbitrary: bs i dlen)
  case 0
  then have "length bs < 4" by presburger
  then show ?case using prep_bytes_word(1) [OF 0(2)] 0(1) by simp
next
  case (Suc q)
  define cs where "cs = drop 4 bs"
  have l: "4 \<le> length bs" using Suc(2) by presburger
  then have bs: "bs = take 4 bs @ cs" "length (take 4 bs) = 4" by (simp_all add: cs_def)
  have q: "q = length cs div 4" using Suc(2) l by (simp add: cs_def)
  have "(i + 4) mod 4 = 0" using Suc(3) by simp
  note IH = Suc(1) [OF q this, of "dlen - 4"]
  have w: "name_word padding uc bs (Suc k) = name_word padding uc cs k" for k
    using name_word_drop [OF bs(2), of padding uc cs k] bs(1) by simp
  have w0: "name_word padding uc (take 4 bs) 0 = name_word padding uc bs 0" by (simp add: name_word_def)
  have L: "length bs div 4 = Suc (length cs div 4)" using Suc(2) q by simp
  have m: "map (name_word padding uc bs) [0..<Suc (length cs div 4)] =
      name_word padding uc bs 0 # map (name_word padding uc cs) [0..<length cs div 4]"
    by (simp only: upt_conv_Cons [OF zero_less_Suc] list.map map_Suc_upt [symmetric] map_map o_def w)
  have "prep_bytes padding uc i bs padding dlen =
      (case prep_bytes padding uc (i + 4) cs padding (dlen - 4) of (dst, v, d) \<Rightarrow> (name_word padding uc (take 4 bs) 0 # dst, v, d))"
    using prep_bytes_word(2) [OF Suc(3) bs(2), of padding uc cs dlen] bs(1) by simp
  then show ?case unfolding IH L m w0 w by simp
qed

text \<open>The buffer is always filled exactly, with the words of the name.\<close>

lemma prep_hashbuf_words:
  assumes s: "0 \<le> slen" "nat slen \<le> length src" and d: "0 < n"
  shows "ext2fs_prep_hashbuf src slen (int (4 * n)) uc =
    map (name_word (hash_padding slen) uc (take (min (nat slen) (4 * n)) src)) [0..<n]"
proof -
  define bs where "bs = take (min (nat slen) (4 * n)) src"
  define p where "p = hash_padding slen"
  define q where "q = length bs div 4"
  have l: "length bs = min (nat slen) (4 * n)" using s by (simp add: bs_def)
  have qn: "q \<le> n" using l by (simp add: q_def)
  have len: "nat (if slen > int (4 * n) then int (4 * n) else slen) = min (nat slen) (4 * n)" using s by auto
  have beyond: "name_word p uc bs k = p" if "q < k" for k
  proof -
    have "length bs < 4 * k" using that unfolding q_def by (metis div_less_iff_less_mult mult.commute zero_less_numeral)
    then show ?thesis by (simp add: name_word_def)
  qed
  have t: "ext2fs_prep_hashbuf src slen (int (4 * n)) uc =
     (let dl = int (4 * n) - 4 * int q - 4; dst = map (name_word p uc bs) [0..<q] in
      (if dl \<ge> 0 then dst @ [name_word p uc bs q] else dst) @ prep_rest p (dl - 4))"
    unfolding ext2fs_prep_hashbuf_def Let_def len bs_def [symmetric] p_def [symmetric]
    by (subst prep_bytes_words) (simp_all add: q_def)
  show ?thesis
  proof (cases "q = n")
    case True
    then show ?thesis unfolding t bs_def [symmetric] p_def [symmetric] by (simp add: prep_rest_eq Let_def)
  next
    case False
    then have q: "q < n" using qn by simp
    have r: "prep_rest p (int (4 * n) - 4 * int q - 4 - 4) = replicate (n - Suc q) p"
      using q by (simp add: prep_rest_eq)
    have u: "[0..<n] = [0..<q] @ q # [Suc q..<n]" using q by (metis upt_add_eq_append upt_conv_Cons le_add_diff_inverse less_imp_le zero_le)
    have z: "map (name_word p uc bs) [Suc q..<n] = replicate (n - Suc q) p" by (rule replicate_eqI) (auto simp: beyond)
    show ?thesis unfolding t bs_def [symmetric] p_def [symmetric] Let_def r u using q z by simp
  qed
qed


text \<open>On bytes below 128 the two readings of a byte agree.\<close>

lemma buf_byte_ascii:
  assumes "b < 128"
  shows "buf_byte uc b = ucast b"
proof -
  have "uint b < 2 ^ 7" using assms by (simp add: word_less_def)
  then have "signed_take_bit 7 (uint b) = uint b"
    by (intro signed_take_bit_int_eq_self) (simp_all add: order_trans [OF _ unsigned_greater_eq])
  then have "sint b = uint b" by (simp add: sint_uint)
  then have "(scast b :: u32) = ucast b" by (metis scast_eq ucast_eq)
  then show ?thesis by (simp add: buf_byte_def)
qed

lemma prep_bytes_ascii:
  "\<forall>b \<in> set bs. b < 128 \<Longrightarrow> prep_bytes padding uc i bs v dlen = prep_bytes padding uc' i bs v dlen"
  by (induction bs arbitrary: i v dlen) (simp_all add: buf_byte_ascii Let_def)

lemma prep_hashbuf_ascii:
  "\<forall>b \<in> set src. b < 128 \<Longrightarrow> ext2fs_prep_hashbuf src slen dlen uc = ext2fs_prep_hashbuf src slen dlen uc'"
  unfolding ext2fs_prep_hashbuf_def Let_def by (subst prep_bytes_ascii [where uc' = uc']) (auto dest: in_set_takeD)

lemma legacy_ascii: "\<forall>b \<in> set bs. b < 128 \<Longrightarrow> legacy_loop uc bs h1 h2 = legacy_loop uc' bs h1 h2"
  by (induction bs arbitrary: h1 h2) (simp_all add: buf_byte_ascii Let_def)

lemma htree_blocks_ascii:
  "\<forall>b \<in> set name. b < 128 \<Longrightarrow> htree_blocks f k uc name len h = htree_blocks f k uc' name len h"
proof (induction f k uc name len h rule: htree_blocks.induct)
  case (1 f k uc name len h)
  have "\<forall>b \<in> set (drop k name). b < 128" using 1(2) by (auto dest: in_set_dropD)
  then show ?case
    using 1(1) prep_hashbuf_ascii [OF 1(2), of len "int k" uc uc'] by (subst (1 2) htree_blocks.simps) simp
qed

text \<open>Only the first \<open>len\<close> bytes of the name count.\<close>

lemma prep_hashbuf_take: "ext2fs_prep_hashbuf (take (nat slen) src) slen dlen uc = ext2fs_prep_hashbuf src slen dlen uc"
proof -
  have "take (nat (if slen > dlen then dlen else slen)) (take (nat slen) src) = take (nat (if slen > dlen then dlen else slen)) src"
    by (simp add: min_def)
  then show ?thesis by (simp only: ext2fs_prep_hashbuf_def Let_def)
qed

lemma htree_blocks_take: "htree_blocks f k uc (take (nat len) name) len h = htree_blocks f k uc name len h"
proof (induction f k uc name len h rule: htree_blocks.induct)
  case (1 f k uc name len h)
  have d: "drop k (take (nat len) name) = take (nat (len - int k)) (drop k name)" 
  proof -
    have "nat (len - int k) = nat len - k" by linarith
    then show ?thesis by (simp only: drop_take)
  qed
  show ?case using 1 by (subst (1 2) htree_blocks.simps) (simp add: prep_hashbuf_take d)
qed

lemma htree_major_even: "\<not> bit (htree_major w) 0" "htree_major w \<noteq> 0xFFFFFFFE"
proof -
  show "\<not> bit (htree_major w) 0" by (simp add: htree_major_def Let_def bit_simps)
  show "htree_major w \<noteq> 0xFFFFFFFE" by (simp add: htree_major_def Let_def)
qed

section \<open>Properties\<close>

text \<open>
  C34: \<^verbatim>\<open>ext2fs_prep_hashbuf\<close> fills its buffer exactly, never past its end, and agrees with the
  definition of its contents by words: each word holds the next four bytes of the name in big
  endian order on top of the padding, and words behind the name are padding.
\<close>

theorem ext2fs_prep_hashbuf_equiv:
  assumes "0 \<le> slen" "nat slen \<le> length src" "0 < n"
  shows "ext2fs_prep_hashbuf src slen (int (4 * n)) uc =
    map (name_word (hash_padding slen) uc (take (min (nat slen) (4 * n)) src)) [0..<n]"
  by (rule prep_hashbuf_words [OF assms])

theorem ext2fs_prep_hashbuf_equiv_witness:
  "ext2fs_prep_hashbuf [0x61, 0x62, 0x63, 0x64, 0x65] 5 16 True = [0x61626364, 0x05050565, 0x05050505, 0x05050505]"
proof -
  have "ext2fs_prep_hashbuf [0x61, 0x62, 0x63, 0x64, 0x65] 5 (int (4 * 4)) True =
      map (name_word (hash_padding 5) True (take (min (nat 5) (4 * 4)) [0x61, 0x62, 0x63, 0x64, 0x65])) [0..<4]"
    by (rule ext2fs_prep_hashbuf_equiv) simp_all
  then show ?thesis by (simp add: upt_rec name_word_def hash_padding_def Let_def buf_byte_def)
qed

text \<open>
  C33: \<^verbatim>\<open>ext2fs_htree_hash\<close> succeeds exactly for names of 1 to 255 bytes and a known hash version.
  The hash is even and never the end-of-directory mark, so it can be compared with the
  hashes of an index block, whose lowest bit marks a continued hash; and it depends
  only on the bytes of the name.
\<close>

theorem ext2fs_htree_hash_spec:
  shows "(ext2fs_htree_hash name len seed v = None \<longleftrightarrow> \<not> (1 \<le> len \<and> len \<le> 255 \<and> 0 \<le> v \<and> v \<le> 5)) \<and>
    (ext2fs_htree_hash name len seed v = Some (major, minor) \<longrightarrow> \<not> bit major 0 \<and> major \<noteq> push_bit 1 0x7FFFFFFF) \<and>
    ext2fs_htree_hash name len seed v = ext2fs_htree_hash (take (nat len) name) len seed v"
proof (intro conjI impI)
  show "ext2fs_htree_hash name len seed v = None \<longleftrightarrow> \<not> (1 \<le> len \<and> len \<le> 255 \<and> 0 \<le> v \<and> v \<le> 5)"
    by (auto simp: ext2fs_htree_hash_def Let_def split: prod.split)
  show "\<not> bit major 0" "major \<noteq> push_bit 1 0x7FFFFFFF" if "ext2fs_htree_hash name len seed v = Some (major, minor)"
    using that htree_major_even by (auto simp: ext2fs_htree_hash_def Let_def split: if_splits prod.splits)
  show "ext2fs_htree_hash name len seed v = ext2fs_htree_hash (take (nat len) name) len seed v"
    unfolding ext2fs_htree_hash_def Let_def ext2fs_legacy_hash_def htree_blocks_take take_take min.idem ..
qed

theorem ext2fs_htree_hash_spec_witness:
  "ext2fs_htree_hash [0x61] 1 None 0 = Some (0xE74B53E2, 0) \<and> \<not> bit (0xE74B53E2 :: u32) 0"
proof -
  have e: "ext2fs_htree_hash [0x61] 1 None 0 = Some (0xE74B53E2, 0)"
    by (simp add: ext2fs_htree_hash_def Let_def ext2fs_legacy_hash_def buf_byte_def htree_major_def)
  then show ?thesis using ext2fs_htree_hash_spec [of "[0x61]" 1 None 0 "0xE74B53E2" 0] by blast
qed

text \<open>
  For names of seven bit characters the signed and the unsigned variant of each hash
  agree, so a directory hashed with either is read by both.
\<close>

theorem ext2fs_htree_hash_ascii:
  assumes "\<forall>b \<in> set name. b < 128" "v \<in> {0, 1, 2}"
  shows "ext2fs_htree_hash name len seed (v + 3) = ext2fs_htree_hash name len seed v"
proof -
  have t: "\<forall>b \<in> set (take (nat len) name). b < 128" using assms(1) by (auto dest: in_set_takeD)
  show ?thesis
    using assms(2) htree_blocks_ascii [OF assms(1), of _ _ True _ _ False] legacy_ascii [OF t, of True _ _ False]
    by (auto simp: ext2fs_htree_hash_def Let_def ext2fs_legacy_hash_def)
qed

theorem ext2fs_htree_hash_ascii_witness:
  "ext2fs_htree_hash [0x61, 0x62] 2 None 5 = ext2fs_htree_hash [0x61, 0x62] 2 None 2"
  using ext2fs_htree_hash_ascii [of "[0x61, 0x62]" 2 2 None] by simp

end
