(* ===== verification/Ext2_Inode_Cnv.thy ===== *)
theory Ext2_Inode_Cnv
  imports Ext2_Allocators
begin

text \<open>
  Conversion between the inode on disk and the one in core: \<^verbatim>\<open>ext2_ei2i\<close> and \<^verbatim>\<open>ext2_i2ei\<close> of
  \<^verbatim>\<open>ext2_inode_cnv.c\<close>, and \<^verbatim>\<open>ext3_update_dynamic_rev\<close>, which the latter calls.

  The bits \<^verbatim>\<open>APPEND\<close> and \<^verbatim>\<open>IMMUTABLE\<close> of the file flags come from the host's headers and are an argument
  of the model; so is the mount option \<^verbatim>\<open>NO_UID32\<close>. The conversions of the little endian fields
  are the identity on this architecture. A field that is a signed integer in core is an \<open>int\<close>.
\<close>

unbundle bit_operations_syntax

section \<open>Data\<close>

record ext2_inode =
  ei_mode :: u16
  ei_uid :: u16
  ei_size :: u32
  ei_atime :: u32
  ei_ctime :: u32
  ei_mtime :: u32
  ei_dtime :: u32
  ei_gid :: u16
  ei_links_count :: u16
  ei_blocks :: u32
  ei_flags :: u32
  ei_block :: "u32 list"
  ei_generation :: u32
  ei_size_high :: u32
  ei_uid_high :: u16
  ei_gid_high :: u16

record host_flags =
  APPEND :: u32
  IMMUTABLE :: u32

section \<open>Operations\<close>

definition ext2_ei2i :: "host_flags \<Rightarrow> bool \<Rightarrow> ext2_inode \<Rightarrow> inode \<Rightarrow> inode" where
  "ext2_ei2i hf no_uid32 ei ip =
     (let mode = (if ei_links_count ei \<noteq> 0 then ei_mode ei else 0);
          e2flags = ei_flags ei;
          uid = ucast (ei_uid ei); gid = ucast (ei_gid ei);
          uid = (if \<not> no_uid32 then uid OR push_bit 16 (ucast (ei_uid_high ei)) else uid);
          gid = (if \<not> no_uid32 then gid OR push_bit 16 (ucast (ei_gid_high ei)) else gid);
          sz = unat (ei_size ei);
          sz = (if S_ISREG mode then sz OR push_bit 32 (unat (ei_size_high ei)) else sz) in
      ip\<lparr>i_nlink := sint (ei_links_count ei),
         i_mode := mode,
         i_size := sz,
         i_atime := sint (ei_atime ei),
         i_mtime := sint (ei_mtime ei),
         i_ctime := sint (ei_ctime ei),
         i_e2flags := e2flags,
         i_flags := (if e2flags AND 0x20 \<noteq> 0 then APPEND hf else 0) OR (if e2flags AND 0x10 \<noteq> 0 then IMMUTABLE hf else 0),
         i_blocks := sint (ei_blocks ei),
         i_gen := sint (ei_generation ei),
         i_uid := uid,
         i_gid := gid,
         i_db := map (\<lambda>i. sint (ei_block ei ! i)) [0..<12],
         i_ib := map (\<lambda>i. sint (ei_block ei ! (12 + i))) [0..<3]\<rparr>)"

definition fs_high2lowuid :: "u32 \<Rightarrow> u16" where
  "fs_high2lowuid uid = (if uid > 65535 then 65534 else ucast uid)"

definition low_16_bits :: "u32 \<Rightarrow> u16" where
  "low_16_bits x = ucast (x AND 0xFFFF)"

definition high_16_bits :: "u32 \<Rightarrow> u16" where
  "high_16_bits x = ucast (drop_bit 16 (x AND 0xFFFF0000))"

definition ext3_update_dynamic_rev :: "m_ext2fs \<Rightarrow> m_ext2fs" where
  "ext3_update_dynamic_rev sb =
     (if s_rev_level (s_es sb) > 0 then sb
      else sb\<lparr>s_es := (s_es sb)\<lparr>s_first_ino := 11, s_inode_size := 128, s_rev_level := 1\<rparr>\<rparr>)"

text \<open>The flag bits in \<^verbatim>\<open>i_e2flags\<close> follow those in \<^verbatim>\<open>i_flags\<close>.\<close>

definition i2ei_flags :: "host_flags \<Rightarrow> inode \<Rightarrow> u32" where
  "i2ei_flags hf ip =
     (let f = i_e2flags ip;
          f = (if i_flags ip AND APPEND hf \<noteq> 0 then f OR 0x20 else f AND NOT 0x20) in
      if i_flags ip AND IMMUTABLE hf \<noteq> 0 then f OR 0x10 else f AND NOT 0x10)"

text \<open>The first large file of a file system sets the feature in the super block.\<close>

definition i2ei_large :: "inode \<Rightarrow> m_ext2fs \<Rightarrow> m_ext2fs" where
  "i2ei_large ip sb =
     (if S_ISREG (i_mode ip) \<and> i_size ip > 0x7FFFFFFF \<and>
         (s_feature_ro_compat (s_es sb) AND 2 = 0 \<or> s_rev_level (s_es sb) = 0)
      then
        let sb = ext3_update_dynamic_rev sb in
        sb\<lparr>s_es := (s_es sb)\<lparr>s_feature_ro_compat := s_feature_ro_compat (s_es sb) OR 2\<rparr>, s_dirt := True\<rparr>
      else sb)"

definition ext2_i2ei :: "host_flags \<Rightarrow> bool \<Rightarrow> m_ext2fs \<Rightarrow> inode \<Rightarrow> ext2_inode \<Rightarrow> ext2_inode \<times> inode \<times> m_ext2fs" where
  "ext2_i2ei hf no_uid32 sb ip ei =
     (let dtime = (if i_nlink ip \<noteq> 0 then 0 else word_of_int (i_mtime ip));
          ip = ip\<lparr>i_e2flags := i2ei_flags hf ip\<rparr>;
          ei = ei\<lparr>ei_mode := i_mode ip,
                  ei_links_count := word_of_int (i_nlink ip),
                  ei_dtime := dtime,
                  ei_size := of_nat (i_size ip),
                  ei_atime := word_of_int (i_atime ip),
                  ei_mtime := word_of_int (i_mtime ip),
                  ei_ctime := word_of_int (i_ctime ip),
                  ei_flags := i_e2flags ip,
                  ei_blocks := word_of_int (i_blocks ip),
                  ei_generation := word_of_int (i_gen ip),
                  ei_uid := ucast (i_uid ip),
                  ei_gid := ucast (i_gid ip)\<rparr>;
          ei = (if \<not> no_uid32 then
                  ei\<lparr>ei_uid := low_16_bits (i_uid ip), ei_gid := low_16_bits (i_gid ip),
                     ei_uid_high := (if dtime = 0 then high_16_bits (i_uid ip) else 0),
                     ei_gid_high := (if dtime = 0 then high_16_bits (i_gid ip) else 0)\<rparr>
                else
                  ei\<lparr>ei_uid := fs_high2lowuid (i_uid ip), ei_gid := fs_high2lowuid (i_gid ip), ei_uid_high := 0, ei_gid_high := 0\<rparr>);
          ei = (if S_ISREG (i_mode ip) then ei\<lparr>ei_size_high := of_nat (drop_bit 32 (i_size ip))\<rparr> else ei);
          sb = i2ei_large ip sb;
          ei = ei\<lparr>ei_block := map (\<lambda>i. word_of_int (i_db ip ! i)) [0..<12] @ map (\<lambda>i. word_of_int (i_ib ip ! i)) [0..<3]\<rparr> in
      (ei, ip, sb))"

section \<open>Well formed inodes\<close>

definition host_flags_ok :: "host_flags \<Rightarrow> bool" where
  "host_flags_ok hf \<longleftrightarrow> APPEND hf \<noteq> 0 \<and> IMMUTABLE hf \<noteq> 0 \<and> APPEND hf AND IMMUTABLE hf = 0"

text \<open>An inode in core whose fields are in the range of their C types and that is in use.\<close>

definition inode_ok :: "host_flags \<Rightarrow> bool \<Rightarrow> inode \<Rightarrow> bool" where
  "inode_ok hf no_uid32 ip \<longleftrightarrow> - (2 ^ 15) \<le> i_nlink ip \<and> i_nlink ip < 2 ^ 15 \<and> i_nlink ip \<noteq> 0 \<and>
     i_size ip < (if S_ISREG (i_mode ip) then 2 ^ 64 else 2 ^ 32) \<and>
     (\<forall>x \<in> {i_atime ip, i_mtime ip, i_ctime ip, i_blocks ip, i_gen ip} \<union> set (i_db ip) \<union> set (i_ib ip). - (2 ^ 31) \<le> x \<and> x < 2 ^ 31) \<and>
     length (i_db ip) = 12 \<and> length (i_ib ip) = 3 \<and>
     i_flags ip \<in> {0, APPEND hf, IMMUTABLE hf, APPEND hf OR IMMUTABLE hf} \<and>
     (no_uid32 \<longrightarrow> i_uid ip \<le> 65535 \<and> i_gid ip \<le> 65535)"

text \<open>Values for the witnesses: the bits of the host, and a disk inode of a small file.\<close>

definition sample_hf :: host_flags where
  "sample_hf = \<lparr>APPEND = 0x40004, IMMUTABLE = 0x20002\<rparr>"

definition sample_ei :: ext2_inode where
  "sample_ei = \<lparr>ei_mode = 0x81A4, ei_uid = 501, ei_size = 7, ei_atime = 1, ei_ctime = 2, ei_mtime = 3, ei_dtime = 0, ei_gid = 20,
     ei_links_count = 1, ei_blocks = 2, ei_flags = 0x20, ei_block = 9 # replicate 14 0, ei_generation = 5, ei_size_high = 1,
     ei_uid_high = 1, ei_gid_high = 0\<rparr>"

section \<open>Lemmas\<close>

lemma sint_word_of_int:
  fixes x :: int
  assumes "- (2 ^ 31) \<le> x" "x < 2 ^ 31"
  shows "sint (word_of_int x :: u32) = x"
  using assms by (simp add: sint_sbintrunc' signed_take_bit_int_eq_self)

lemma sint_word_of_int16:
  fixes x :: int
  assumes "- (2 ^ 15) \<le> x" "x < 2 ^ 15"
  shows "sint (word_of_int x :: u16) = x"
  using assms by (simp add: sint_sbintrunc' signed_take_bit_int_eq_self)

text \<open>Splitting a number and putting it together again.\<close>

lemma and_ffff: "x AND 0xFFFF = take_bit 16 (x :: u32)"
proof -
  have m: "(0xFFFF :: u32) = mask 16" by (simp add: mask_eq_exp_minus_1)
  show ?thesis unfolding m by (rule take_bit_eq_mask [symmetric])
qed

lemma low_16_alt: "low_16_bits x = ucast x"
  unfolding low_16_bits_def and_ffff by (rule bit_eqI) (auto simp: bit_simps)

lemma high_16_alt: "high_16_bits x = ucast (drop_bit 16 x)"
proof -
  have "drop_bit 16 (x AND 0xFFFF0000) = drop_bit 16 x AND 0xFFFF" by (simp add: drop_bit_and)
  then show ?thesis unfolding high_16_bits_def and_ffff by (intro bit_eqI) (auto simp: bit_simps)
qed

lemma uid_split: "ucast (low_16_bits x) OR push_bit 16 (ucast (high_16_bits x)) = (x :: u32)"
  unfolding low_16_alt high_16_alt by (rule bit_eqI) (auto simp: bit_simps)

lemma uid_join: "low_16_bits (ucast l OR push_bit 16 (ucast h)) = l" "high_16_bits (ucast l OR push_bit 16 (ucast h)) = h"
proof -
  show "low_16_bits (ucast l OR push_bit 16 (ucast h)) = l"
    unfolding low_16_alt by (rule bit_eqI) (auto simp: bit_simps)
  have "\<not> bit l (16 + k)" for k using bit_imp_le_length [of l "16 + k"] by auto
  then show "high_16_bits (ucast l OR push_bit 16 (ucast h)) = h"
    unfolding high_16_alt by (intro bit_eqI) (auto simp: bit_simps)
qed

lemma uid_low:
  fixes x :: u32
  assumes "x \<le> 65535"
  shows "ucast (fs_high2lowuid x) = x"
proof -
  have "unat x < 2 ^ 16" using assms by (simp add: word_le_nat_alt)
  then have "unat (ucast (ucast x :: u16) :: u32) = unat x" by (simp add: unsigned_ucast_eq unsigned_take_bit_eq take_bit_nat_eq_self)
  then have "ucast (ucast x :: u16) = x" by (rule word_unat_eq_iff [THEN iffD2])
  then show ?thesis using assms by (auto simp: fs_high2lowuid_def dest: leD)
qed

lemma low_uid: "fs_high2lowuid (ucast l) = l"
proof -
  have "unat l < 2 ^ LENGTH(16)" by (rule unsigned_less)
  then have "unat l \<le> 65535" by simp
  then have "(ucast l :: u32) \<le> 65535" by (simp add: word_le_nat_alt unsigned_ucast_eq unsigned_take_bit_eq take_bit_nat_eq_self)
  moreover have "(ucast (ucast l :: u32) :: u16) = l" by (rule bit_eqI) (auto simp: bit_simps)
  ultimately show ?thesis by (auto simp: fs_high2lowuid_def dest: leD)
qed

lemma size_split:
  assumes "n < 2 ^ 64"
  shows "unat (of_nat n :: u32) OR push_bit 32 (unat (of_nat (drop_bit 32 n) :: u32)) = n"
proof -
  have b: "k < 64" if "bit n k" for k using assms that by (metis linorder_not_less bit_iff_odd div_less even_zero less_le_trans one_le_numeral power_increasing)
  show ?thesis
    by (rule bit_eqI) (auto simp: bit_simps unsigned_of_nat not_less dest: b)
qed

lemma size_join:
  fixes l h :: u32
  shows "of_nat (unat l OR push_bit 32 (unat h)) = l" "of_nat (drop_bit 32 (unat l OR push_bit 32 (unat h))) = h"
proof -
  have "\<not> bit l (32 + k)" for k using bit_imp_le_length [of l "32 + k"] by auto
  then show "of_nat (unat l OR push_bit 32 (unat h)) = l" "of_nat (drop_bit 32 (unat l OR push_bit 32 (unat h))) = h"
    by (intro bit_eqI; auto simp: bit_simps)+
qed

text \<open>The two flag bits.\<close>

lemma flag_bits:
  fixes f :: u32
  shows "f AND 0x20 \<noteq> 0 \<longleftrightarrow> bit f 5" "f AND 0x10 \<noteq> 0 \<longleftrightarrow> bit f 4"
    "f OR 0x20 = set_bit 5 f" "f OR 0x10 = set_bit 4 f" "f AND NOT 0x20 = unset_bit 5 f" "f AND NOT 0x10 = unset_bit 4 f"
  by (simp_all add: bit_iff_and_push_bit_not_eq_0 set_bit_eq_or unset_bit_eq_and_not)

lemma i2ei_flags_bits:
  "bit (i2ei_flags hf ip) k \<longleftrightarrow> (if k = 5 then i_flags ip AND APPEND hf \<noteq> 0 else if k = 4 then i_flags ip AND IMMUTABLE hf \<noteq> 0 else bit (i_e2flags ip) k)"
  unfolding i2ei_flags_def Let_def flag_bits by (auto simp: bit_simps)

lemma host_flags_and:
  assumes "host_flags_ok hf"
  shows "APPEND hf AND IMMUTABLE hf = 0" "IMMUTABLE hf AND APPEND hf = 0" "APPEND hf \<noteq> 0" "IMMUTABLE hf \<noteq> 0"
    "(APPEND hf OR IMMUTABLE hf) AND APPEND hf = APPEND hf" "(APPEND hf OR IMMUTABLE hf) AND IMMUTABLE hf = IMMUTABLE hf"
  using assms by (auto simp: host_flags_ok_def and.commute bit.conj_disj_distrib2)

lemma flags_read:
  assumes "host_flags_ok hf" "i_flags ip \<in> {0, APPEND hf, IMMUTABLE hf, APPEND hf OR IMMUTABLE hf}"
  shows "(if i2ei_flags hf ip AND 0x20 \<noteq> 0 then APPEND hf else 0) OR (if i2ei_flags hf ip AND 0x10 \<noteq> 0 then IMMUTABLE hf else 0) = i_flags ip"
  unfolding flag_bits i2ei_flags_bits using assms(2) by (auto simp: host_flags_and [OF assms(1)])

lemma flags_write:
  assumes "host_flags_ok hf" "i_e2flags ip = f"
    "i_flags ip = (if f AND 0x20 \<noteq> 0 then APPEND hf else 0) OR (if f AND 0x10 \<noteq> 0 then IMMUTABLE hf else 0)"
  shows "i2ei_flags hf ip = f"
  using assms(2,3) unfolding flag_bits
  by (intro bit_eqI) (auto simp: i2ei_flags_bits host_flags_and [OF assms(1)])

lemma i2ei_fields:
  assumes "ext2_i2ei hf no_uid32 sb ip ei = (ei', ip', sb')"
  shows "ip' = ip\<lparr>i_e2flags := i2ei_flags hf ip\<rparr>" "sb' = i2ei_large ip sb"
    "ei_mode ei' = i_mode ip" "ei_links_count ei' = word_of_int (i_nlink ip)"
    "ei_size ei' = of_nat (i_size ip)" "S_ISREG (i_mode ip) \<Longrightarrow> ei_size_high ei' = of_nat (drop_bit 32 (i_size ip))"
    "\<not> S_ISREG (i_mode ip) \<Longrightarrow> ei_size_high ei' = ei_size_high ei"
    "ei_atime ei' = word_of_int (i_atime ip)" "ei_mtime ei' = word_of_int (i_mtime ip)" "ei_ctime ei' = word_of_int (i_ctime ip)"
    "ei_dtime ei' = (if i_nlink ip \<noteq> 0 then 0 else word_of_int (i_mtime ip))"
    "ei_flags ei' = i2ei_flags hf ip" "ei_blocks ei' = word_of_int (i_blocks ip)" "ei_generation ei' = word_of_int (i_gen ip)"
    "ei_uid ei' = (if no_uid32 then fs_high2lowuid (i_uid ip) else low_16_bits (i_uid ip))"
    "ei_gid ei' = (if no_uid32 then fs_high2lowuid (i_gid ip) else low_16_bits (i_gid ip))"
    "ei_uid_high ei' = (if no_uid32 \<or> i_nlink ip = 0 \<and> word_of_int (i_mtime ip) \<noteq> (0 :: u32) then 0 else high_16_bits (i_uid ip))"
    "ei_gid_high ei' = (if no_uid32 \<or> i_nlink ip = 0 \<and> word_of_int (i_mtime ip) \<noteq> (0 :: u32) then 0 else high_16_bits (i_gid ip))"
    "ei_block ei' = map (\<lambda>i. word_of_int (i_db ip ! i)) [0..<12] @ map (\<lambda>i. word_of_int (i_ib ip ! i)) [0..<3]"
proof -
  let ?r = "ext2_i2ei hf no_uid32 sb ip ei"
  have e: "ei' = fst ?r" "ip' = fst (snd ?r)" "sb' = snd (snd ?r)" using assms by simp_all
  note d = ext2_i2ei_def Let_def
  show "ip' = ip\<lparr>i_e2flags := i2ei_flags hf ip\<rparr>" "sb' = i2ei_large ip sb" unfolding e by (simp_all add: d i2ei_large_def)
  show "ei_mode ei' = i_mode ip" "ei_links_count ei' = word_of_int (i_nlink ip)"
    "ei_size ei' = of_nat (i_size ip)" "S_ISREG (i_mode ip) \<Longrightarrow> ei_size_high ei' = of_nat (drop_bit 32 (i_size ip))"
    "\<not> S_ISREG (i_mode ip) \<Longrightarrow> ei_size_high ei' = ei_size_high ei"
    "ei_atime ei' = word_of_int (i_atime ip)" "ei_mtime ei' = word_of_int (i_mtime ip)" "ei_ctime ei' = word_of_int (i_ctime ip)"
    "ei_dtime ei' = (if i_nlink ip \<noteq> 0 then 0 else word_of_int (i_mtime ip))"
    "ei_flags ei' = i2ei_flags hf ip" "ei_blocks ei' = word_of_int (i_blocks ip)" "ei_generation ei' = word_of_int (i_gen ip)"
    unfolding e by (simp_all add: d)
  show "ei_uid ei' = (if no_uid32 then fs_high2lowuid (i_uid ip) else low_16_bits (i_uid ip))"
    "ei_gid ei' = (if no_uid32 then fs_high2lowuid (i_gid ip) else low_16_bits (i_gid ip))"
    "ei_uid_high ei' = (if no_uid32 \<or> i_nlink ip = 0 \<and> word_of_int (i_mtime ip) \<noteq> (0 :: u32) then 0 else high_16_bits (i_uid ip))"
    "ei_gid_high ei' = (if no_uid32 \<or> i_nlink ip = 0 \<and> word_of_int (i_mtime ip) \<noteq> (0 :: u32) then 0 else high_16_bits (i_gid ip))"
    "ei_block ei' = map (\<lambda>i. word_of_int (i_db ip ! i)) [0..<12] @ map (\<lambda>i. word_of_int (i_ib ip ! i)) [0..<3]"
    unfolding e by (simp_all add: d)
qed

section \<open>Properties\<close>

text \<open>
  C25: writing an inode to its disk inode and reading that into any other inode, whatever it held before, restores it: mode, link count,
  size, times, flags, block count, generation, owner, group and all block pointers of an inode in use
  come back, with the limits of the disk format as the only conditions. Only what the disk does not have, such as the allocation hints
  and the flags of the inode in memory, stays as it was. The large file bits of the size, the high halves of the ids and the two flag
  bits are split and joined again.
\<close>

theorem inode_write_read:
  assumes "host_flags_ok hf" "inode_ok hf no_uid32 ip" "ext2_i2ei hf no_uid32 sb ip ei = (ei', ip', sb')"
  shows "ip' = ip\<lparr>i_e2flags := i2ei_flags hf ip\<rparr> \<and>
    ext2_ei2i hf no_uid32 ei' jp = ip'\<lparr>i_flag := i_flag jp, i_number := i_number jp, i_block_group := i_block_group jp,
      i_next_alloc_block := i_next_alloc_block jp, i_next_alloc_goal := i_next_alloc_goal jp,
      i_prealloc_block := i_prealloc_block jp, i_prealloc_count := i_prealloc_count jp, i_btime := i_btime jp\<rparr>"
proof -
  note E = i2ei_fields [OF assms(3)]
  have r: "sint (word_of_int x :: u32) = x" if "x \<in> {i_atime ip, i_mtime ip, i_ctime ip, i_blocks ip, i_gen ip} \<union> set (i_db ip) \<union> set (i_ib ip)" for x
    using assms(2) that by (intro sint_word_of_int) (auto simp: inode_ok_def)
  have l: "length (i_db ip) = 12" "length (i_ib ip) = 3" using assms(2) by (simp_all add: inode_ok_def)
  have nl: "sint (word_of_int (i_nlink ip) :: u16) = i_nlink ip" using assms(2) by (intro sint_word_of_int16) (simp_all add: inode_ok_def)
  then have lc: "ei_links_count ei' \<noteq> 0" using assms(2) E(4) by (auto simp: inode_ok_def)
  have db: "map (\<lambda>i. sint (ei_block ei' ! i)) [0..<12] = i_db ip"
    unfolding E using l r by (auto simp: list_eq_iff_nth_eq nth_append)
  have ib: "map (\<lambda>i. sint (ei_block ei' ! (12 + i))) [0..<3] = i_ib ip"
    unfolding E using l r by (auto simp: list_eq_iff_nth_eq nth_append)
  have uid: "(if \<not> no_uid32 then ucast (ei_uid ei') OR push_bit 16 (ucast (ei_uid_high ei')) else ucast (ei_uid ei')) = i_uid ip"
    "(if \<not> no_uid32 then ucast (ei_gid ei') OR push_bit 16 (ucast (ei_gid_high ei')) else ucast (ei_gid ei')) = i_gid ip"
    using assms(2) unfolding E(15-18) by (simp_all add: uid_split uid_low inode_ok_def)
  have fl: "(if ei_flags ei' AND 0x20 \<noteq> 0 then APPEND hf else 0) OR (if ei_flags ei' AND 0x10 \<noteq> 0 then IMMUTABLE hf else 0) = i_flags ip"
    unfolding E(12) by (rule flags_read [OF assms(1)]) (use assms(2) in \<open>simp add: inode_ok_def\<close>)
  have sz: "(if S_ISREG (i_mode ip) then unat (ei_size ei') OR push_bit 32 (unat (ei_size_high ei')) else unat (ei_size ei')) = i_size ip"
  proof (cases "S_ISREG (i_mode ip)")
    case True
    then show ?thesis using assms(2) size_split [of "i_size ip"] unfolding E(5) E(6) [OF True] by (simp add: inode_ok_def)
  next
    case False
    then show ?thesis using assms(2) unat_of_nat_small [of "i_size ip"] unfolding E(5) by (simp add: inode_ok_def)
  qed
  have "ext2_ei2i hf no_uid32 ei' jp = ip'\<lparr>i_flag := i_flag jp, i_number := i_number jp, i_block_group := i_block_group jp,
      i_next_alloc_block := i_next_alloc_block jp, i_next_alloc_goal := i_next_alloc_goal jp,
      i_prealloc_block := i_prealloc_block jp, i_prealloc_count := i_prealloc_count jp, i_btime := i_btime jp\<rparr>"
    unfolding ext2_ei2i_def Let_def uid fl db ib using lc
    by (intro inode.equality) (simp_all add: sz E(1,3,4,8-10,12-14) nl r)
  then show ?thesis using E(1) by blast
qed


lemma tiny_dir_ok: "inode_ok sample_hf False tiny_dir" "host_flags_ok sample_hf"
proof -
  have "\<not> S_ISREG 0x41ED" by (simp add: S_ISREG_def)
  then show "inode_ok sample_hf False tiny_dir" by (auto simp: inode_ok_def tiny_dir_def)
  show "host_flags_ok sample_hf" by (simp add: host_flags_ok_def sample_hf_def)
qed

theorem inode_write_read_witness:
  "\<exists>ei' ip' sb'. ext2_i2ei sample_hf False tiny_sb tiny_dir sample_ei = (ei', ip', sb') \<and>
     (let jp = ext2_ei2i sample_hf False ei' (tiny_dir\<lparr>i_number := 12, i_mode := 0, i_nlink := 0, i_size := 7, i_db := [], i_ib := []\<rparr>) in
      i_number jp = 12 \<and> i_mode jp = 0x41ED \<and> i_nlink jp = 2 \<and> i_size jp = 32 \<and> i_db jp = 9 # replicate 11 0 \<and> i_ib jp = replicate 3 0)"
proof -
  obtain ei' ip' sb' where r: "ext2_i2ei sample_hf False tiny_sb tiny_dir sample_ei = (ei', ip', sb')" by (metis prod_cases3)
  note w = inode_write_read [OF tiny_dir_ok(2,1) r, of "tiny_dir\<lparr>i_number := 12, i_mode := 0, i_nlink := 0, i_size := 7, i_db := [], i_ib := []\<rparr>"]
  show ?thesis
    by (intro exI conjI, rule r) (unfold w [THEN conjunct2] w [THEN conjunct1] Let_def, simp add: tiny_dir_def)
qed

lemma ei2i_fields:
  assumes "ip = ext2_ei2i hf no_uid32 ei ip0" "ei_links_count ei \<noteq> 0"
  shows "i_mode ip = ei_mode ei" "i_nlink ip = sint (ei_links_count ei)" "i_size ip = (if S_ISREG (ei_mode ei)
      then unat (ei_size ei) OR push_bit 32 (unat (ei_size_high ei)) else unat (ei_size ei))"
    "i_atime ip = sint (ei_atime ei)" "i_mtime ip = sint (ei_mtime ei)" "i_ctime ip = sint (ei_ctime ei)"
    "i_blocks ip = sint (ei_blocks ei)" "i_gen ip = sint (ei_generation ei)" "i_e2flags ip = ei_flags ei"
    "i_flags ip = (if ei_flags ei AND 0x20 \<noteq> 0 then APPEND hf else 0) OR (if ei_flags ei AND 0x10 \<noteq> 0 then IMMUTABLE hf else 0)"
    "i_uid ip = (if no_uid32 then ucast (ei_uid ei) else ucast (ei_uid ei) OR push_bit 16 (ucast (ei_uid_high ei)))"
    "i_gid ip = (if no_uid32 then ucast (ei_gid ei) else ucast (ei_gid ei) OR push_bit 16 (ucast (ei_gid_high ei)))"
    "i_db ip = map (\<lambda>i. sint (ei_block ei ! i)) [0..<12]" "i_ib ip = map (\<lambda>i. sint (ei_block ei ! (12 + i))) [0..<3]"
  using assms(2) unfolding assms(1) ext2_ei2i_def Let_def by simp_all

text \<open>
  Reading a disk inode in use and writing it back unchanged leaves every byte of it as it
  was, so an update that changes nothing in core changes nothing on disk.
\<close>

theorem inode_read_write:
  assumes "host_flags_ok hf" "ei_links_count ei \<noteq> 0" "ei_dtime ei = 0" "length (ei_block ei) = 15"
    and "no_uid32 \<longrightarrow> ei_uid_high ei = 0 \<and> ei_gid_high ei = 0"
  shows "fst (ext2_i2ei hf no_uid32 sb (ext2_ei2i hf no_uid32 ei ip) ei) = ei"
proof -
  define ip1 where "ip1 = ext2_ei2i hf no_uid32 ei ip"
  note I = ei2i_fields [OF ip1_def assms(2)]
  obtain ei' ip' sb' where r: "ext2_i2ei hf no_uid32 sb ip1 ei = (ei', ip', sb')" by (metis prod_cases3)
  note E = i2ei_fields [OF r]
  have nl: "i_nlink ip1 \<noteq> 0" using I(2) assms(2) by (metis signed_0 signed_word_eqI)
  have blk: "ei_block ei' = ei_block ei" unfolding E(19) I(13,14)
  proof (rule nth_equalityI)
    fix i assume "i < length (map (\<lambda>i. word_of_int (map (\<lambda>i. sint (ei_block ei ! i)) [0..<12] ! i) :: u32) [0..<12] @
        map (\<lambda>i. word_of_int (map (\<lambda>i. sint (ei_block ei ! (12 + i))) [0..<3] ! i)) [0..<3])"
    then have "i < 15" by simp
    then consider "i < 12" | j where "i = 12 + j" "j < 3" using le_Suc_ex [of 12 i] by (cases "i < 12") auto
    then show "(map (\<lambda>i. word_of_int (map (\<lambda>i. sint (ei_block ei ! i)) [0..<12] ! i)) [0..<12] @
        map (\<lambda>i. word_of_int (map (\<lambda>i. sint (ei_block ei ! (12 + i))) [0..<3] ! i)) [0..<3]) ! i = ei_block ei ! i"
      by cases (simp_all add: nth_append)
  qed (use assms(4) in simp)
  have fl: "ei_flags ei' = ei_flags ei" unfolding E(12) by (rule flags_write [OF assms(1) I(9,10)])
  have uid: "ei_uid ei' = ei_uid ei" "ei_gid ei' = ei_gid ei" "ei_uid_high ei' = ei_uid_high ei" "ei_gid_high ei' = ei_gid_high ei"
    unfolding E(15-18) I(11,12) using nl assms(5) by (simp_all add: uid_join low_uid)
  have sz: "ei_size ei' = ei_size ei \<and> ei_size_high ei' = ei_size_high ei"
  proof (cases "S_ISREG (ei_mode ei)")
    case True
    then have "S_ISREG (i_mode ip1)" by (simp only: I(1))
    from E(6) [OF this] E(5) show ?thesis unfolding I(3) if_P [OF True] by (simp only: size_join simp_thms)
  next
    case False
    then have "\<not> S_ISREG (i_mode ip1)" by (simp only: I(1) simp_thms)
    from E(7) [OF this] E(5) show ?thesis unfolding I(3) if_not_P [OF False] by simp
  qed
  have "ei' = ei"
    by (rule ext2_inode.equality) (use blk fl uid sz nl assms(3) in \<open>simp_all add: E(3,4,8-11,13,14) I(1,2,4-8)\<close>)
  then show ?thesis using r by (simp add: ip1_def)
qed

theorem inode_read_write_witness: "fst (ext2_i2ei sample_hf False tiny_sb (ext2_ei2i sample_hf False sample_ei tiny_dir) sample_ei) = sample_ei"
  using inode_read_write [OF tiny_dir_ok(2), of sample_ei False tiny_sb tiny_dir] by (simp add: sample_ei_def)

text \<open>
  Writing a regular file of 2 gigabytes or more leaves the file system marked: the large
  file feature is set and the revision has feature flags at all. For every other inode the
  super block is not touched.
\<close>

theorem ext2_i2ei_large_file:
  assumes "ext2_i2ei hf no_uid32 sb ip ei = (ei', ip', sb')"
  shows "if S_ISREG (i_mode ip) \<and> 2 ^ 31 \<le> i_size ip
    then s_feature_ro_compat (s_es sb') AND 2 \<noteq> 0 \<and> s_rev_level (s_es sb') \<noteq> 0 \<and> (sb' \<noteq> sb \<longrightarrow> s_dirt sb')
    else sb' = sb"
proof -
  have b: "(x OR 2) AND 2 = 2" for x :: u32 by (rule bit_eqI) (auto simp: bit_simps)
  have i: "2 ^ 31 \<le> i_size ip \<longleftrightarrow> i_size ip > 0x7FFFFFFF" by auto
  show ?thesis
  proof (cases "s_rev_level (s_es sb) = 0")
    case True
    then show ?thesis unfolding i2ei_fields(2) [OF assms] i2ei_large_def i by (simp add: Let_def ext3_update_dynamic_rev_def b)
  next
    case False
    then have p: "s_rev_level (s_es sb) > 0" by (simp add: word_gt_0)
    have u: "ext3_update_dynamic_rev sb = sb" unfolding ext3_update_dynamic_rev_def if_P [OF p] ..
    show ?thesis
    proof (cases "S_ISREG (i_mode ip) \<and> i_size ip > 0x7FFFFFFF \<and> s_feature_ro_compat (s_es sb) AND 2 = 0")
      case True
      then have "sb' = sb\<lparr>s_es := (s_es sb)\<lparr>s_feature_ro_compat := s_feature_ro_compat (s_es sb) OR 2\<rparr>, s_dirt := True\<rparr>"
        unfolding i2ei_fields(2) [OF assms] i2ei_large_def Let_def u by simp
      then have "s_feature_ro_compat (s_es sb') AND 2 = 2" "s_rev_level (s_es sb') = s_rev_level (s_es sb)" "s_dirt sb'"
        using b by simp_all
      then show ?thesis unfolding i using True False by simp
    next
      case N: False
      then have "sb' = sb" unfolding i2ei_fields(2) [OF assms] i2ei_large_def using False by auto
      then show ?thesis unfolding i using N False by simp
    qed
  qed
qed

theorem ext2_i2ei_large_file_witness:
  "s_feature_ro_compat (s_es (snd (snd (ext2_i2ei sample_hf False tiny_sb (tiny_dir\<lparr>i_mode := 0x81A4, i_size := 2 ^ 31\<rparr>) sample_ei)))) AND 2 \<noteq> 0"
proof -
  let ?ip = "tiny_dir\<lparr>i_mode := 0x81A4, i_size := 2 ^ 31\<rparr>"
  obtain ei' ip' sb' where r: "ext2_i2ei sample_hf False tiny_sb ?ip sample_ei = (ei', ip', sb')" by (metis prod_cases3)
  have "S_ISREG (i_mode ?ip) \<and> 2 ^ 31 \<le> i_size ?ip" by (simp add: S_ISREG_def)
  then show ?thesis using ext2_i2ei_large_file [OF r] r by simp
qed

end
