(* ===== verification/Ext2_Mount.thy ===== *)
theory Ext2_Mount
  imports Ext2_Inode_Cnv
begin

text \<open>
  Mounting and unmounting: the checks and computations of \<^verbatim>\<open>ext2_vfsops.c\<close> on the super block and
  the group descriptors, writing them back, the inode that \<^verbatim>\<open>ext2_vget_internal\<close> makes, and the
  position of an inode on the disk for \<^verbatim>\<open>ext2_vget_internal\<close> and \<^verbatim>\<open>ext2_update\<close>.

  The part of the device that these routines read and write is a record of its own: the super
  block, the descriptor blocks by their device address, each seen as the structure the code
  casts the buffer to, and which reads and writes fail. What the host provides to
  \<^verbatim>\<open>ext2_mountfs\<close> is a record too: the errors of its calls, the flags of the mount, the time, the
  page size, and the contents of the memory that \<^verbatim>\<open>bsd_malloc\<close> returns. A shift of an \<^verbatim>\<open>int\<close> by
  more than its width takes the count modulo 32, as the processor does.
\<close>

unbundle bit_operations_syntax

section \<open>Data\<close>

record fsdisk =
  dk_sb :: ext2fs
  dk_gd :: "int \<Rightarrow> ext2_group_desc list"
  dk_sb_err :: "errno option"
  dk_gd_err :: "int \<Rightarrow> errno option"
  dk_sb_werr :: "errno option"
  dk_gd_werr :: "int \<Rightarrow> bool"

record mount_env =
  me_inval :: "errno option"
  me_ioctl :: bool
  me_ioattr :: "errno option"
  me_ronly :: bool
  me_force :: bool
  me_now :: u32
  me_page_size :: int
  me_malloc :: m_ext2fs
  me_devvp :: device

section \<open>Checks\<close>

definition ext2_check_sb_compat :: "ext2fs \<Rightarrow> bool \<Rightarrow> bool" where
  "ext2_check_sb_compat es ronly \<longleftrightarrow>
     (if s_magic es \<noteq> 0xEF53 then True
      else if s_rev_level es > 0 then
        if s_feature_incompat es AND NOT 2 \<noteq> 0 then True
        else if \<not> ronly \<and> s_feature_ro_compat es AND NOT 3 \<noteq> 0 then True
        else False
      else False)"

text \<open>One turn of the loop of \<open>ext2_check_descriptors\<close>: is the descriptor of a group that starts at \<open>block\<close> sane?\<close>

definition desc_ok :: "m_ext2fs \<Rightarrow> nat \<Rightarrow> ext2_group_desc \<Rightarrow> bool" where
  "desc_ok sb block gdp \<longleftrightarrow>
     \<not> (unat (bg_block_bitmap gdp) < block \<or> unat (bg_block_bitmap gdp) \<ge> block + e2fs_bpg sb) \<and>
     \<not> (unat (bg_inode_bitmap gdp) < block \<or> unat (bg_inode_bitmap gdp) \<ge> block + e2fs_bpg sb) \<and>
     \<not> (unat (bg_inode_table gdp) < block \<or> unat (bg_inode_table gdp) + e2fs_itpg sb \<ge> block + e2fs_bpg sb)"

fun check_desc_loop :: "m_ext2fs \<Rightarrow> nat \<Rightarrow> nat \<Rightarrow> nat \<Rightarrow> bool \<times> m_ext2fs" where
  "check_desc_loop sb i 0 block = (True, sb)"
| "check_desc_loop sb i (Suc n) block =
     (let gdp = the (s_group_desc sb ! (i div EXT2_DESC_PER_BLOCK sb)) ! (i mod EXT2_DESC_PER_BLOCK sb) in
      if \<not> desc_ok sb block gdp then (False, sb)
      else check_desc_loop (sb\<lparr>s_dircount := s_dircount sb + int (unat (bg_used_dirs_count gdp))\<rparr>)
             (i + 1) n (block + e2fs_bpg sb))"

definition ext2_check_descriptors :: "m_ext2fs \<Rightarrow> bool \<times> m_ext2fs" where
  "ext2_check_descriptors sb = check_desc_loop (sb\<lparr>s_dircount := 0\<rparr>) 0 (s_groups_count sb) (first_data_block sb)"

section \<open>The in-core super block\<close>

definition shl32 :: "int \<Rightarrow> nat \<Rightarrow> int" where
  "shl32 x n = int32 (x * 2 ^ (n mod 32))"

definition gd_blkno :: "m_ext2fs \<Rightarrow> nat \<Rightarrow> int" where
  "gd_blkno fs i = fsbtodb fs ((if s_blocksize fs > 1024 then 0 else 1) + int i + 1)"

text \<open>The fields up to the reading of the descriptors; \<open>Panic\<close> where a division traps.\<close>

definition sb_sizes :: "ext2fs \<Rightarrow> m_ext2fs \<Rightarrow> m_ext2fs" where
  "sb_sizes es fs =
     (let lg = unat (s_log_block_size es);
          bs = ulong (shl32 1024 lg);
          fsize = ulong (shl32 1024 (unat (s_log_frag_size es))) in
      fs\<lparr>s_blocksize := bs,
         s_bshift := uint32 (10 + int lg),
         s_fsbtodb := uint32 (int lg + 1),
         s_qbmask := ulong (int bs - 1),
         s_blocksize_bits := uint32 (int lg + 10),
         e2fs_fsize := fsize,
         e2fs_fpb := (if fsize \<noteq> 0 then bs div fsize else e2fs_fpb fs),
         e2fs_bpg := unat (s_blocks_per_group es),
         e2fs_fpg := unat (s_frags_per_group es),
         e2fs_ipg := unat (s_inodes_per_group es),
         e2fs_ipb := bs div 128\<rparr>)"

definition sb_counts :: "ext2fs \<Rightarrow> m_ext2fs \<Rightarrow> m_ext2fs outcome" where
  "sb_counts es fs =
     (if e2fs_ipb fs = 0 \<or> e2fs_bpg fs = 0 \<or> EXT2_DESC_PER_BLOCK fs = 0 then Panic Divide_error
      else
        let gc = (unat (s_blocks_count es - s_first_data_block es) + e2fs_bpg fs - 1) div e2fs_bpg fs;
            db_count = int32 (int ((gc + EXT2_DESC_PER_BLOCK fs - 1) div EXT2_DESC_PER_BLOCK fs));
            bs = int (s_blocksize fs); a = bs div 4 in
        Return (fs\<lparr>e2fs_itpg := e2fs_ipg fs div e2fs_ipb fs,
           s_desc_per_block := s_blocksize fs div 32,
           s_groups_count := gc,
           e2fs_dbpg := ulong db_count,
           s_maxfilesize := ulong (12 * bs + a * bs + a * a * bs + a * a * a * bs),
           s_hash_seed := es_hash_seed es,
           s_def_hash_version := es_def_hash_version es\<rparr>))"

text \<open>The descriptor blocks from number \<open>i\<close> on; an error ends the loop.\<close>

fun read_descs :: "fsdisk \<Rightarrow> m_ext2fs \<Rightarrow> nat \<Rightarrow> nat \<Rightarrow> ext2_group_desc list option list option" where
  "read_descs dk fs i 0 = Some []"
| "read_descs dk fs i (Suc n) =
     (case dk_gd_err dk (gd_blkno fs i) of
        Some error \<Rightarrow> None
      | None \<Rightarrow>
          case read_descs dk fs (i + 1) n of None \<Rightarrow> None
          | Some ds \<Rightarrow> Some (Some (dk_gd dk (gd_blkno fs i)) # ds))"

definition sb_inode_size :: "ext2fs \<Rightarrow> m_ext2fs \<Rightarrow> errno + m_ext2fs" where
  "sb_inode_size es fs =
     (if s_rev_level es = 0 then Inr (fs\<lparr>e2fs_isize := 128\<rparr>)
      else
        let isize = unat (s_inode_size es) in
        if s_first_ino es < 11 then Inl EINVAL
        else if isize < 128 \<or> isize > s_blocksize fs \<or> isize AND (isize - 1) \<noteq> 0 then Inl EINVAL
        else Inr (fs\<lparr>e2fs_isize := isize\<rparr>))"

definition compute_sb_data :: "fsdisk \<Rightarrow> ext2fs \<Rightarrow> m_ext2fs \<Rightarrow> (errno + m_ext2fs) outcome" where
  "compute_sb_data dk es fs =
     bindp (sb_counts es (sb_sizes es fs)) (\<lambda>fs.
     case read_descs dk fs 0 (e2fs_dbpg fs) of
       None \<Rightarrow> Return (Inl EIO)
     | Some ds \<Rightarrow>
         let (ok, fs) = ext2_check_descriptors (fs\<lparr>s_group_desc := ds, s_gd_dirty := {}\<rparr>) in
         if \<not> ok then Return (Inl EIO)
         else
           case sb_inode_size es fs of
             Inl error \<Rightarrow> Return (Inl error)
           | Inr fs \<Rightarrow>
               Return (Inr (fs\<lparr>s_inode_bitmap_number := replicate 8 0, s_inode_bitmap := replicate 8 None,
                 s_block_bitmap_number := replicate 8 0, s_block_bitmap := replicate 8 None,
                 s_loaded_inode_bitmaps := 0, s_loaded_block_bitmaps := 0\<rparr>)))"

section \<open>Writing back\<close>

text \<open>
  A dirty descriptor buffer is taken from the cache, marked clean and written; the result of the write is not looked at. The
  buffers are locked into the cache from the mount on, so \<^verbatim>\<open>buf_getblk\<close> is taken to find them and the panic for a buffer
  that is gone is not part of the model.
\<close>

definition write_desc :: "m_ext2fs \<Rightarrow> nat \<Rightarrow> fsdisk \<Rightarrow> fsdisk" where
  "write_desc fs i dk =
     (if i \<in> s_gd_dirty fs \<and> \<not> dk_gd_werr dk (gd_blkno fs i)
      then dk\<lparr>dk_gd := (dk_gd dk)(gd_blkno fs i := the (s_group_desc fs ! i))\<rparr> else dk)"

definition ext2_sbupdate :: "bool \<Rightarrow> ext2mount \<Rightarrow> fsdisk \<Rightarrow> errno option \<times> ext2mount \<times> fsdisk" where
  "ext2_sbupdate wait mp dk =
     (let fs = um_e2fs mp;
          dk = fold (write_desc fs) [0..<e2fs_dbpg fs] dk;
          fs' = fs\<lparr>s_gd_dirty := s_gd_dirty fs - {0..<e2fs_dbpg fs}\<rparr>;
          error = dk_sb_werr dk;
          dk = (if error = None then dk\<lparr>dk_sb := s_es fs\<rparr> else dk) in
      (if wait then error else None, mp\<lparr>um_e2fs := fs'\<rparr>, dk))"

section \<open>Mount and unmount\<close>

text \<open>The checks of \<open>ext2_mountfs\<close> on the super block before anything is allocated.\<close>

definition mount_checks :: "mount_env \<Rightarrow> ext2fs \<Rightarrow> errno option" where
  "mount_checks env es =
     (if ext2_check_sb_compat es (me_ronly env) then Some EINVAL
      else if (s_state es AND 1 = 0 \<or> s_state es AND 2 \<noteq> 0) \<and> \<not> (me_ronly env \<or> me_force env) then Some EPERM
      else if shl32 1024 (unat (s_log_block_size es)) > me_page_size env then Some ENOTSUP
      else None)"

text \<open>The fields that are set once the super block is accepted.\<close>

definition mount_es :: "mount_env \<Rightarrow> ext2fs \<Rightarrow> ext2fs" where
  "mount_es env es =
     (let es = (if me_ronly env then es else es\<lparr>s_state := s_state es AND NOT 1\<rparr>);
          es = es\<lparr>s_mtime := me_now env\<rparr>;
          es = (if s_max_mnt_count es = 0 then es\<lparr>s_max_mnt_count := 20\<rparr> else es) in
      es\<lparr>s_mnt_count := s_mnt_count es + 1\<rparr>)"

definition ext2_mountfs :: "mount_env \<Rightarrow> fsdisk \<Rightarrow> ((errno + ext2mount) \<times> fsdisk) outcome" where
  "ext2_mountfs env dk =
     (case me_inval env of Some error \<Rightarrow> Return (Inl error, dk) | None \<Rightarrow>
      if me_ioctl env then Return (Inl ENXIO, dk)
      else
        case me_ioattr env of Some error \<Rightarrow> Return (Inl error, dk) | None \<Rightarrow>
        case dk_sb_err dk of Some error \<Rightarrow> Return (Inl error, dk) | None \<Rightarrow>
        let es = dk_sb dk in
        case mount_checks env es of Some error \<Rightarrow> Return (Inl error, dk) | None \<Rightarrow>
        bindp (compute_sb_data dk es ((me_malloc env)\<lparr>s_es := es\<rparr>)) (\<lambda>r.
        case r of
          Inl error \<Rightarrow> Return (Inl error, dk)
        | Inr fs \<Rightarrow>
            if e2fs_fsize fs = 0 then Panic Divide_error
            else
              let ump = \<lparr>um_e2fs = fs\<lparr>s_rd_only := me_ronly env,
                           s_wasvalid := (s_state (s_es fs) AND 1 \<noteq> 0),
                           s_dirt := (if me_ronly env then s_dirt fs else True),
                           s_d_blocksize := 512,
                           s_es := mount_es env (s_es fs)\<rparr>,
                         um_devvp = me_devvp env,
                         um_nindir = s_blocksize fs div 4,
                         um_bptrtodb = uint32 (int (unat (s_log_block_size (s_es fs))) + 1),
                         um_seqinc = s_blocksize fs div e2fs_fsize fs\<rparr> in
              if \<not> me_ronly env then
                case ext2_sbupdate True ump dk of (_, ump, dk) \<Rightarrow> Return (Inr ump, dk)
              else Return (Inr ump, dk)))"

text \<open>\<open>flush\<close> is what flushing the files returned, \<open>force_root\<close> that a forced unmount of the root was asked for.\<close>

definition ext2_unmount :: "bool \<Rightarrow> errno option \<Rightarrow> ext2mount \<Rightarrow> fsdisk \<Rightarrow> errno option \<times> fsdisk" where
  "ext2_unmount force_root flush ump dk =
     (if force_root then (Some EINVAL, dk)
      else case flush of Some error \<Rightarrow> (Some error, dk) | None \<Rightarrow>
        let fs = um_e2fs ump in
        if \<not> s_rd_only fs then
          let fs = (if s_wasvalid fs then fs\<lparr>s_es := (s_es fs)\<lparr>s_state := s_state (s_es fs) OR 1\<rparr>\<rparr> else fs);
              (_, _, dk) = ext2_sbupdate True (ump\<lparr>um_e2fs := fs\<rparr>) dk in
          (None, dk)
        else (None, dk))"

section \<open>The place of an inode\<close>

definition ino_to_fsba :: "m_ext2fs \<Rightarrow> nat \<Rightarrow> nat" where
  "ino_to_fsba fs x = unat (bg_inode_table (gdesc fs (ino_to_cg fs x))) + ((x - 1) mod e2fs_ipg fs) div e2fs_ipb fs"

definition ino_to_fsbo :: "m_ext2fs \<Rightarrow> nat \<Rightarrow> nat" where
  "ino_to_fsbo fs x = (x - 1) mod e2fs_ipb fs"

text \<open>The offset in the block at which \<open>ext2_vget_internal\<close> reads an inode and at which \<open>ext2_update\<close> writes it.\<close>

definition vget_offset :: "m_ext2fs \<Rightarrow> nat \<Rightarrow> nat" where
  "vget_offset fs ino = e2fs_isize fs * ino_to_fsbo fs ino"

definition update_offset :: "m_ext2fs \<Rightarrow> nat \<Rightarrow> nat" where
  "update_offset fs ino = 128 * ino_to_fsbo fs ino"

text \<open>
  The inode that \<open>ext2_vget_internal\<close> makes of the disk inode, in memory that was cleared. \<open>create\<close> has
  the mode and the ids of the caller when the inode is being created. A negative number of
  used blocks would make the loop write before the array.
\<close>

definition vget_inode ::
    "host_flags \<Rightarrow> bool \<Rightarrow> m_ext2fs \<Rightarrow> nat \<Rightarrow> (u16 \<times> u32 \<times> u32) option \<Rightarrow> ext2_inode \<Rightarrow> inode \<Rightarrow> inode outcome" where
  "vget_inode hf no_uid32 fs ino create ei cleared =
     (let ip = ext2_ei2i hf no_uid32 ei (cleared\<lparr>i_number := ino\<rparr>);
          ip = ip\<lparr>i_block_group := ino_to_cg fs ino, i_next_alloc_block := 0, i_next_alloc_goal := 0,
                  i_prealloc_count := 0, i_prealloc_block := 0\<rparr> in
      if S_ISDIR (i_mode ip) \<or> S_ISREG (i_mode ip) then
        if s_blocksize fs = 0 then Panic Divide_error
        else
          let used_blocks = int32 (int (ulong (int (i_size ip + s_blocksize fs) - 1) div s_blocksize fs)) in
          if used_blocks < 0 then Panic Wild_pointer
          else Return (ip\<lparr>i_db := map (\<lambda>i. if used_blocks \<le> int i then 0 else i_db ip ! i) [0..<12]\<rparr>)
      else
        case create of
          Some (mode, uid, gid) \<Rightarrow> Return (if mode \<noteq> 0 then ip\<lparr>i_mode := mode, i_uid := uid, i_gid := gid\<rparr> else ip)
        | None \<Rightarrow> Return ip)"

section \<open>Specifications\<close>

text \<open>The descriptors on disk and in core agree except where a buffer is marked dirty.\<close>

definition descs_in_sync :: "m_ext2fs \<Rightarrow> fsdisk \<Rightarrow> bool" where
  "descs_in_sync fs dk \<longleftrightarrow> (\<forall>i < e2fs_dbpg fs. i \<notin> s_gd_dirty fs \<longrightarrow> dk_gd dk (gd_blkno fs i) = the (s_group_desc fs ! i))"

text \<open>The number of directories of a group.\<close>

abbreviation dirs_of :: "m_ext2fs \<Rightarrow> nat \<Rightarrow> int" where
  "dirs_of sb g \<equiv> int (unat (bg_used_dirs_count (gdesc sb g)))"

text \<open>The inode size that a super block asks for and when it is accepted.\<close>

definition isize_of :: "ext2fs \<Rightarrow> nat" where
  "isize_of es = (if s_rev_level es = 0 then 128 else unat (s_inode_size es))"

definition isize_accepted :: "ext2fs \<Rightarrow> nat \<Rightarrow> bool" where
  "isize_accepted es bs \<longleftrightarrow> s_rev_level es = 0 \<or>
     11 \<le> s_first_ino es \<and> 128 \<le> isize_of es \<and> isize_of es \<le> bs \<and> isize_of es AND (isize_of es - 1) = 0"

text \<open>Two groups of 64 blocks of 1024 bytes, with inodes of 256 bytes.\<close>

definition vol_es :: ext2fs where
  "vol_es = tiny_es\<lparr>s_rev_level := 1, s_inode_size := 256\<rparr>"

definition vol_disk :: fsdisk where
  "vol_disk = \<lparr>dk_sb = vol_es, dk_gd = (\<lambda>_. tiny_gd0 # tiny_gd1 # replicate 30 tiny_gd0), dk_sb_err = None,
     dk_gd_err = (\<lambda>_. None), dk_sb_werr = None, dk_gd_werr = (\<lambda>_. False)\<rparr>"

definition vol_env :: mount_env where
  "vol_env = \<lparr>me_inval = None, me_ioctl = False, me_ioattr = None, me_ronly = False, me_force = False, me_now = 7,
     me_page_size = 4096, me_malloc = tiny_sb, me_devvp = tiny_dev\<rparr>"

definition vol_sb :: m_ext2fs where
  "vol_sb = (case compute_sb_data vol_disk vol_es (tiny_sb\<lparr>s_es := vol_es\<rparr>) of Return (Inr fs) \<Rightarrow> fs | _ \<Rightarrow> tiny_sb)"

definition vol_mount :: ext2mount where
  "vol_mount = (case ext2_mountfs vol_env vol_disk of Return (Inr ump, dk) \<Rightarrow> ump | _ \<Rightarrow> tiny_mount)"

definition vol_mounted :: fsdisk where
  "vol_mounted = (case ext2_mountfs vol_env vol_disk of Return (Inr ump, dk) \<Rightarrow> dk | _ \<Rightarrow> vol_disk)"

section \<open>Lemmas\<close>

lemma desc_dircount [simp]:
  "desc_ok (sb\<lparr>s_dircount := d\<rparr>) block gdp = desc_ok sb block gdp" "gdesc (sb\<lparr>s_dircount := d\<rparr>) g = gdesc sb g"
  "EXT2_DESC_PER_BLOCK (sb\<lparr>s_dircount := d\<rparr>) = EXT2_DESC_PER_BLOCK sb"
  by (simp_all add: desc_ok_def gdesc_def gdp_read_def gd_ptr_def EXT2_DESC_PER_BLOCK_def)

lemma check_desc_loop_spec:
  "check_desc_loop sb i n block =
     (if \<forall>j < n. desc_ok sb (block + j * e2fs_bpg sb) (gdesc sb (i + j))
      then (True, sb\<lparr>s_dircount := s_dircount sb + (\<Sum>j < n. dirs_of sb (i + j))\<rparr>)
      else (False, snd (check_desc_loop sb i n block)))"
proof (induction n arbitrary: sb i block)
  case (Suc n)
  have g: "the (s_group_desc sb ! (i div EXT2_DESC_PER_BLOCK sb)) ! (i mod EXT2_DESC_PER_BLOCK sb) = gdesc sb i"
    by (simp add: gdesc_def gdp_read_def gd_ptr_def)
  have all: "(\<forall>j < Suc n. desc_ok sb (block + j * e2fs_bpg sb) (gdesc sb (i + j))) \<longleftrightarrow>
      desc_ok sb block (gdesc sb i) \<and> (\<forall>j < n. desc_ok sb (block + e2fs_bpg sb + j * e2fs_bpg sb) (gdesc sb (i + 1 + j)))"
    by (auto simp: less_Suc_eq_0_disj algebra_simps)
  have sum: "(\<Sum>j < Suc n. dirs_of sb (i + j)) = dirs_of sb i + (\<Sum>j < n. dirs_of sb (i + 1 + j))"
    by (subst sum.lessThan_Suc_shift) simp
  show ?case
  proof (cases "desc_ok sb block (gdesc sb i)")
    case True
    show ?thesis
      using Suc.IH [of "sb\<lparr>s_dircount := s_dircount sb + dirs_of sb i\<rparr>" "i + 1" "block + e2fs_bpg sb"] True
      unfolding all sum by (simp add: g Let_def add.assoc del: check_desc_loop.simps(1))
  next
    case False
    then show ?thesis unfolding all by (simp add: g)
  qed
qed simp

lemma read_descs_spec:
  "read_descs dk fs i n = (if \<forall>j < n. dk_gd_err dk (gd_blkno fs (i + j)) = None
     then Some (map (\<lambda>j. Some (dk_gd dk (gd_blkno fs (i + j)))) [0..<n]) else None)"
proof (induction n arbitrary: i)
  case (Suc n)
  have all: "(\<forall>j < Suc n. dk_gd_err dk (gd_blkno fs (i + j)) = None) \<longleftrightarrow>
      dk_gd_err dk (gd_blkno fs i) = None \<and> (\<forall>j < n. dk_gd_err dk (gd_blkno fs (i + 1 + j)) = None)"
    by (auto simp: less_Suc_eq_0_disj)
  have m: "map (\<lambda>j. Some (dk_gd dk (gd_blkno fs (i + j)))) [0..<Suc n] =
      Some (dk_gd dk (gd_blkno fs i)) # map (\<lambda>j. Some (dk_gd dk (gd_blkno fs (i + 1 + j)))) [0..<n]"
    by (subst upt_conv_Cons, simp) (simp add: map_Suc_upt [symmetric] del: upt_Suc)
  show ?case unfolding all m using Suc.IH [of "i + 1"] by (cases "dk_gd_err dk (gd_blkno fs i)") simp_all
qed simp

lemma sb_inode_size_eq:
  "sb_inode_size es f = (if isize_accepted es (s_blocksize f) then Inr (f\<lparr>e2fs_isize := isize_of es\<rparr>) else Inl EINVAL)"
  by (auto simp: sb_inode_size_def isize_accepted_def isize_of_def Let_def not_less)

text \<open>What a successful \<open>compute_sb_data\<close> has gone through.\<close>

lemma compute_sb_data_Inr:
  assumes "compute_sb_data dk es fs0 = Return (Inr fs)"
  obtains f1 ds where "sb_counts es (sb_sizes es fs0) = Return f1"
    "\<forall>j < e2fs_dbpg f1. dk_gd_err dk (gd_blkno f1 j) = None"
    "ds = map (\<lambda>j. Some (dk_gd dk (gd_blkno f1 j))) [0..<e2fs_dbpg f1]"
    "\<forall>g < s_groups_count fs. desc_ok fs (first_data_block fs + g * e2fs_bpg fs) (gdesc fs g)"
    "isize_accepted es (s_blocksize f1)"
    "fs = f1\<lparr>s_group_desc := ds, s_gd_dirty := {}, s_dircount := (\<Sum>g < s_groups_count fs. dirs_of fs g), e2fs_isize := isize_of es,
       s_inode_bitmap_number := replicate 8 0, s_inode_bitmap := replicate 8 None,
       s_block_bitmap_number := replicate 8 0, s_block_bitmap := replicate 8 None,
       s_loaded_inode_bitmaps := 0, s_loaded_block_bitmaps := 0\<rparr>"
proof -
  obtain f1 where f1: "sb_counts es (sb_sizes es fs0) = Return f1"
    using assms by (cases "sb_counts es (sb_sizes es fs0)") (auto simp: compute_sb_data_def)
  define ds where "ds = map (\<lambda>j. Some (dk_gd dk (gd_blkno f1 j))) [0..<e2fs_dbpg f1]"
  have rd: "\<forall>j < e2fs_dbpg f1. dk_gd_err dk (gd_blkno f1 j) = None"
    using assms by (auto simp: compute_sb_data_def f1 read_descs_spec split: if_splits)
  have rs: "read_descs dk f1 0 (e2fs_dbpg f1) = Some ds" using rd by (simp add: read_descs_spec ds_def)
  define f2 where "f2 = f1\<lparr>s_group_desc := ds, s_gd_dirty := {}, s_dircount := 0\<rparr>"
  define f3 where "f3 = f2\<lparr>s_dircount := (\<Sum>g < s_groups_count f1. dirs_of f2 g)\<rparr>"
  have chk: "ext2_check_descriptors (f1\<lparr>s_group_desc := ds, s_gd_dirty := {}\<rparr>) = check_desc_loop f2 0 (s_groups_count f1) (first_data_block f1)"
    by (simp add: ext2_check_descriptors_def f2_def)
  have ok: "\<forall>j < s_groups_count f1. desc_ok f2 (first_data_block f1 + j * e2fs_bpg f2) (gdesc f2 (0 + j))"
  proof (rule ccontr)
    assume n: "\<not> ?thesis"
    have "fst (check_desc_loop f2 0 (s_groups_count f1) (first_data_block f1)) = False"
      by (subst check_desc_loop_spec) (simp only: n if_False fst_conv)
    then show False using assms by (simp add: compute_sb_data_def f1 rs chk split: prod.splits)
  qed
  have c3: "check_desc_loop f2 0 (s_groups_count f1) (first_data_block f1) = (True, f3)"
    by (rule trans [OF check_desc_loop_spec], rule trans [OF if_P [OF ok]]) (simp add: f3_def f2_def)
  have k: "isize_accepted es (s_blocksize f3)"
  proof (rule ccontr)
    assume "\<not> ?thesis"
    then show False using assms by (simp add: compute_sb_data_def f1 rs chk c3 sb_inode_size_eq)
  qed
  have fs: "fs = f3\<lparr>e2fs_isize := isize_of es, s_inode_bitmap_number := replicate 8 0, s_inode_bitmap := replicate 8 None,
       s_block_bitmap_number := replicate 8 0, s_block_bitmap := replicate 8 None,
       s_loaded_inode_bitmaps := 0, s_loaded_block_bitmaps := 0\<rparr>"
    using assms by (simp add: compute_sb_data_def f1 rs chk c3 k sb_inode_size_eq)
  have d: "desc_ok fs b gdp = desc_ok f2 b gdp" "gdesc fs g = gdesc f2 g" for b gdp g
    by (simp_all add: fs f3_def f2_def desc_ok_def gdesc_def gdp_read_def gd_ptr_def EXT2_DESC_PER_BLOCK_def)
  show thesis
  proof (rule that [OF f1 rd ds_def])
    show "isize_accepted es (s_blocksize f1)" using k by (simp add: f3_def f2_def)
    show "\<forall>g < s_groups_count fs. desc_ok fs (first_data_block fs + g * e2fs_bpg fs) (gdesc fs g)"
      using ok unfolding d by (simp add: fs f3_def f2_def)
    have s: "(\<Sum>g < s_groups_count fs. dirs_of fs g) = (\<Sum>g < s_groups_count f1. dirs_of f2 g)"
      unfolding d by (simp add: fs f3_def f2_def)
    show "fs = f1\<lparr>s_group_desc := ds, s_gd_dirty := {}, s_dircount := (\<Sum>g < s_groups_count fs. dirs_of fs g), e2fs_isize := isize_of es,
       s_inode_bitmap_number := replicate 8 0, s_inode_bitmap := replicate 8 None,
       s_block_bitmap_number := replicate 8 0, s_block_bitmap := replicate 8 None,
       s_loaded_inode_bitmaps := 0, s_loaded_block_bitmaps := 0\<rparr>"
      unfolding s by (simp add: fs f3_def f2_def)
  qed
qed

lemma compute_sb_data_fields:
  assumes "compute_sb_data dk es fs0 = Return (Inr fs)"
  obtains f1 where "sb_counts es (sb_sizes es fs0) = Return f1" "isize_accepted es (s_blocksize fs)" "e2fs_isize fs = isize_of es"
    "s_es fs = s_es f1" "s_groups_count fs = s_groups_count f1" "e2fs_bpg fs = e2fs_bpg f1" "s_blocksize fs = s_blocksize f1"
    "e2fs_ipb fs = e2fs_ipb f1" "s_fsbtodb fs = s_fsbtodb f1"
proof (rule compute_sb_data_Inr [OF assms])
  fix f1 ds
  assume a: "sb_counts es (sb_sizes es fs0) = Return f1" "isize_accepted es (s_blocksize f1)"
    and fs: "fs = f1\<lparr>s_group_desc := ds, s_gd_dirty := {}, s_dircount := (\<Sum>g < s_groups_count fs. dirs_of fs g), e2fs_isize := isize_of es,
       s_inode_bitmap_number := replicate 8 0, s_inode_bitmap := replicate 8 None,
       s_block_bitmap_number := replicate 8 0, s_block_bitmap := replicate 8 None,
       s_loaded_inode_bitmaps := 0, s_loaded_block_bitmaps := 0\<rparr>"
  have f: "s_blocksize fs = s_blocksize f1" by (subst fs, simp)
  show thesis by (rule that [OF a(1)], simp add: f a, (subst fs, simp)+)
qed

lemma sb_counts_Return:
  assumes "sb_counts es (sb_sizes es fs0) = Return f1"
  shows "e2fs_ipb f1 = s_blocksize f1 div 128" "e2fs_ipb f1 \<noteq> 0" "e2fs_bpg f1 = unat (s_blocks_per_group es)" "e2fs_bpg f1 \<noteq> 0"
    "s_groups_count f1 = (unat (s_blocks_count es - s_first_data_block es) + e2fs_bpg f1 - 1) div e2fs_bpg f1"
    "e2fs_dbpg f1 = ulong (int32 (int ((s_groups_count f1 + s_blocksize f1 div 32 - 1) div (s_blocksize f1 div 32))))"
    "s_es f1 = s_es fs0" "s_blocksize f1 = ulong (shl32 1024 (unat (s_log_block_size es)))"
    "e2fs_fsize f1 = ulong (shl32 1024 (unat (s_log_frag_size es)))" "s_fsbtodb f1 = uint32 (int (unat (s_log_block_size es)) + 1)"
  using assms by (auto simp: sb_counts_def sb_sizes_def EXT2_DESC_PER_BLOCK_def Let_def split: if_splits)

lemma round_up_div:
  fixes n b :: nat
  assumes "0 < b"
  shows "n \<le> (n + b - 1) div b * b" "(n + b - 1) div b \<noteq> 0 \<Longrightarrow> ((n + b - 1) div b - 1) * b < n"
    "k < (n + b - 1) div b * b \<Longrightarrow> k div b < (n + b - 1) div b" "g < n \<Longrightarrow> g div b < (n + b - 1) div b"
proof -
  have m: "n + b - 1 = (n + b - 1) div b * b + (n + b - 1) mod b" "(n + b - 1) mod b < b" using assms by simp_all
  show l: "n \<le> (n + b - 1) div b * b" using m assms by linarith
  show "((n + b - 1) div b - 1) * b < n" if "(n + b - 1) div b \<noteq> 0"
  proof -
    have "((n + b - 1) div b - 1) * b = (n + b - 1) div b * b - b" by (simp add: diff_mult_distrib)
    moreover have "b \<le> (n + b - 1) div b * b" using that by (cases "(n + b - 1) div b") simp_all
    ultimately show ?thesis using m(1) assms by linarith
  qed
  show c: "k div b < (n + b - 1) div b" if "k < (n + b - 1) div b * b" for k
    using that by (simp add: less_mult_imp_div_less)
  show "g div b < (n + b - 1) div b" if "g < n" using c [of g] l that by linarith
qed

lemma sb_counts_dbpg:
  assumes "sb_counts es (sb_sizes es fs0) = Return f1"
  shows "e2fs_dbpg f1 = (s_groups_count f1 + s_blocksize f1 div 32 - 1) div (s_blocksize f1 div 32)" "4 \<le> s_blocksize f1 div 32"
proof -
  note f = sb_counts_Return [OF assms]
  let ?dpb = "s_blocksize f1 div 32" and ?D = "unat (s_blocks_count es - s_first_data_block es)"
  have "128 \<le> s_blocksize f1" using f(1,2) by simp
  then show d: "4 \<le> ?dpb" by linarith
  have "?D < 2 ^ 32" using unsigned_less [of "s_blocks_count es - s_first_data_block es"] by simp
  moreover have "(?D + e2fs_bpg f1 - 1) div e2fs_bpg f1 \<le> ?D"
  proof (cases "?D = 0")
    case False
    have "?D + e2fs_bpg f1 - 1 \<le> ?D * e2fs_bpg f1" using False f(4) by (cases ?D; cases "e2fs_bpg f1") auto
    then show ?thesis using div_le_mono [of "?D + e2fs_bpg f1 - 1" "?D * e2fs_bpg f1" "e2fs_bpg f1"] f(4) by simp
  qed (use f(4) in simp)
  ultimately have gc: "s_groups_count f1 < 2 ^ 32" unfolding f(5) by linarith
  have "(s_groups_count f1 + ?dpb - 1) div ?dpb \<le> (s_groups_count f1 div ?dpb) + 1"
  proof -
    have "?dpb \<noteq> 0" using d by linarith
    then have "(s_groups_count f1 + ?dpb) div ?dpb = s_groups_count f1 div ?dpb + 1" by (rule div_add_self2)
    then show ?thesis using div_le_mono [of "s_groups_count f1 + ?dpb - 1" "s_groups_count f1 + ?dpb" ?dpb] by linarith
  qed
  also have "s_groups_count f1 div ?dpb \<le> s_groups_count f1 div 4" using d by (simp add: div_le_mono2)
  finally have "(s_groups_count f1 + ?dpb - 1) div ?dpb < 2 ^ 31" using gc by simp
  then show "e2fs_dbpg f1 = (s_groups_count f1 + ?dpb - 1) div ?dpb"
    unfolding f(6) by (simp add: int32_int ulong_id)
qed

lemma compute_sb_data_loaded:
  assumes c: "compute_sb_data dk es fs0 = Return (Inr fs)" and l: "\<forall>a. length (dk_gd dk a) = EXT2_DESC_PER_BLOCK fs"
  shows "gds_loaded fs" "no_bitmap_cache fs" "descs_in_sync fs dk" "s_gd_dirty fs = {}" "length (s_group_desc fs) = e2fs_dbpg fs"
proof -
  from c obtain f1 ds where f1: "sb_counts es (sb_sizes es fs0) = Return f1"
    "ds = map (\<lambda>j. Some (dk_gd dk (gd_blkno f1 j))) [0..<e2fs_dbpg f1]"
    "fs = f1\<lparr>s_group_desc := ds, s_gd_dirty := {}, s_dircount := (\<Sum>g < s_groups_count fs. dirs_of fs g), e2fs_isize := isize_of es,
       s_inode_bitmap_number := replicate 8 0, s_inode_bitmap := replicate 8 None,
       s_block_bitmap_number := replicate 8 0, s_block_bitmap := replicate 8 None,
       s_loaded_inode_bitmaps := 0, s_loaded_block_bitmaps := 0\<rparr>"
    by (rule compute_sb_data_Inr) (rule that)
  have f: "s_group_desc fs = ds" "s_groups_count fs = s_groups_count f1" "s_blocksize fs = s_blocksize f1"
    "e2fs_dbpg fs = e2fs_dbpg f1" "s_fsbtodb fs = s_fsbtodb f1" "s_gd_dirty fs = {}" "s_loaded_block_bitmaps fs = 0"
    "s_block_bitmap fs = replicate 8 None"
    by (subst f1(3), simp)+
  show "s_gd_dirty fs = {}" by (rule f)
  show "length (s_group_desc fs) = e2fs_dbpg fs" by (simp add: f f1(2))
  show "no_bitmap_cache fs" using f by (simp add: no_bitmap_cache_def)
  have b: "gd_blkno fs = gd_blkno f1" using f by (simp add: gd_blkno_def fsbtodb_def fun_eq_iff)
  show "descs_in_sync fs dk" using f b f1(2) by (simp add: descs_in_sync_def)
  have d: "EXT2_DESC_PER_BLOCK fs = s_blocksize f1 div 32" using f by (simp add: EXT2_DESC_PER_BLOCK_def)
  have p: "0 < s_blocksize f1 div 32" using sb_counts_dbpg(2) [OF f1(1)] by linarith
  have q: "g div (s_blocksize f1 div 32) < e2fs_dbpg f1" if "g < s_groups_count f1" for g
    unfolding sb_counts_dbpg(1) [OF f1(1)] using round_up_div(4) [OF p that] .
  show "gds_loaded fs" unfolding gds_loaded_def gd_ptr_def d f(1,2)
  proof (intro conjI p allI impI)
    fix g assume "g < s_groups_count f1"
    note g = q [OF this]
    then show "fst (g div (s_blocksize f1 div 32), g mod (s_blocksize f1 div 32)) < length ds" by (simp add: f1(2))
    show "case ds ! fst (g div (s_blocksize f1 div 32), g mod (s_blocksize f1 div 32)) of None \<Rightarrow> False
       | Some ds \<Rightarrow> snd (g div (s_blocksize f1 div 32), g mod (s_blocksize f1 div 32)) < length ds"
      using g l p by (simp add: f1(2) d)
  qed
qed

text \<open>Writing the descriptors back.\<close>

lemma write_desc_simps [simp]:
  "dk_sb (write_desc fs i dk) = dk_sb dk" "dk_sb_werr (write_desc fs i dk) = dk_sb_werr dk"
  "dk_gd_werr (write_desc fs i dk) = dk_gd_werr dk"
  by (simp_all add: write_desc_def)

lemma fold_write_simps [simp]:
  "dk_sb (fold (write_desc fs) is dk) = dk_sb dk" "dk_sb_werr (fold (write_desc fs) is dk) = dk_sb_werr dk"
  "dk_gd_werr (fold (write_desc fs) is dk) = dk_gd_werr dk"
  by (induction "is" arbitrary: dk) simp_all

lemma fold_write_desc:
  assumes "inj_on (gd_blkno fs) (insert i (set is))" "distinct is"
  shows "dk_gd (fold (write_desc fs) is dk) (gd_blkno fs i) =
     (if i \<in> set is \<and> i \<in> s_gd_dirty fs \<and> \<not> dk_gd_werr dk (gd_blkno fs i) then the (s_group_desc fs ! i) else dk_gd dk (gd_blkno fs i))"
  using assms
proof (induction "is" arbitrary: dk)
  case (Cons j js)
  have "inj_on (gd_blkno fs) (insert i (set js))" by (rule inj_on_subset [OF Cons.prems(1)]) auto
  note IH = Cons.IH [OF this, of "write_desc fs j dk"]
  have "gd_blkno fs i = gd_blkno fs j \<longleftrightarrow> i = j" using Cons.prems(1) by (auto simp: inj_on_def)
  then show ?case using IH Cons.prems(2) by (auto simp: write_desc_def)
qed simp

lemma gd_blkno_inj:
  assumes "(n + 2) * 2 ^ s_fsbtodb fs < 2 ^ 31"
  shows "inj_on (gd_blkno fs) {..<n}"
proof (rule inj_onI)
  fix i j assume ij: "i \<in> {..<n}" "j \<in> {..<n}" and e: "gd_blkno fs i = gd_blkno fs j"
  obtain c :: nat where c: "(if s_blocksize fs > 1024 then 0 else 1) = int c" "c \<le> 1" by (rule that [of "if s_blocksize fs > 1024 then 0 else 1"]) simp_all
  have v: "gd_blkno fs k = int ((c + k + 1) * 2 ^ s_fsbtodb fs)" if "k < n" for k
  proof -
    have "(c + k + 1) * 2 ^ s_fsbtodb fs \<le> (n + 2) * 2 ^ s_fsbtodb fs" using that c(2) by (intro mult_le_mono1) simp
    then have w: "(c + k + 1) * 2 ^ s_fsbtodb fs < 2 ^ 31" using assms by linarith
    have "(c + k + 1) * 1 \<le> (c + k + 1) * 2 ^ s_fsbtodb fs" by (rule mult_le_mono2) simp
    from le_less_trans [OF this w] have x: "c + k + 1 < 2 ^ 31" by simp
    have "gd_blkno fs k = int32 (int32 (int (c + k + 1)) * 2 ^ s_fsbtodb fs)" unfolding gd_blkno_def fsbtodb_def c(1) by (simp add: add.commute add.left_commute)
    also have "\<dots> = int32 (int ((c + k + 1) * 2 ^ s_fsbtodb fs))" unfolding int32_int [OF x] of_nat_mult of_nat_power of_nat_numeral ..
    finally show ?thesis unfolding int32_int [OF w] .
  qed
  have "int ((c + i + 1) * 2 ^ s_fsbtodb fs) = int ((c + j + 1) * 2 ^ s_fsbtodb fs)" using e ij v by simp
  then have "(c + i + 1) * 2 ^ s_fsbtodb fs = (c + j + 1) * 2 ^ s_fsbtodb fs" by (rule of_nat_eq_iff [THEN iffD1])
  then show "i = j" by (simp only: mult_cancel2) simp
qed

lemma ext2_sbupdate_parts:
  "ext2_sbupdate wait mp dk = (e, mp', dk') \<Longrightarrow> e = (if wait then dk_sb_werr dk else None) \<and>
     mp' = mp\<lparr>um_e2fs := (um_e2fs mp)\<lparr>s_gd_dirty := s_gd_dirty (um_e2fs mp) - {0..<e2fs_dbpg (um_e2fs mp)}\<rparr>\<rparr> \<and>
     dk_sb dk' = (if dk_sb_werr dk = None then s_es (um_e2fs mp) else dk_sb dk) \<and>
     dk_gd dk' = dk_gd (fold (write_desc (um_e2fs mp)) [0..<e2fs_dbpg (um_e2fs mp)] dk) \<and> dk_sb_werr dk' = dk_sb_werr dk"
  by (auto simp: ext2_sbupdate_def Let_def split: if_splits)

section \<open>A small volume\<close>

lemma shl_1024 [simp]: "shl32 1024 0 = 1024" "ulong 1024 = 1024"
  by (simp_all add: shl32_def int32_def ulong_def)

lemma vol_counts: "\<exists>f1. sb_counts vol_es (sb_sizes vol_es (tiny_sb\<lparr>s_es := vol_es\<rparr>)) = Return f1 \<and>
    s_groups_count f1 = 2 \<and> e2fs_dbpg f1 = 1 \<and> s_blocksize f1 = 1024 \<and> e2fs_bpg f1 = 64 \<and> e2fs_itpg f1 = 2 \<and> s_es f1 = vol_es \<and>
    e2fs_fsize f1 = 1024"
  by (simp add: sb_counts_def sb_sizes_def Let_def EXT2_DESC_PER_BLOCK_def vol_es_def tiny_es_def tiny_sb_def ulong_def int32_def)

lemma vol_compute:
  "compute_sb_data vol_disk vol_es (tiny_sb\<lparr>s_es := vol_es\<rparr>) = Return (Inr vol_sb)"
  "s_blocksize vol_sb = 1024" "e2fs_isize vol_sb = 256" "s_es vol_sb = vol_es" "s_groups_count vol_sb = 2" "e2fs_dbpg vol_sb = 1"
  "e2fs_fsize vol_sb = 1024"
proof -
  obtain f1 where f1: "sb_counts vol_es (sb_sizes vol_es (tiny_sb\<lparr>s_es := vol_es\<rparr>)) = Return f1"
    "s_groups_count f1 = 2" "e2fs_dbpg f1 = 1" "s_blocksize f1 = 1024" "e2fs_bpg f1 = 64" "e2fs_itpg f1 = 2" "s_es f1 = vol_es"
    "e2fs_fsize f1 = 1024"
    using vol_counts by blast
  define ds where "ds = [Some (tiny_gd0 # tiny_gd1 # replicate 30 tiny_gd0)]"
  have rd: "read_descs vol_disk f1 0 1 = Some ds" by (simp add: vol_disk_def ds_def)
  have acc: "isize_accepted vol_es 1024" "isize_of vol_es = 256"
    by (simp_all add: isize_accepted_def isize_of_def vol_es_def tiny_es_def)
  have ck: "ext2_check_descriptors (f1\<lparr>s_group_desc := ds, s_gd_dirty := {}\<rparr>) = (True, f1\<lparr>s_group_desc := ds, s_gd_dirty := {}, s_dircount := 1\<rparr>)"
    by (simp add: ext2_check_descriptors_def Let_def f1(3-) f1(2) [unfolded numeral_2_eq_2] EXT2_DESC_PER_BLOCK_def ds_def desc_ok_def tiny_gd0_def tiny_gd1_def vol_es_def tiny_es_def)
  have e: "\<exists>fs. compute_sb_data vol_disk vol_es (tiny_sb\<lparr>s_es := vol_es\<rparr>) = Return (Inr fs) \<and>
     s_blocksize fs = 1024 \<and> e2fs_isize fs = 256 \<and> s_es fs = vol_es \<and> s_groups_count fs = 2 \<and> e2fs_dbpg fs = 1 \<and> e2fs_fsize fs = 1024"
    using rd by (simp add: compute_sb_data_def f1 ck sb_inode_size_eq acc)
  then obtain fs where fs: "compute_sb_data vol_disk vol_es (tiny_sb\<lparr>s_es := vol_es\<rparr>) = Return (Inr fs)"
     "s_blocksize fs = 1024" "e2fs_isize fs = 256" "s_es fs = vol_es" "s_groups_count fs = 2" "e2fs_dbpg fs = 1" "e2fs_fsize fs = 1024" by blast
  then have "vol_sb = fs" by (simp add: vol_sb_def)
  then show "compute_sb_data vol_disk vol_es (tiny_sb\<lparr>s_es := vol_es\<rparr>) = Return (Inr vol_sb)"
    "s_blocksize vol_sb = 1024" "e2fs_isize vol_sb = 256" "s_es vol_sb = vol_es" "s_groups_count vol_sb = 2" "e2fs_dbpg vol_sb = 1"
    "e2fs_fsize vol_sb = 1024"
    using fs by simp_all
qed

lemma vol_fsbtodb: "s_fsbtodb vol_sb = 1"
  by (rule compute_sb_data_fields [OF vol_compute(1)], drule sb_counts_Return(10)) (simp add: vol_es_def tiny_es_def uint32_def)

lemma vol_mounts: "ext2_mountfs vol_env vol_disk = Return (Inr vol_mount, vol_mounted)"
proof -
  have "mount_checks vol_env vol_es = None"
    by (simp add: mount_checks_def ext2_check_sb_compat_def vol_env_def vol_es_def tiny_es_def)
  then have "\<exists>ump dk. ext2_mountfs vol_env vol_disk = Return (Inr ump, dk)"
    using vol_compute(1) vol_compute(7) by (simp add: ext2_mountfs_def vol_env_def vol_disk_def [THEN arg_cong, of dk_sb] vol_disk_def [THEN arg_cong, of dk_sb_err] Let_def split: prod.splits)
  then show ?thesis by (auto simp: vol_mount_def vol_mounted_def)
qed

section \<open>Mounting\<close>

text \<open>
  C22: what a successful \<^verbatim>\<open>compute_sb_data\<close> guarantees to the allocators. Every group has its descriptor in a
  loaded buffer that is equal to the disk, no bitmap is cached, the groups cover the
  blocks of the volume with none to spare, the two bitmaps of each group and every block of its inode
  table are among the blocks of that group, and the count of directories is the sum over the groups.
\<close>

theorem compute_sb_data_establishes:
  assumes "compute_sb_data dk es fs0 = Return (Inr fs)" "s_es fs0 = es" "\<forall>a. length (dk_gd dk a) = EXT2_DESC_PER_BLOCK fs"
  shows "gds_loaded fs \<and> no_bitmap_cache fs \<and> descs_in_sync fs dk \<and> s_gd_dirty fs = {} \<and>
     (\<forall>g < s_groups_count fs.
        let gd = gdesc fs g; s = first_data_block fs + g * e2fs_bpg fs; blocks = {s..<s + e2fs_bpg fs} in
        unat (bg_block_bitmap gd) \<in> blocks \<and> unat (bg_inode_bitmap gd) \<in> blocks \<and>
        unat (bg_inode_table gd) \<in> blocks \<and> {unat (bg_inode_table gd)..<unat (bg_inode_table gd) + e2fs_itpg fs} \<subseteq> blocks) \<and>
     s_dircount fs = (\<Sum>g < s_groups_count fs. int (unat (bg_used_dirs_count (gdesc fs g)))) \<and>
     unat (s_blocks_count es - s_first_data_block es) \<le> s_groups_count fs * e2fs_bpg fs \<and>
     (s_groups_count fs \<noteq> 0 \<longrightarrow> (s_groups_count fs - 1) * e2fs_bpg fs < unat (s_blocks_count es - s_first_data_block es))"
proof -
  from assms(1) obtain f1 where f1: "sb_counts es (sb_sizes es fs0) = Return f1"
    and e: "s_groups_count fs = s_groups_count f1" "e2fs_bpg fs = e2fs_bpg f1"
    by (rule compute_sb_data_fields) (rule that)
  have d: "\<forall>g < s_groups_count fs. desc_ok fs (first_data_block fs + g * e2fs_bpg fs) (gdesc fs g)"
    "s_dircount fs = (\<Sum>g < s_groups_count fs. dirs_of fs g)"
    by (rule compute_sb_data_Inr [OF assms(1)], assumption, rule compute_sb_data_Inr [OF assms(1)], erule ssubst, simp)
  have i: "let gd = gdesc fs g; s = first_data_block fs + g * e2fs_bpg fs; blocks = {s..<s + e2fs_bpg fs} in
      unat (bg_block_bitmap gd) \<in> blocks \<and> unat (bg_inode_bitmap gd) \<in> blocks \<and>
      unat (bg_inode_table gd) \<in> blocks \<and> {unat (bg_inode_table gd)..<unat (bg_inode_table gd) + e2fs_itpg fs} \<subseteq> blocks"
    if "g < s_groups_count fs" for g
    using d(1) [rule_format, OF that] by (auto simp: desc_ok_def Let_def not_less)
  note c = sb_counts_Return [OF f1]
  have p: "0 < e2fs_bpg f1" using c(4) by simp
  have n: "unat (s_blocks_count es - s_first_data_block es) \<le> s_groups_count fs * e2fs_bpg fs"
    "s_groups_count fs \<noteq> 0 \<longrightarrow> (s_groups_count fs - 1) * e2fs_bpg fs < unat (s_blocks_count es - s_first_data_block es)"
    unfolding e c(5) using round_up_div(1,2) [OF p] by blast+
  show ?thesis
    using compute_sb_data_loaded [OF assms(1,3)] d(2) i n by blast
qed

theorem compute_sb_data_establishes_witness:
  "compute_sb_data vol_disk vol_es (tiny_sb\<lparr>s_es := vol_es\<rparr>) = Return (Inr vol_sb) \<and> gds_loaded vol_sb \<and>
   {unat (bg_inode_table (gdesc vol_sb 1))..<unat (bg_inode_table (gdesc vol_sb 1)) + e2fs_itpg vol_sb} \<subseteq> {65..<129}"
proof -
  have g: "1 < s_groups_count vol_sb" and e: "s_es (tiny_sb\<lparr>s_es := vol_es\<rparr>) = vol_es" by (simp_all add: vol_compute)
  have "\<forall>a. length (dk_gd vol_disk a) = EXT2_DESC_PER_BLOCK vol_sb" by (simp add: EXT2_DESC_PER_BLOCK_def vol_compute vol_disk_def)
  note r = compute_sb_data_establishes [OF vol_compute(1) e this, unfolded Let_def]
  have "e2fs_bpg vol_sb = 64"
    by (rule compute_sb_data_fields [OF vol_compute(1)], drule sb_counts_Return(3)) (simp add: vol_es_def tiny_es_def)
  moreover have "first_data_block vol_sb = 1" by (simp add: vol_compute vol_es_def tiny_es_def)
  moreover have "gds_loaded vol_sb" "{unat (bg_inode_table (gdesc vol_sb 1))..<unat (bg_inode_table (gdesc vol_sb 1)) + e2fs_itpg vol_sb} \<subseteq>
      {first_data_block vol_sb + 1 * e2fs_bpg vol_sb..<first_data_block vol_sb + 1 * e2fs_bpg vol_sb + e2fs_bpg vol_sb}"
    using r g by blast+
  ultimately show ?thesis using vol_compute(1) by simp
qed

text \<open>The cases of a mount that succeeds.\<close>

lemma ext2_mountfs_Inr:
  assumes "ext2_mountfs env dk = Return (Inr ump, dk')"
  obtains fs where "mount_checks env (dk_sb dk) = None"
    "compute_sb_data dk (dk_sb dk) ((me_malloc env)\<lparr>s_es := dk_sb dk\<rparr>) = Return (Inr fs)" "s_es fs = dk_sb dk"
    "s_es (um_e2fs ump) = mount_es env (dk_sb dk)" "s_rd_only (um_e2fs ump) = me_ronly env"
    "s_wasvalid (um_e2fs ump) = (s_state (dk_sb dk) AND 1 \<noteq> 0)"
    "if me_ronly env then dk' = dk else dk_sb dk' = (if dk_sb_werr dk = None then s_es (um_e2fs ump) else dk_sb dk)"
proof -
  from assms obtain r where r: "me_inval env = None" "\<not> me_ioctl env" "me_ioattr env = None" "dk_sb_err dk = None"
    "mount_checks env (dk_sb dk) = None" "compute_sb_data dk (dk_sb dk) ((me_malloc env)\<lparr>s_es := dk_sb dk\<rparr>) = Return r"
    by (cases "compute_sb_data dk (dk_sb dk) ((me_malloc env)\<lparr>s_es := dk_sb dk\<rparr>)")
       (auto simp: ext2_mountfs_def Let_def split: option.splits if_splits)
  from assms obtain fs where fs: "r = Inr fs" "e2fs_fsize fs \<noteq> 0"
    by (cases r) (auto simp: ext2_mountfs_def r Let_def split: if_splits)
  have es: "s_es fs = dk_sb dk"
  proof -
    from r(6) [unfolded fs(1)] obtain f1 where "sb_counts (dk_sb dk) (sb_sizes (dk_sb dk) ((me_malloc env)\<lparr>s_es := dk_sb dk\<rparr>)) = Return f1"
      "s_es fs = s_es f1" by (rule compute_sb_data_fields) (rule that)
    then show ?thesis using sb_counts_Return(7) by fastforce
  qed
  show thesis
    by (rule that [OF r(5) r(6) [unfolded fs(1)] es])
       (use assms in \<open>auto simp: ext2_mountfs_def r(1-4) r(5) r(6) fs es Let_def ext2_sbupdate_def split: if_splits\<close>)
qed

lemma ext2_mountfs_Inl:
  assumes "ext2_mountfs env dk = Return (Inl error, dk')"
  shows "dk' = dk"
proof (cases "compute_sb_data dk (dk_sb dk) ((me_malloc env)\<lparr>s_es := dk_sb dk\<rparr>)")
  case r: (Return r)
  show ?thesis
  proof (cases r)
    case (Inl a)
    then show ?thesis using assms r by (auto simp: ext2_mountfs_def Let_def split: option.splits if_splits)
  next
    case (Inr fs)
    then show ?thesis using assms r by (auto simp: ext2_mountfs_def ext2_sbupdate_def Let_def split: option.splits if_splits)
  qed
qed (use assms in \<open>auto simp: ext2_mountfs_def Let_def split: option.splits if_splits\<close>)

text \<open>
  C23: a mount is granted only to an ext2 volume that this code can handle: the magic number is right, a dynamic
  revision has no incompatible feature but file types and, when it is mounted for writing, no
  read-only feature but sparse super blocks and large files; and a volume that was not unmounted
  cleanly or that has errors is mounted for reading only, unless the mount is forced. A mount that is refused, and a mount for
  reading, leave the disk as it was.
\<close>

theorem ext2_mountfs_safe:
  assumes "ext2_mountfs env dk = Return (r, dk')"
  shows "case r of
      Inl error \<Rightarrow> dk' = dk
    | Inr ump \<Rightarrow> s_magic (dk_sb dk) = 0xEF53 \<and>
        (0 < s_rev_level (dk_sb dk) \<longrightarrow> s_feature_incompat (dk_sb dk) AND NOT 2 = 0 \<and>
           (me_ronly env \<or> s_feature_ro_compat (dk_sb dk) AND NOT 3 = 0)) \<and>
        (me_ronly env \<or> me_force env \<or> s_state (dk_sb dk) AND 1 \<noteq> 0 \<and> s_state (dk_sb dk) AND 2 = 0) \<and>
        (me_ronly env \<longrightarrow> dk' = dk)"
proof (cases r)
  case (Inl error)
  then show ?thesis using ext2_mountfs_Inl assms by simp
next
  case (Inr ump)
  from assms [unfolded Inr] obtain "mount_checks env (dk_sb dk) = None" "me_ronly env \<Longrightarrow> dk' = dk"
    by (rule ext2_mountfs_Inr) (auto intro: that)
  then show ?thesis by (auto simp: Inr mount_checks_def ext2_check_sb_compat_def split: if_splits)
qed

lemma vol_refused: "\<exists>dk'. ext2_mountfs vol_env (vol_disk\<lparr>dk_sb := vol_es\<lparr>s_feature_incompat := 4\<rparr>\<rparr>) = Return (Inl EINVAL, dk')"
  by (simp add: ext2_mountfs_def vol_env_def vol_disk_def Let_def mount_checks_def ext2_check_sb_compat_def vol_es_def tiny_es_def)

theorem ext2_mountfs_safe_witness:
  "ext2_mountfs vol_env vol_disk = Return (Inr vol_mount, vol_mounted) \<and> \<not> me_ronly vol_env \<and> s_magic (dk_sb vol_disk) = 0xEF53 \<and>
     s_feature_incompat (dk_sb vol_disk) AND NOT 2 = 0 \<and> s_feature_ro_compat (dk_sb vol_disk) AND NOT 3 = 0 \<and> s_state (dk_sb vol_disk) AND 1 \<noteq> 0 \<and>
   (let dk = vol_disk\<lparr>dk_sb := vol_es\<lparr>s_feature_incompat := 4\<rparr>\<rparr> in ext2_mountfs vol_env dk = Return (Inl EINVAL, dk))"
proof -
  let ?dk = "vol_disk\<lparr>dk_sb := vol_es\<lparr>s_feature_incompat := 4\<rparr>\<rparr>"
  obtain dk' where r: "ext2_mountfs vol_env ?dk = Return (Inl EINVAL, dk')" using vol_refused by blast
  have e: "\<not> me_ronly vol_env" "\<not> me_force vol_env" "0 < s_rev_level (dk_sb vol_disk)"
    by (simp_all add: vol_env_def vol_disk_def vol_es_def)
  show ?thesis using vol_mounts ext2_mountfs_safe [OF vol_mounts] ext2_mountfs_safe [OF r] r e unfolding Let_def sum.case by blast
qed

lemma mount_es_simps [simp]:
  "s_magic (mount_es env es) = s_magic es" "s_rev_level (mount_es env es) = s_rev_level es"
  "s_feature_incompat (mount_es env es) = s_feature_incompat es" "s_feature_ro_compat (mount_es env es) = s_feature_ro_compat es"
  "s_state (mount_es env es) = (if me_ronly env then s_state es else s_state es AND NOT 1)"
  by (simp_all add: mount_es_def Let_def)

lemma state_bit:
  fixes x :: u16
  shows "(x AND NOT 1) AND 1 = 0" "x AND 1 \<noteq> 0 \<Longrightarrow> (x AND NOT 1) OR 1 = x" "x AND 1 = 0 \<Longrightarrow> x AND NOT 1 = x"
proof -
  show "(x AND NOT 1) AND 1 = 0" by (simp add: and.assoc)
  have a: "x AND 1 = of_bool (bit x 0)" by (simp add: and_one_eq bit_0 odd_iff_mod_2_eq_one)
  show "(x AND NOT 1) OR 1 = x" if "x AND 1 \<noteq> 0"
    using that unfolding a by (intro bit_eqI) (auto simp: bit_simps split: if_splits)
  show "x AND NOT 1 = x" if "x AND 1 = 0"
    using that unfolding a by (intro bit_eqI) (auto simp: bit_simps split: if_splits intro: gr0I)
qed

text \<open>
  C21: a volume mounted for writing is marked on disk, so that after a crash it is refused for writing unless the
  mount is forced; and unmounting it gives back the state it had, clean or not, whatever the
  file system did in between as long as it kept the three fields that unmounting looks at.
\<close>

theorem ext2_mount_unmount_state:
  assumes "ext2_mountfs env dk = Return (Inr ump, dk')" "\<not> me_ronly env" "dk_sb_werr dk = None"
    and "\<not> me_ronly env'" "\<not> me_force env'"
    and "s_state (s_es (um_e2fs ump2)) = s_state (s_es (um_e2fs ump))" "s_rd_only (um_e2fs ump2) = s_rd_only (um_e2fs ump)"
      "s_wasvalid (um_e2fs ump2) = s_wasvalid (um_e2fs ump)" "dk_sb_werr dk2 = None"
  shows "mount_checks env' (dk_sb dk') = Some EPERM \<and>
     fst (ext2_unmount False None ump2 dk2) = None \<and>
     s_state (dk_sb (snd (ext2_unmount False None ump2 dk2))) = s_state (dk_sb dk)"
proof -
  from assms(1) obtain m: "mount_checks env (dk_sb dk) = None" "s_es (um_e2fs ump) = mount_es env (dk_sb dk)"
    "s_rd_only (um_e2fs ump) = me_ronly env" "s_wasvalid (um_e2fs ump) = (s_state (dk_sb dk) AND 1 \<noteq> 0)"
    "dk_sb dk' = s_es (um_e2fs ump)"
    by (rule ext2_mountfs_Inr) (rule that, (simp add: assms)+)
  have "\<not> ext2_check_sb_compat (dk_sb dk') False" using m(1) assms(2) unfolding m(5,2)
    by (auto simp: mount_checks_def ext2_check_sb_compat_def split: if_splits)
  then have "mount_checks env' (dk_sb dk') = Some EPERM" using assms(2,4,5) m(5,2) by (simp add: mount_checks_def state_bit(1) [simplified])
  moreover have "fst (ext2_unmount False None ump2 dk2) = None \<and>
     s_state (dk_sb (snd (ext2_unmount False None ump2 dk2))) = s_state (dk_sb dk)"
    using assms(2,6-) m state_bit [of "s_state (dk_sb dk)"] by (auto simp: ext2_unmount_def ext2_sbupdate_def Let_def)
  ultimately show ?thesis by blast
qed

theorem ext2_mount_unmount_state_witness:
  "mount_checks vol_env (dk_sb vol_mounted) = Some EPERM \<and>
   s_state (dk_sb (snd (ext2_unmount False None vol_mount vol_disk))) = s_state vol_es"
  using ext2_mount_unmount_state [OF vol_mounts, of vol_env vol_mount vol_disk] by (simp add: vol_env_def vol_disk_def)

text \<open>
  C24: when the disk accepts the writes, \<^verbatim>\<open>ext2_sbupdate\<close> leaves every group descriptor and the super block on disk equal to
  the ones in core, provided that every descriptor changed since it was last written is
  marked dirty. The error of a descriptor's write is dropped and its mark is cleared all the same.
\<close>

theorem ext2_sbupdate_syncs:
  assumes "descs_in_sync (um_e2fs mp) dk" "(e2fs_dbpg (um_e2fs mp) + 2) * 2 ^ s_fsbtodb (um_e2fs mp) < 2 ^ 31"
    and "ext2_sbupdate wait mp dk = (error, mp', dk')"
  shows "(\<forall>i < e2fs_dbpg (um_e2fs mp). i \<notin> s_gd_dirty (um_e2fs mp') \<and>
       dk_gd dk' (gd_blkno (um_e2fs mp) i) =
         (if i \<in> s_gd_dirty (um_e2fs mp) \<and> dk_gd_werr dk (gd_blkno (um_e2fs mp) i) then dk_gd dk (gd_blkno (um_e2fs mp) i)
          else the (s_group_desc (um_e2fs mp') ! i))) \<and>
     dk_sb dk' = (if dk_sb_werr dk = None then s_es (um_e2fs mp) else dk_sb dk) \<and>
     error = (if wait then dk_sb_werr dk else None)"
proof -
  let ?fs = "um_e2fs mp"
  note p = ext2_sbupdate_parts [OF assms(3)]
  have gd: "dk_gd dk' (gd_blkno ?fs i) = (if i \<in> s_gd_dirty ?fs \<and> \<not> dk_gd_werr dk (gd_blkno ?fs i)
      then the (s_group_desc ?fs ! i) else dk_gd dk (gd_blkno ?fs i))" if "i < e2fs_dbpg ?fs" for i
  proof -
    have "insert i (set [0..<e2fs_dbpg ?fs]) = {..<e2fs_dbpg ?fs}" using that by auto
    then have "inj_on (gd_blkno ?fs) (insert i (set [0..<e2fs_dbpg ?fs]))" using gd_blkno_inj [OF assms(2)] by simp
    then show ?thesis using that fold_write_desc [of ?fs i "[0..<e2fs_dbpg ?fs]" dk] p by simp
  qed
  have "i \<notin> s_gd_dirty (um_e2fs mp') \<and> dk_gd dk' (gd_blkno ?fs i) =
      (if i \<in> s_gd_dirty ?fs \<and> dk_gd_werr dk (gd_blkno ?fs i) then dk_gd dk (gd_blkno ?fs i) else the (s_group_desc (um_e2fs mp') ! i))"
    if "i < e2fs_dbpg ?fs" for i
    using gd [OF that] that p assms(1) by (auto simp: descs_in_sync_def)
  then show ?thesis using p by blast
qed

theorem ext2_sbupdate_syncs_witness:
  "\<exists>error mp' dk'. ext2_sbupdate True (tiny_mount\<lparr>um_e2fs := vol_sb\<lparr>s_group_desc := [Some [tiny_gd1]], s_gd_dirty := {0}\<rparr>\<rparr>) vol_disk = (error, mp', dk') \<and>
     error = None \<and> dk_sb dk' = vol_es \<and> dk_gd dk' (gd_blkno vol_sb 0) = [tiny_gd1] \<and> s_gd_dirty (um_e2fs mp') = {}"
proof -
  let ?fs = "vol_sb\<lparr>s_group_desc := [Some [tiny_gd1]], s_gd_dirty := {0}\<rparr>"
  let ?mp = "tiny_mount\<lparr>um_e2fs := ?fs\<rparr>"
  obtain e mp' dk' where r: "ext2_sbupdate True ?mp vol_disk = (e, mp', dk')" by (metis prod_cases3)
  have s: "descs_in_sync (um_e2fs ?mp) vol_disk" by (simp add: descs_in_sync_def vol_compute)
  have g: "gd_blkno ?fs i = gd_blkno vol_sb i" for i by (simp add: gd_blkno_def fsbtodb_def)
  have f: "s_gd_dirty (um_e2fs mp') = {}" "s_group_desc (um_e2fs mp') = [Some [tiny_gd1]]" using ext2_sbupdate_parts [OF r] by (simp_all add: vol_compute)
  show ?thesis using ext2_sbupdate_syncs [OF s _ r] r f by (simp add: vol_fsbtodb vol_compute g vol_disk_def)
qed

section \<open>Inodes\<close>

lemma power_of_two_step:
  fixes x :: nat
  assumes "x AND (x - 1) = 0" "128 < x"
  shows "256 \<le> x"
proof (rule ccontr)
  assume "\<not> ?thesis"
  then have "x div 2 ^ 7 = 1" "(x - 1) div 2 ^ 7 = 1" using assms(2) by simp_all
  then have "bit x 7" "bit (x - 1) 7" by (simp_all only: bit_iff_odd) simp_all
  then have "bit (x AND (x - 1)) 7" by (simp only: bit_and_iff)
  then show False using assms(1) by simp
qed

lemma block_size_dvd: "1024 dvd ulong (shl32 1024 n)"
proof -
  have k: "1024 dvd y mod 2 ^ k" if "1024 dvd y" "10 \<le> k" for y :: int and k
  proof -
    have "(2 :: int) ^ 10 dvd 2 ^ k" using that(2) by (rule le_imp_power_dvd)
    then show ?thesis using that(1) by (simp add: dvd_mod)
  qed
  have "(1024 :: int) dvd 1024 * 2 ^ (n mod 32) + 2 ^ 31" by simp
  then have "(1024 :: int) dvd (1024 * 2 ^ (n mod 32) + 2 ^ 31) mod 2 ^ 32" by (rule k) simp
  then have "(1024 :: int) dvd (1024 * 2 ^ (n mod 32) + 2 ^ 31) mod 2 ^ 32 - 2 ^ 31" by (rule dvd_diff) simp
  then have "1024 dvd shl32 1024 n" unfolding shl32_def int32_def .
  then have "1024 dvd shl32 1024 n mod 2 ^ 64" by (rule k) simp
  moreover have "int (ulong (shl32 1024 n)) = shl32 1024 n mod 2 ^ 64" by (simp add: ulong_def)
  ultimately have "int 1024 dvd int (ulong (shl32 1024 n))" by simp
  then show ?thesis by (simp only: of_nat_dvd_iff)
qed

text \<open>
  C37: where the code looks for an inode in its block. With inodes of 128 bytes the place it reads is the place it writes, and
  it is inside the block. A volume with larger inodes passes the checks of the mount too, but then the inode
  at the end of each run of \<^verbatim>\<open>e2fs_ipb\<close> inodes is read from behind the end of the buffer.
\<close>

theorem inode_offsets:
  assumes "compute_sb_data dk es fs0 = Return (Inr fs)"
  shows "update_offset fs ino + 128 \<le> s_blocksize fs \<and>
     (e2fs_isize fs = 128 \<longrightarrow> vget_offset fs ino = update_offset fs ino) \<and>
     (e2fs_isize fs \<noteq> 128 \<longrightarrow> 0 < e2fs_ipb fs \<and> s_blocksize fs \<le> vget_offset fs (e2fs_ipb fs))"
proof -
  from assms obtain f1 where f: "sb_counts es (sb_sizes es fs0) = Return f1" "isize_accepted es (s_blocksize fs)"
    "e2fs_isize fs = isize_of es" "s_blocksize fs = s_blocksize f1" "e2fs_ipb fs = e2fs_ipb f1"
    by (rule compute_sb_data_fields) (rule that)
  note c = sb_counts_Return [OF f(1)]
  obtain q where q: "s_blocksize fs = 1024 * q" using block_size_dvd f(4) c(8) by (metis dvdE)
  have i: "e2fs_ipb fs = 8 * q" "e2fs_ipb fs \<noteq> 0" using c(1,2) f(4,5) q by simp_all
  have o: "ino_to_fsbo fs ino < 8 * q" unfolding ino_to_fsbo_def i(1) using i by simp
  have "update_offset fs ino + 128 \<le> s_blocksize fs" unfolding update_offset_def q using o by linarith
  moreover have "s_blocksize fs \<le> vget_offset fs (e2fs_ipb fs)" if n: "e2fs_isize fs \<noteq> 128"
  proof -
    have a: "isize_of es AND (isize_of es - 1) = 0" "128 < isize_of es"
      using f(2,3) n by (auto simp: isize_accepted_def isize_of_def)
    have "1024 * q \<le> 256 * (8 * q - 1)" using i by simp
    also have "\<dots> \<le> isize_of es * (8 * q - 1)" by (rule mult_le_mono1 [OF power_of_two_step [OF a]])
    also have "8 * q - 1 = ino_to_fsbo fs (e2fs_ipb fs)" using i by (simp add: ino_to_fsbo_def)
    finally show ?thesis unfolding vget_offset_def q f(3) .
  qed
  ultimately show ?thesis using i(2) by (simp add: vget_offset_def update_offset_def)
qed

theorem inode_offsets_witness: "e2fs_isize vol_sb \<noteq> 128 \<and> s_blocksize vol_sb \<le> vget_offset vol_sb (e2fs_ipb vol_sb)"
  using inode_offsets [OF vol_compute(1)] by (simp add: vol_compute)

lemma vget_inode_fresh:
  assumes "0 < s_blocksize fs" "S_ISDIR (i_mode ip0) \<or> S_ISREG (i_mode ip0)" "i_size ip0 \<le> (2 ^ 31 - 1) * s_blocksize fs" "s_blocksize fs < 2 ^ 31"
    and "ip0 = ext2_ei2i hf no_uid32 ei (cleared\<lparr>i_number := ino\<rparr>)"
  shows "\<exists>ip. vget_inode hf no_uid32 fs ino create ei cleared = Return ip \<and> i_size ip = i_size ip0 \<and> i_mode ip = i_mode ip0 \<and>
     i_number ip = ino \<and> i_prealloc_count ip = 0 \<and> i_ib ip = i_ib ip0 \<and>
     i_db ip = map (\<lambda>i. if i * s_blocksize fs < i_size ip0 then i_db ip0 ! i else 0) [0..<12]"
proof -
  let ?bs = "s_blocksize fs"
  define u where "u = (i_size ip0 + ?bs - 1) div ?bs"
  have ul: "ulong (int (i_size ip0 + ?bs) - 1) = i_size ip0 + ?bs - 1" using ulong_pred [of ?bs "i_size ip0"] assms(1,3,4) by simp
  have u31: "u < 2 ^ 31"
  proof (cases "u = 0")
    case False
    then have "(u - 1) * ?bs < (2 ^ 31 - 1) * ?bs" using round_up_div(2) [OF assms(1), of "i_size ip0"] assms(3) unfolding u_def by linarith
    then have "u - 1 < 2 ^ 31 - 1" by simp
    then show ?thesis by linarith
  qed simp
  have le: "int u \<le> int i \<longleftrightarrow> \<not> i * ?bs < i_size ip0" for i
  proof
    assume "int u \<le> int i"
    then have "u * ?bs \<le> i * ?bs" by (intro mult_le_mono1) simp
    then show "\<not> i * ?bs < i_size ip0" using round_up_div(1) [OF assms(1), of "i_size ip0"] unfolding u_def by linarith
  next
    assume n: "\<not> i * ?bs < i_size ip0"
    show "int u \<le> int i"
    proof (rule ccontr)
      assume "\<not> ?thesis"
      then have "i \<le> u - 1" "u \<noteq> 0" by linarith+
      then have "i * ?bs \<le> (u - 1) * ?bs" by (intro mult_le_mono1)
      then show False using n round_up_div(2) [OF assms(1), of "i_size ip0"] \<open>u \<noteq> 0\<close> unfolding u_def by linarith
    qed
  qed
  have m: "i_number ip0 = ino" unfolding assms(5) by (simp add: ext2_ei2i_def Let_def)
  show ?thesis
    using assms(1,2) m by (simp add: vget_inode_def assms(5) [symmetric] ul [simplified] u_def [symmetric, simplified] int32_int [OF u31] le [simplified] Let_def)
qed

end
