(* ===== verification/Ext2_Statfs.thy ===== *)
theory Ext2_Statfs
  imports Ext2_Mount
begin

text \<open>
  The statistics of a mounted volume, \<^verbatim>\<open>ext2_getattrfs\<close> of \<^verbatim>\<open>ext2_vfsops.c\<close>: which groups hold a copy of the super
  block, how many blocks the file system needs for itself and how many are left.
\<close>

unbundle bit_operations_syntax

section \<open>Statistics\<close>

fun sparse_groups :: "nat \<Rightarrow> nat \<Rightarrow> nat option" where
  "sparse_groups i 0 = Some 0"
| "sparse_groups i (Suc n) =
     (case ext2_group_sparse (int i) of None \<Rightarrow> None
      | Some b \<Rightarrow> (case sparse_groups (i + 1) n of None \<Rightarrow> None | Some k \<Rightarrow> Some (if b then k + 1 else k)))"

record fs_stat =
  f_bsize :: nat
  f_iosize :: nat
  f_blocks :: nat
  f_bfree :: nat
  f_bavail :: nat
  f_files :: nat
  f_ffree :: nat

definition ext2_getattrfs :: "m_ext2fs \<Rightarrow> fs_stat outcome option" where
  "ext2_getattrfs fs =
     (let es = s_es fs in
      if s_magic es \<noteq> 0xEF53 then Some (Panic Magic_spoiled)
      else
        case (if s_feature_ro_compat es AND 1 \<noteq> 0 then sparse_groups 0 (s_groups_count fs) else Some (s_groups_count fs)) of
          None \<Rightarrow> None
        | Some nsb \<Rightarrow>
            let overhead = ulong (int (unat (s_first_data_block es) + nsb * (1 + e2fs_dbpg fs) + s_groups_count fs * (1 + 1 + e2fs_itpg fs))) in
            Some (Return \<lparr>f_bsize = e2fs_fsize fs, f_iosize = s_blocksize fs,
              f_blocks = ulong (int (unat (s_blocks_count es)) - int overhead),
              f_bfree = unat (s_free_blocks_count es),
              f_bavail = ulong (int (unat (s_free_blocks_count es)) - int (unat (s_r_blocks_count es))),
              f_files = unat (s_inodes_count es),
              f_ffree = unat (s_free_inodes_count es)\<rparr>))"

definition sparse_group :: "nat \<Rightarrow> bool" where
  "sparse_group g \<longleftrightarrow> g = 0 \<or> (\<exists>k. g = 3 ^ k \<or> g = 5 ^ k \<or> g = 7 ^ k)"

section \<open>Lemmas\<close>

lemma exact_quotient:
  fixes a b :: int
  assumes "2 \<le> b" "a mod b = 0" "a \<noteq> 0"
  shows "\<bar>a div b\<bar> < \<bar>a\<bar>" "a div b \<noteq> 0" "a = b * (a div b)"
proof -
  show e: "a = b * (a div b)" using assms(2) by auto
  then show z: "a div b \<noteq> 0" using assms(3) by (metis mult_zero_right)
  have "\<bar>a\<bar> = b * \<bar>a div b\<bar>" using e assms(1) by (metis abs_mult abs_of_nonneg order.trans zero_le_numeral)
  moreover have "2 * \<bar>a div b\<bar> \<le> b * \<bar>a div b\<bar>" using assms(1) by (intro mult_right_mono) simp_all
  ultimately show "\<bar>a div b\<bar> < \<bar>a\<bar>" using z by linarith
qed

lemma test_root_eq:
  assumes b: "2 \<le> b"
  shows "test_root a b = Some (a = 0 \<or> (\<exists>k. a = b ^ k))"
proof (induction "nat \<bar>a\<bar>" arbitrary: a rule: less_induct)
  case less
  consider "a = 0" | "a = 1" | "a \<noteq> 0" "a \<noteq> 1" "a mod b \<noteq> 0" | "a \<noteq> 0" "a \<noteq> 1" "a mod b = 0" by argo
  then show ?case
  proof cases
    case 2
    have "\<exists>k. 1 = b ^ k" by (rule exI [of _ 0]) simp
    then show ?thesis unfolding 2 by (subst test_root.simps) simp
  next
    case 3
    have "a \<noteq> b ^ k" for k using 3 by (cases k) auto
    then show ?thesis using 3 b by (simp add: test_root.simps [of a b])
  next
    case 4
    note q = exact_quotient [OF b 4(3,1)]
    have "(\<exists>k. a = b ^ k) \<longleftrightarrow> (\<exists>k. a div b = b ^ k)"
    proof
      assume "\<exists>k. a = b ^ k"
      then obtain k where k: "a = b ^ k" ..
      then obtain j where "k = Suc j" using 4(2) by (cases k) auto
      then show "\<exists>k. a div b = b ^ k" using k b by auto
    next
      assume "\<exists>k. a div b = b ^ k"
      then obtain k where "a div b = b ^ k" ..
      then have "a = b ^ Suc k" using q(3) by simp
      then show "\<exists>k. a = b ^ k" ..
    qed
    moreover have "test_root (a div b) b = Some (a div b = 0 \<or> (\<exists>k. a div b = b ^ k))"
      by (rule less) (use q(1) in linarith)
    ultimately show ?thesis using 4 q(2) b by (simp add: test_root.simps [of a b])
  qed (simp add: test_root.simps [of 0 b])
qed

lemma group_sparse_int: "ext2_group_sparse g = Some (g = 0 \<or> (\<exists>k. g = 3 ^ k \<or> g = 5 ^ k \<or> g = 7 ^ k))"
  unfolding ext2_group_sparse_def by (auto simp: test_root_eq split: bool.splits)

lemma group_sparse_eq: "ext2_group_sparse (int g) = Some (sparse_group g)"
proof -
  have "int g = int b ^ k \<longleftrightarrow> g = b ^ k" for b k by (simp flip: of_nat_power)
  from this [of 3] this [of 5] this [of 7] show ?thesis unfolding group_sparse_int sparse_group_def by simp
qed

lemma sparse_groups_eq: "sparse_groups i n = Some (card {g \<in> {i..<i + n}. sparse_group g})"
proof (induction n arbitrary: i)
  case (Suc n)
  have "{g \<in> {i..<i + Suc n}. sparse_group g} =
      (if sparse_group i then insert i {g \<in> {i + 1..<i + 1 + n}. sparse_group g} else {g \<in> {i + 1..<i + 1 + n}. sparse_group g})"
  proof -
    have "{i..<i + Suc n} = insert i {i + 1..<i + 1 + n}" by auto
    then show ?thesis by auto
  qed
  then show ?case using Suc.IH [of "i + 1"] by (simp add: group_sparse_eq)
qed simp

text \<open>
  C35: \<^verbatim>\<open>ext2_group_sparse\<close> returns for every argument, and the groups with a copy of the super block are 0, 1 and
  the powers of 3, 5 and 7.
\<close>

theorem ext2_group_sparse_spec:
  "ext2_group_sparse g = Some (g = 0 \<or> g = 1 \<or> (\<exists>k > 0. g = 3 ^ k \<or> g = 5 ^ k \<or> g = 7 ^ k))"
proof -
  have "g = 0 \<or> (\<exists>k. g = 3 ^ k \<or> g = 5 ^ k \<or> g = 7 ^ k) \<longleftrightarrow> g = 0 \<or> g = 1 \<or> (\<exists>k > 0. g = 3 ^ k \<or> g = 5 ^ k \<or> g = 7 ^ k)"
    by (metis gr0I power_0)
  then show ?thesis by (simp add: group_sparse_int)
qed

lemma ulong_diff:
  assumes "a < 4294967296" "b < 4294967296"
  shows "ulong (int a - int b) = (if b \<le> a then a - b else 2 ^ 64 - (b - a))"
proof (cases "b \<le> a")
  case True
  then show ?thesis using assms by (simp add: ulong_def nat_eq_iff2 of_nat_diff)
next
  case False
  have "(int a - int b) mod 2 ^ 64 = (int a - int b + 2 ^ 64) mod 2 ^ 64" by simp
  also have "\<dots> = int a - int b + 2 ^ 64" using assms False by (intro mod_pos_pos_trivial) simp_all
  finally show ?thesis using False assms unfolding ulong_def by (simp add: nat_eq_iff2 of_nat_diff)
qed

text \<open>
  C36: the statistics of a mounted volume are always delivered. The blocks that it reports are all but the ones that hold the
  copies of the super block and the descriptors, the bitmaps and the inode tables; the
  number of available blocks is the free ones less the reserved ones, but once fewer are free than
  reserved the difference wraps around to an enormous number.
\<close>

theorem ext2_getattrfs_spec:
  assumes "s_magic (s_es fs) = 0xEF53"
  shows "\<exists>st. ext2_getattrfs fs = Some (Return st) \<and> f_bsize st = e2fs_fsize fs \<and>
     f_bfree st = unat (s_free_blocks_count (s_es fs)) \<and> f_ffree st = unat (s_free_inodes_count (s_es fs)) \<and>
     f_blocks st = ulong (int (unat (s_blocks_count (s_es fs))) - int (unat (s_first_data_block (s_es fs))) -
       int (card {g. g < s_groups_count fs \<and> (s_feature_ro_compat (s_es fs) AND 1 \<noteq> 0 \<longrightarrow> sparse_group g)}) * int (1 + e2fs_dbpg fs) -
       int (s_groups_count fs) * int (1 + 1 + e2fs_itpg fs)) \<and>
     f_bavail st = (if s_r_blocks_count (s_es fs) \<le> s_free_blocks_count (s_es fs)
       then unat (s_free_blocks_count (s_es fs)) - unat (s_r_blocks_count (s_es fs))
       else 2 ^ 64 - (unat (s_r_blocks_count (s_es fs)) - unat (s_free_blocks_count (s_es fs))))"
proof -
  let ?es = "s_es fs"
  let ?nsb = "card {g. g < s_groups_count fs \<and> (s_feature_ro_compat ?es AND 1 \<noteq> 0 \<longrightarrow> sparse_group g)}"
  have n: "(if s_feature_ro_compat ?es AND 1 \<noteq> 0 then sparse_groups 0 (s_groups_count fs) else Some (s_groups_count fs)) = Some ?nsb"
    by (simp add: sparse_groups_eq atLeast0LessThan)
  have av: "ulong (int (unat (s_free_blocks_count ?es)) - int (unat (s_r_blocks_count ?es))) =
      (if s_r_blocks_count ?es \<le> s_free_blocks_count ?es then unat (s_free_blocks_count ?es) - unat (s_r_blocks_count ?es)
       else 2 ^ 64 - (unat (s_r_blocks_count ?es) - unat (s_free_blocks_count ?es)))"
    unfolding word_le_nat_alt by (rule ulong_diff) (use unsigned_less [of "s_free_blocks_count ?es"] unsigned_less [of "s_r_blocks_count ?es"] in simp_all)
  have bl: "ulong (int x - int (ulong (int (a + k * c + g * d)))) = ulong (int x - int a - int k * int c - int g * int d)" for x a k c g d
  proof -
    have "(int x - int (ulong (int (a + k * c + g * d)))) mod 2 ^ 64 = (int x - int (a + k * c + g * d)) mod 2 ^ 64"
      by (simp add: ulong_def mod_diff_right_eq)
    then show ?thesis unfolding ulong_def by (simp add: algebra_simps)
  qed
  show ?thesis
    unfolding ext2_getattrfs_def Let_def n assms
    by (intro exI conjI, simp only: simp_thms if_False option.case) (simp_all only: fs_stat.simps bl av)
qed

theorem ext2_getattrfs_spec_witness:
  "\<exists>st. ext2_getattrfs (vol_sb\<lparr>s_es := vol_es\<lparr>s_free_blocks_count := 5\<rparr>\<rparr>) = Some (Return st) \<and> f_bavail st = 2 ^ 64 - 1"
  using ext2_getattrfs_spec [of "vol_sb\<lparr>s_es := vol_es\<lparr>s_free_blocks_count := 5\<rparr>\<rparr>"] by (auto simp: vol_es_def tiny_es_def)

end
