(* ===== verification/Ext2_Dir.thy ===== *)
theory Ext2_Dir
  imports Ext2_Prelude
begin

text \<open>
  Directory blocks, from \<^verbatim>\<open>ext2_lookup.c\<close> and \<^verbatim>\<open>ext2_fs.h\<close>: how entries lie in a block, the check of an
  entry, entering an entry with the compaction of the entries before it, removing one, and the
  test for an empty directory. A block is a list of bytes and the fields of an
  entry are read from and written to their bytes, so that what the copies overwrite is part of the model. An access
  outside the block is the panic \<open>Wild_pointer\<close>.
\<close>

section \<open>Bytes and fields\<close>

definition le16 :: "u8 list \<Rightarrow> nat \<Rightarrow> nat" where
  "le16 b i = unat (b ! i) + 256 * unat (b ! (i + 1))"

definition le32 :: "u8 list \<Rightarrow> nat \<Rightarrow> nat" where
  "le32 b i = le16 b i + 65536 * le16 b (i + 2)"

definition bytes16 :: "nat \<Rightarrow> u8 list" where
  "bytes16 v = [of_nat v, of_nat (v div 256)]"

definition bytes32 :: "nat \<Rightarrow> u8 list" where
  "bytes32 v = bytes16 v @ bytes16 (v div 65536)"

text \<open>\<open>copyin\<close> stores bytes of another object, \<open>bcopy\<close> moves bytes inside the block.\<close>

definition copyin :: "u8 list \<Rightarrow> nat \<Rightarrow> u8 list \<Rightarrow> u8 list" where
  "copyin b i xs = take i b @ xs @ drop (i + length xs) b"

definition bcopy :: "u8 list \<Rightarrow> nat \<Rightarrow> nat \<Rightarrow> nat \<Rightarrow> u8 list" where
  "bcopy b src dst n = copyin b dst (take n (drop src b))"

definition de_inode :: "u8 list \<Rightarrow> nat \<Rightarrow> nat" where
  "de_inode b i = le32 b i"

definition de_rec_len :: "u8 list \<Rightarrow> nat \<Rightarrow> nat" where
  "de_rec_len b i = le16 b (i + 4)"

definition de_name_len :: "u8 list \<Rightarrow> nat \<Rightarrow> nat" where
  "de_name_len b i = unat (b ! (i + 6))"

definition de_file_type :: "u8 list \<Rightarrow> nat \<Rightarrow> u8" where
  "de_file_type b i = b ! (i + 7)"

definition de_name :: "u8 list \<Rightarrow> nat \<Rightarrow> u8 list" where
  "de_name b i = take (de_name_len b i) (drop (i + 8) b)"

definition EXT2_DIR_REC_LEN :: "nat \<Rightarrow> nat" where
  "EXT2_DIR_REC_LEN nl = (nl + 8 + 3) div 4 * 4"

text \<open>An entry without its record length.\<close>

record ext2_dir_entry_2 =
  e_inode :: nat
  e_file_type :: u8
  e_name :: "u8 list"

section \<open>Operations\<close>

text \<open>The entry at \<open>i\<close> of the block \<open>b\<close> is checked as one at \<open>entryoffsetinblock\<close>.\<close>

definition ext2_dirbadentry :: "nat \<Rightarrow> nat \<Rightarrow> u8 list \<Rightarrow> nat \<Rightarrow> nat \<Rightarrow> bool" where
  "ext2_dirbadentry dirblksiz s_inodes_count b i entryoffsetinblock =
     (let rlen = de_rec_len b i in
      if rlen < EXT2_DIR_REC_LEN 1 then True
      else if rlen mod 4 \<noteq> 0 then True
      else if rlen < EXT2_DIR_REC_LEN (de_name_len b i) then True
      else if entryoffsetinblock + rlen > dirblksiz then True
      else de_inode b i > s_inodes_count)"

text \<open>
  The compaction: \<open>loc\<close> is relative to the start \<open>base\<close> of the range of \<open>count\<close> bytes, \<open>ep\<close> is the place of the
  entry that is being built and \<open>dsize\<close> its size. The difference of a record length and \<open>dsize\<close> is
  unsigned; \<open>conv\<close> is the conversion to the type of \<open>spacefree\<close>.
\<close>

partial_function (option) compact_loop ::
  "(int \<Rightarrow> int) \<Rightarrow> nat \<Rightarrow> nat \<Rightarrow> u8 list \<Rightarrow> nat \<Rightarrow> nat \<Rightarrow> int \<Rightarrow> nat \<Rightarrow> (u8 list \<times> nat \<times> nat \<times> int) outcome option" where
  "compact_loop conv base count b ep dsize spacefree loc =
     (if loc < count then
        let nep = base + loc in
        if length b < nep + 8 then Some (Panic Wild_pointer)
        else
          let live = (de_inode b ep \<noteq> 0);
              b = (if live then copyin b (ep + 4) (bytes16 dsize) else b);
              spacefree = (if live then spacefree else conv (spacefree + int dsize));
              ep = (if live then ep + dsize else ep);
              dsize = EXT2_DIR_REC_LEN (de_name_len b nep);
              spacefree = conv (spacefree + int (uint32 (int (de_rec_len b nep) - int dsize)));
              loc = loc + de_rec_len b nep in
          if length b < nep + dsize then Some (Panic Wild_pointer)
          else compact_loop conv base count (bcopy b nep ep dsize) ep dsize spacefree loc
      else Some (Return (b, ep, dsize, spacefree)))"

text \<open>The bytes of the new entry: the name is copied with its null byte, what follows in the variable is the \<open>junk\<close>.\<close>

definition entry_bytes :: "ext2_dir_entry_2 \<Rightarrow> u8 list \<Rightarrow> nat \<Rightarrow> u8 list" where
  "entry_bytes e junk rl = take (EXT2_DIR_REC_LEN (length (e_name e)))
     (bytes32 (e_inode e) @ bytes16 rl @ [of_nat (length (e_name e)), e_file_type e] @ e_name e @ 0 # junk)"

definition place_entry :: "(int \<Rightarrow> int) \<Rightarrow> (int \<Rightarrow> int) \<Rightarrow> ext2_dir_entry_2 \<Rightarrow> u8 list \<Rightarrow> u8 list \<times> nat \<times> nat \<times> int \<Rightarrow> u8 list outcome" where
  "place_entry c1 c2 newdir junk =
     (\<lambda>(b, ep, dsize, spacefree).
        let newentrysize = EXT2_DIR_REC_LEN (length (e_name newdir)) in
        if de_inode b ep = 0 then
          if c1 (spacefree + int dsize) < int newentrysize then Panic Compact_space
          else if length b < ep + newentrysize then Panic Wild_pointer
          else Return (copyin b ep (entry_bytes newdir junk (nat ((spacefree + int dsize) mod 65536))))
        else
          if c2 spacefree < int newentrysize then Panic Compact_space
          else if length b < ep + dsize + newentrysize then Panic Wild_pointer
          else Return (copyin (copyin b (ep + 4) (bytes16 dsize)) (ep + dsize) (entry_bytes newdir junk (nat (spacefree mod 65536)))))"

text \<open>The two routines that enter an entry differ in the type of \<open>spacefree\<close>, which is \<^verbatim>\<open>off_t\<close> in the first and \<^verbatim>\<open>int\<close> in the second.\<close>

definition compact_entries :: "(int \<Rightarrow> int) \<Rightarrow> (int \<Rightarrow> int) \<Rightarrow> (int \<Rightarrow> int) \<Rightarrow> ext2_dir_entry_2 \<Rightarrow> u8 list \<Rightarrow> u8 list \<Rightarrow> nat \<Rightarrow> nat \<Rightarrow> u8 list outcome option" where
  "compact_entries conv c1 c2 newdir junk b base count =
     (if length b < base + 8 then Some (Panic Wild_pointer)
      else
        let dsize = EXT2_DIR_REC_LEN (de_name_len b base) in
        bindo (compact_loop conv base count b base dsize (conv (int (uint32 (int (de_rec_len b base) - int dsize)))) (de_rec_len b base))
          (\<lambda>r. Some (place_entry c1 c2 newdir junk r)))"

definition direnter_block :: "ext2_dir_entry_2 \<Rightarrow> u8 list \<Rightarrow> u8 list \<Rightarrow> nat \<Rightarrow> nat \<Rightarrow> u8 list outcome option" where
  "direnter_block = compact_entries (\<lambda>x. x) (\<lambda>x. x) (\<lambda>x. x)"

definition add_entry_block :: "ext2_dir_entry_2 \<Rightarrow> u8 list \<Rightarrow> u8 list \<Rightarrow> nat \<Rightarrow> nat \<Rightarrow> u8 list outcome option" where
  "add_entry_block = compact_entries int32 (\<lambda>x. int (uint32 x)) (\<lambda>x. int (ulong x))"

text \<open>Removing the entry at \<open>i\<close>: the first entry of a block is marked unused, any other is added to the one before it.\<close>

definition dirremove_block :: "u8 list \<Rightarrow> nat \<Rightarrow> nat \<Rightarrow> nat \<Rightarrow> u8 list" where
  "dirremove_block b i i_count i_reclen =
     (if i_count = 0 then copyin b i (bytes32 0)
      else let ep = i - i_count in copyin b (ep + 4) (bytes16 (de_rec_len b ep + i_reclen)))"

definition dirrewrite_block :: "u8 list \<Rightarrow> nat \<Rightarrow> nat \<Rightarrow> u8 \<Rightarrow> u8 list" where
  "dirrewrite_block b i ino ft = (copyin b i (bytes32 ino))[i + 7 := ft]"

text \<open>
  \<open>rd\<close> is the read of 12 bytes of the directory at an offset, which delivers fewer at the end of the file.
\<close>

function dirempty_loop :: "(nat \<Rightarrow> errno + u8 list) \<Rightarrow> nat \<Rightarrow> nat \<Rightarrow> nat \<Rightarrow> bool" where
  "dirempty_loop rd isize parentino off =
     (if off < isize then
        case rd off of
          Inl error \<Rightarrow> False
        | Inr dbuf \<Rightarrow>
            if length dbuf \<noteq> 12 then False
            else if de_rec_len dbuf 0 = 0 then False
            else if de_inode dbuf 0 = 0 then dirempty_loop rd isize parentino (off + de_rec_len dbuf 0)
            else
              let namlen = de_name_len dbuf 0 in
              if namlen > 2 then False
              else if dbuf ! 8 \<noteq> 46 then False
              else if namlen = 1 then dirempty_loop rd isize parentino (off + de_rec_len dbuf 0)
              else if dbuf ! 9 = 46 \<and> de_inode dbuf 0 = parentino then dirempty_loop rd isize parentino (off + de_rec_len dbuf 0)
              else False
      else True)"
  by pat_completeness auto
termination by (relation "measure (\<lambda>(rd, isize, parentino, off). isize - off)") auto

declare dirempty_loop.simps [simp del]

definition ext2_dirempty :: "(nat \<Rightarrow> errno + u8 list) \<Rightarrow> nat \<Rightarrow> nat \<Rightarrow> bool" where
  "ext2_dirempty rd isize parentino = dirempty_loop rd isize parentino 0"

text \<open>The file types of entries and of the host; \<open>after\<close> is the byte behind the table.\<close>

definition ext2_ft_to_dt :: "nat list" where
  "ext2_ft_to_dt = [0, 8, 4, 2, 6, 1, 12, 10]"

definition dt_to_ext2_ft :: "nat list" where
  "dt_to_ext2_ft = [0, 5, 3, 0, 2, 0, 4, 0, 1, 0, 7, 0, 6, 0, 0]"

definition FTTODT :: "nat \<Rightarrow> nat \<Rightarrow> nat" where
  "FTTODT after ft = (if ft > length ext2_ft_to_dt then 0 else (ext2_ft_to_dt @ [after]) ! ft)"

definition DTTOFT :: "nat \<Rightarrow> nat \<Rightarrow> nat" where
  "DTTOFT after dt = (if dt > length dt_to_ext2_ft then 0 else (dt_to_ext2_ft @ [after]) ! dt)"

section \<open>Specifications\<close>

definition live :: "ext2_dir_entry_2 \<Rightarrow> bool" where
  "live e \<longleftrightarrow> e_inode e \<noteq> 0"

definition entry_at :: "u8 list \<Rightarrow> nat \<Rightarrow> ext2_dir_entry_2" where
  "entry_at b i = \<lparr>e_inode = de_inode b i, e_file_type = de_file_type b i, e_name = de_name b i\<rparr>"

definition entry_ok :: "u8 list \<Rightarrow> nat \<Rightarrow> bool" where
  "entry_ok b i \<longleftrightarrow> EXT2_DIR_REC_LEN (de_name_len b i) \<le> de_rec_len b i \<and> 12 \<le> de_rec_len b i \<and> 4 dvd de_rec_len b i \<and>
     i + de_rec_len b i \<le> length b \<and> (de_inode b i \<noteq> 0 \<longrightarrow> de_name_len b i \<noteq> 0)"

text \<open>The bytes from \<open>lo\<close> up to \<open>hi\<close> hold the entries of a list, one after the other.\<close>

primrec holds :: "u8 list \<Rightarrow> nat \<Rightarrow> ext2_dir_entry_2 list \<Rightarrow> nat \<Rightarrow> bool" where
  "holds b lo [] hi \<longleftrightarrow> lo = hi"
| "holds b lo (e # es) hi \<longleftrightarrow> entry_ok b lo \<and> entry_at b lo = e \<and> holds b (lo + de_rec_len b lo) es hi"

definition needed :: "ext2_dir_entry_2 \<Rightarrow> nat" where
  "needed e = EXT2_DIR_REC_LEN (length (e_name e))"

definition used :: "ext2_dir_entry_2 list \<Rightarrow> nat" where
  "used es = (\<Sum>e\<leftarrow>filter live es. needed e)"

definition new_ok :: "ext2_dir_entry_2 \<Rightarrow> bool" where
  "new_ok e \<longleftrightarrow> e_inode e < 2 ^ 32 \<and> e_name e \<noteq> [] \<and> length (e_name e) \<le> 255"

text \<open>What entering an entry into the range of \<open>count\<close> bytes from \<open>base\<close> on leaves: the used entries, then the new one, and the bytes outside.\<close>

definition entered :: "u8 list \<Rightarrow> nat \<Rightarrow> nat \<Rightarrow> ext2_dir_entry_2 list \<Rightarrow> ext2_dir_entry_2 \<Rightarrow> u8 list \<Rightarrow> bool" where
  "entered b base count es e b' \<longleftrightarrow> length b' = length b \<and> holds b' base (filter live es @ [e]) (base + count) \<and>
     (\<forall>k < length b. k < base \<or> base + count \<le> k \<longrightarrow> b' ! k = b ! k)"

text \<open>The two entries an empty directory may have.\<close>

definition dot_entry :: "nat \<Rightarrow> ext2_dir_entry_2 \<Rightarrow> bool" where
  "dot_entry parentino e \<longleftrightarrow> e_name e = [46] \<or> e_name e = [46, 46] \<and> e_inode e = parentino"

text \<open>
  The state of the compaction: \<open>prev\<close> are the used entries already moved together, \<open>cur\<close> is the one at \<open>ep\<close>, and
  the free space is the gap between its end and the entries not yet looked at.
\<close>

definition compacting :: "u8 list \<Rightarrow> nat \<Rightarrow> u8 list \<Rightarrow> nat \<Rightarrow> nat \<Rightarrow> int \<Rightarrow> nat \<Rightarrow> ext2_dir_entry_2 list \<Rightarrow> ext2_dir_entry_2 \<Rightarrow> bool" where
  "compacting b0 base b ep dsize sf front prev cur \<longleftrightarrow> length b = length b0 \<and> length b < 65536 \<and> holds b base prev ep \<and> list_all live prev \<and>
     entry_at b ep = cur \<and> de_name_len b ep = length (e_name cur) \<and> (live cur \<longrightarrow> e_name cur \<noteq> []) \<and> dsize = needed cur \<and>
     ep + dsize \<le> front \<and> front \<le> length b \<and> sf = int front - int ep - int dsize \<and> base + used prev = ep \<and>
     (\<forall>k < length b. k < base \<or> front \<le> k \<longrightarrow> b ! k = b0 ! k)"

text \<open>A block with one entry, for the examples below.\<close>

definition sample_block :: "u8 list" where
  "sample_block = [2, 0, 0, 0, 24, 0, 1, 2, 46, 0, 0, 0] @ replicate 12 0"

definition sample_new :: ext2_dir_entry_2 where
  "sample_new = \<lparr>e_inode = 5, e_file_type = 1, e_name = [97]\<rparr>"

section \<open>Lemmas\<close>

lemma length_copyin [simp]: "i + length xs \<le> length b \<Longrightarrow> length (copyin b i xs) = length b"
  by (simp add: copyin_def)

lemma nth_copyin: "i + length xs \<le> length b \<Longrightarrow> k < length b \<Longrightarrow> copyin b i xs ! k = (if i \<le> k \<and> k < i + length xs then xs ! (k - i) else b ! k)"
  by (auto simp: copyin_def nth_append min_def not_le not_less)

lemma length_bcopy [simp]: "src + n \<le> length b \<Longrightarrow> dst + n \<le> length b \<Longrightarrow> length (bcopy b src dst n) = length b"
  by (simp add: bcopy_def)

lemma nth_bcopy:
  "src + n \<le> length b \<Longrightarrow> dst + n \<le> length b \<Longrightarrow> k < length b \<Longrightarrow> bcopy b src dst n ! k = (if dst \<le> k \<and> k < dst + n then b ! (src + (k - dst)) else b ! k)"
  by (auto simp: bcopy_def nth_copyin)

lemma length_bytes [simp]: "length (bytes16 v) = 2" "length (bytes32 v) = 4"
  by (simp_all add: bytes16_def bytes32_def)

lemma unat_of_nat8: "unat (of_nat v :: u8) = v mod 256"
  by (simp add: unat_of_nat)

lemma le16_bytes:
  assumes "b ! i = of_nat v" "b ! (i + 1) = of_nat (v div 256)"
  shows "le16 b i = v mod 65536"
proof -
  have "le16 b i = v mod 256 + 256 * (v div 256 mod 256)" unfolding le16_def assms by (simp add: unat_of_nat8)
  also have "\<dots> = v mod (256 * 256)" by (simp only: mod_mult2_eq)
  finally show ?thesis by simp
qed

lemma le16_copyin: "i + 2 \<le> length b \<Longrightarrow> le16 (copyin b i (bytes16 v)) i = v mod 65536"
  by (rule le16_bytes) (simp_all add: nth_copyin bytes16_def)

lemma rec_len_dvd [simp]: "4 dvd EXT2_DIR_REC_LEN n" by (simp add: EXT2_DIR_REC_LEN_def)

lemma rec_len_bounds: "n + 8 \<le> EXT2_DIR_REC_LEN n" "EXT2_DIR_REC_LEN n \<le> n + 11" "n \<noteq> 0 \<Longrightarrow> 12 \<le> EXT2_DIR_REC_LEN n"
proof -
  have "4 * ((n + 11) div 4) + (n + 11) mod 4 = n + 11" "(n + 11) mod 4 < 4" by simp_all
  moreover have "EXT2_DIR_REC_LEN n = 4 * ((n + 11) div 4)" by (simp add: EXT2_DIR_REC_LEN_def add.assoc)
  ultimately show "n + 8 \<le> EXT2_DIR_REC_LEN n" "EXT2_DIR_REC_LEN n \<le> n + 11" by linarith+
  assume "n \<noteq> 0"
  then have "(12::nat) div 4 \<le> (n + 11) div 4" by (intro div_le_mono) simp
  then show "12 \<le> EXT2_DIR_REC_LEN n" by (simp add: EXT2_DIR_REC_LEN_def add.assoc)
qed

text \<open>The fields of an entry are determined by its bytes.\<close>

lemma fields_cong:
  assumes "\<And>k. k < 8 \<Longrightarrow> b' ! (i' + k) = b ! (i + k)"
  shows "de_inode b' i' = de_inode b i" "de_rec_len b' i' = de_rec_len b i" "de_name_len b' i' = de_name_len b i"
    "de_file_type b' i' = de_file_type b i"
proof -
  have g: "b' ! j' = b ! j" if "j' = i' + k" "j = i + k" "k < 8" for j j' k using assms that by simp
  have f0: "b' ! i' = b ! i" by (rule g [where k = 0]) simp_all
  have f1: "b' ! (i' + 1) = b ! (i + 1)" by (rule g [where k = 1]) simp_all
  have f2: "b' ! (i' + 2) = b ! (i + 2)" by (rule g [where k = 2]) simp_all
  have f3: "b' ! (i' + 2 + 1) = b ! (i + 2 + 1)" by (rule g [where k = 3]) simp_all
  have f4: "b' ! (i' + 4) = b ! (i + 4)" by (rule g [where k = 4]) simp_all
  have f5: "b' ! (i' + 4 + 1) = b ! (i + 4 + 1)" by (rule g [where k = 5]) simp_all
  have f6: "b' ! (i' + 6) = b ! (i + 6)" by (rule g [where k = 6]) simp_all
  have f7: "b' ! (i' + 7) = b ! (i + 7)" by (rule g [where k = 7]) simp_all
  show "de_inode b' i' = de_inode b i" "de_rec_len b' i' = de_rec_len b i" "de_name_len b' i' = de_name_len b i"
    "de_file_type b' i' = de_file_type b i"
    unfolding de_inode_def de_rec_len_def de_name_len_def de_file_type_def le32_def le16_def f0 f1 f2 f3 f4 f5 f6 f7 by simp_all
qed

lemma name_cong:
  assumes "de_name_len b' i' = de_name_len b i" "i + 8 + de_name_len b i \<le> length b" "i' + 8 + de_name_len b i \<le> length b'"
    and "\<And>k. k < de_name_len b i \<Longrightarrow> b' ! (i' + 8 + k) = b ! (i + 8 + k)"
  shows "de_name b' i' = de_name b i"
proof (rule nth_equalityI)
  show "length (de_name b' i') = length (de_name b i)" using assms by (simp add: de_name_def)
  fix k assume "k < length (de_name b' i')"
  then show "de_name b' i' ! k = de_name b i ! k" using assms by (simp add: de_name_def)
qed

lemma entry_at_cong:
  assumes "\<And>k. k < 8 + de_name_len b i \<Longrightarrow> b' ! (i' + k) = b ! (i + k)"
    and "i + 8 + de_name_len b i \<le> length b" "i' + 8 + de_name_len b i \<le> length b'"
  shows "entry_at b' i' = entry_at b i" "de_rec_len b' i' = de_rec_len b i" "de_name_len b' i' = de_name_len b i" "de_inode b' i' = de_inode b i"
proof -
  have h: "b' ! (i' + k) = b ! (i + k)" if "k < 8" for k using assms(1) that by simp
  note f = fields_cong [of b' i' b i, OF h]
  show "de_rec_len b' i' = de_rec_len b i" "de_name_len b' i' = de_name_len b i" "de_inode b' i' = de_inode b i" using f by simp_all
  have "b' ! (i' + 8 + k) = b ! (i + 8 + k)" if "k < de_name_len b i" for k
    using assms(1) [of "8 + k"] that by (simp add: add.assoc)
  then have "de_name b' i' = de_name b i" using name_cong [of b' i' b i] f assms(2,3) by simp
  then show "entry_at b' i' = entry_at b i" using f by (simp add: entry_at_def)
qed

lemma name_length: "entry_ok b i \<Longrightarrow> length (de_name b i) = de_name_len b i \<and> length (e_name (entry_at b i)) = de_name_len b i"
  using rec_len_bounds(1) [of "de_name_len b i"] by (auto simp: entry_ok_def de_name_def entry_at_def min_def)

lemma holds_append: "holds b lo (xs @ ys) hi \<longleftrightarrow> (\<exists>m. holds b lo xs m \<and> holds b m ys hi)"
  by (induction xs arbitrary: lo) auto

lemma holds_le: "holds b lo es hi \<Longrightarrow> lo \<le> hi \<and> (es \<noteq> [] \<longrightarrow> lo + 12 \<le> hi \<and> hi \<le> length b)"
proof (induction es arbitrary: lo)
  case (Cons e es)
  then have a: "entry_ok b lo" "holds b (lo + de_rec_len b lo) es hi" by simp_all
  then show ?case using Cons.IH [OF a(2)] by (cases es) (auto simp: entry_ok_def)
qed simp

lemma holds_dvd: "holds b lo es hi \<Longrightarrow> 4 dvd hi - lo"
proof (induction es arbitrary: lo)
  case (Cons e es)
  then have a: "entry_ok b lo" "holds b (lo + de_rec_len b lo) es hi" by simp_all
  have "hi - lo = (hi - (lo + de_rec_len b lo)) + de_rec_len b lo" using holds_le [OF a(2)] by simp
  then show ?case using Cons.IH [OF a(2)] a(1) by (simp add: entry_ok_def)
qed simp

lemma entry_cong:
  assumes "entry_ok b i" "length b' = length b" "\<And>k. i \<le> k \<Longrightarrow> k < i + de_rec_len b i \<Longrightarrow> b' ! k = b ! k"
  shows "entry_ok b' i" "entry_at b' i = entry_at b i" "de_rec_len b' i = de_rec_len b i"
proof -
  have l: "8 + de_name_len b i \<le> de_rec_len b i" "i + de_rec_len b i \<le> length b"
    using assms(1) rec_len_bounds(1) [of "de_name_len b i"] by (simp_all add: entry_ok_def)
  have "b' ! (i + k) = b ! (i + k)" if "k < 8 + de_name_len b i" for k using assms(3) that l by simp
  note c = entry_at_cong [of b i b' i, OF this]
  show "entry_at b' i = entry_at b i" "de_rec_len b' i = de_rec_len b i" using c l assms(2) by simp_all
  then show "entry_ok b' i" using assms(1,2) c l by (simp add: entry_ok_def)
qed

lemma holds_cong:
  assumes "holds b lo es hi" "length b' = length b" "\<And>k. lo \<le> k \<Longrightarrow> k < hi \<Longrightarrow> b' ! k = b ! k"
  shows "holds b' lo es hi"
  using assms(1,3)
proof (induction es arbitrary: lo)
  case (Cons e es)
  then have a: "entry_ok b lo" "entry_at b lo = e" "holds b (lo + de_rec_len b lo) es hi" by simp_all
  have h: "lo + de_rec_len b lo \<le> hi" using holds_le [OF a(3)] by simp
  have same: "b' ! k = b ! k" if "lo \<le> k" "k < lo + de_rec_len b lo" for k using Cons.prems(2) [of k] that h by simp
  have c: "entry_ok b' lo" "entry_at b' lo = entry_at b lo" "de_rec_len b' lo = de_rec_len b lo"
    using entry_cong [OF a(1) assms(2) same] by simp_all
  have "holds b' (lo + de_rec_len b lo) es hi" by (rule Cons.IH [OF a(3)]) (use Cons.prems(2) in auto)
  then show ?case using c a(2) by simp
qed simp

lemma used_simps [simp]: "used [] = 0" "used (e # es) = (if live e then needed e else 0) + used es" "used (xs @ ys) = used xs + used ys"
  by (simp_all add: used_def)


lemma used_filter: "used es = (\<Sum>e\<leftarrow>filter live es. needed e)"
  by (simp add: used_def)

text \<open>Setting the record length of an entry leaves the rest of it alone.\<close>

lemma set_rec_len:
  assumes "i + 8 + de_name_len b i \<le> length b" "v < 65536"
  defines "b' \<equiv> copyin b (i + 4) (bytes16 v)"
  shows "de_rec_len b' i = v" "entry_at b' i = entry_at b i" "de_name_len b' i = de_name_len b i" "de_inode b' i = de_inode b i"
    "length b' = length b" "k < length b \<Longrightarrow> k < i + 4 \<or> i + 6 \<le> k \<Longrightarrow> b' ! k = b ! k"
proof -
  have l: "i + 4 + length (bytes16 v) \<le> length b" using assms(1) by simp
  show len: "length b' = length b" unfolding b'_def using l by simp
  have nth: "b' ! k = b ! k" if "k < length b" "k < i + 4 \<or> i + 6 \<le> k" for k
    using that nth_copyin [OF l that(1)] by (auto simp: b'_def)
  then show "k < length b \<Longrightarrow> k < i + 4 \<or> i + 6 \<le> k \<Longrightarrow> b' ! k = b ! k" .
  show "de_rec_len b' i = v" using le16_copyin [of "i + 4" b v] assms(1,2) by (simp add: de_rec_len_def b'_def)
  have f: "b' ! i = b ! i" "b' ! (i + 1) = b ! (i + 1)" "b' ! (i + 2) = b ! (i + 2)" "b' ! (i + 2 + 1) = b ! (i + 2 + 1)"
    "b' ! (i + 6) = b ! (i + 6)" "b' ! (i + 7) = b ! (i + 7)" using assms(1) by (simp_all add: nth)
  show nl: "de_name_len b' i = de_name_len b i" and ino: "de_inode b' i = de_inode b i"
    unfolding de_name_len_def de_inode_def le32_def le16_def f by simp_all
  have "de_name b' i = de_name b i" by (rule name_cong [OF nl]) (use assms(1) len in \<open>simp_all add: nth\<close>)
  then show "entry_at b' i = entry_at b i" using ino f(6) by (simp add: entry_at_def de_file_type_def)
qed

lemma needed_bounds: "length (e_name e) + 8 \<le> needed e" "4 dvd needed e" "e_name e \<noteq> [] \<Longrightarrow> 12 \<le> needed e"
  using rec_len_bounds [of "length (e_name e)"] by (simp_all add: needed_def)

lemma compacting_trim:
  assumes "compacting b0 base b ep dsize sf front prev cur" "live cur"
  defines "b' \<equiv> copyin b (ep + 4) (bytes16 dsize)"
  shows "holds b' base (prev @ [cur]) (ep + dsize)" "length b' = length b" "\<And>k. k < length b \<Longrightarrow> k < base \<or> ep + dsize \<le> k \<Longrightarrow> b' ! k = b ! k"
proof -
  note c = assms(1) [unfolded compacting_def]
  have nb: "length (e_name cur) + 8 \<le> dsize" "4 dvd dsize" "12 \<le> dsize" using needed_bounds [of cur] c assms(2) by auto
  have i: "ep + 8 + de_name_len b ep \<le> length b" "dsize < 65536" using c nb by linarith+
  note sr = set_rec_len [OF i, folded b'_def]
  show len: "length b' = length b" by (rule sr(5))
  have "base \<le> ep" using c by simp
  then show "b' ! k = b ! k" if "k < length b" "k < base \<or> ep + dsize \<le> k" for k
    using sr(6) [of k] that nb by auto
  have p: "holds b' base prev ep"
  proof (rule holds_cong [OF _ len])
    show "holds b base prev ep" using c by blast
    show "b' ! k = b ! k" if "base \<le> k" "k < ep" for k using sr(6) [of k] that i by simp
  qed
  have "entry_ok b' ep" using sr nb c assms(2) by (auto simp: entry_ok_def needed_def)
  then have "holds b' ep [cur] (ep + dsize)" using sr c by simp
  then show "holds b' base (prev @ [cur]) (ep + dsize)" using p by (auto simp: holds_append)
qed


lemma compacting_copy:
  assumes "holds b base prev ep" "list_all live prev" "base + used prev = ep" "ep \<le> front" "entry_ok b front" "length b = length b0" "length b < 65536"
    and "\<And>k. k < length b \<Longrightarrow> k < base \<or> front \<le> k \<Longrightarrow> b ! k = b0 ! k"
  defines "cur \<equiv> entry_at b front" and "front' \<equiv> front + de_rec_len b front"
  shows "compacting b0 base (bcopy b front ep (needed cur)) ep (needed cur) (int front' - int ep - int (needed cur)) front' prev cur"
proof -
  let ?b = "bcopy b front ep (needed cur)"
  note e = assms(5) [unfolded entry_ok_def]
  have nl: "length (e_name cur) = de_name_len b front" using name_length [OF assms(5)] by (simp add: cur_def)
  then have n: "needed cur \<le> de_rec_len b front" "length (e_name cur) + 8 \<le> needed cur"
    using e needed_bounds(1) [of cur] by (simp_all add: needed_def)
  have r: "front + needed cur \<le> length b" "ep + needed cur \<le> length b" using n e assms(4) by linarith+
  have len: "length ?b = length b" using r by simp
  have nth: "?b ! k = (if ep \<le> k \<and> k < ep + needed cur then b ! (front + (k - ep)) else b ! k)" if "k < length b" for k
    using nth_bcopy [OF r that] .
  have h: "holds ?b base prev ep"
    by (rule holds_cong [OF assms(1) len]) (use r in \<open>simp add: nth\<close>)
  have c: "entry_at ?b ep = entry_at b front" "de_name_len ?b ep = de_name_len b front"
  proof -
    have eq: "?b ! (ep + k) = b ! (front + k)" if "k < 8 + de_name_len b front" for k
      using that nl n r by (simp add: nth)
    have l: "front + 8 + de_name_len b front \<le> length b" "ep + 8 + de_name_len b front \<le> length ?b" using r n nl len by linarith+
    show "entry_at ?b ep = entry_at b front" "de_name_len ?b ep = de_name_len b front" using entry_at_cong [OF eq l] by simp_all
  qed
  have bounds: "ep + needed cur \<le> front'" "front' \<le> length b" "base \<le> ep" using n e assms(3,4) by (simp_all add: front'_def)
  have out: "?b ! k = b0 ! k" if "k < length b" "k < base \<or> front' \<le> k" for k
    using that nth [OF that(1)] assms(8) [OF that(1)] bounds by (auto simp: front'_def)
  have "live cur \<longrightarrow> e_name cur \<noteq> []" using e nl by (auto simp: live_def cur_def entry_at_def)
  then show ?thesis unfolding compacting_def using h c nl len bounds out assms(2,3,6,7) by (simp add: cur_def)
qed

lemma compact_loop_step:
  fixes b base loc ep dsize sf
  defines "used_cur \<equiv> de_inode b ep \<noteq> 0"
  defines "b1 \<equiv> if used_cur then copyin b (ep + 4) (bytes16 dsize) else b"
  defines "d \<equiv> EXT2_DIR_REC_LEN (de_name_len b1 (base + loc))"
  assumes "loc < count" "base + loc + 8 \<le> length b" "base + loc + d \<le> length b1"
  shows "compact_loop conv base count b ep dsize sf loc =
    compact_loop conv base count (bcopy b1 (base + loc) (if used_cur then ep + dsize else ep) d) (if used_cur then ep + dsize else ep) d
      (conv ((if used_cur then sf else conv (sf + int dsize)) + int (uint32 (int (de_rec_len b1 (base + loc)) - int d))))
      (loc + de_rec_len b1 (base + loc))"
proof -
  have "\<not> length b < base + loc + 8" "\<not> length b1 < base + loc + d" using assms(5,6) by simp_all
  then show ?thesis using assms(4) unfolding b1_def d_def used_cur_def by (subst compact_loop.simps) (simp only: Let_def if_True if_False)
qed

lemma compact_loop_ok:
  assumes "holds b0 (base + loc) rest (base + count)" "compacting b0 base b ep dsize sf (base + loc) prev cur"
    and "\<And>x. 0 \<le> x \<Longrightarrow> x < 65536 \<Longrightarrow> conv x = x"
  shows "\<exists>b' ep' dsize' sf' prev' cur'. compact_loop conv base count b ep dsize sf loc = Some (Return (b', ep', dsize', sf')) \<and>
    compacting b0 base b' ep' dsize' sf' (base + count) prev' cur' \<and>
    filter live (prev' @ [cur']) = filter live (prev @ cur # rest)"
  using assms(1,2)
proof (induction rest arbitrary: loc b ep dsize sf prev cur)
  case Nil
  then have "loc = count" by simp
  then have "compact_loop conv base count b ep dsize sf loc = Some (Return (b, ep, dsize, sf))" by (subst compact_loop.simps) simp
  then show ?case using Nil.prems(2) \<open>loc = count\<close> by auto
next
  case (Cons r rest)
  note c = Cons.prems(2) [unfolded compacting_def]
  let ?front = "base + loc"
  have r0: "entry_ok b0 ?front" "entry_at b0 ?front = r" "holds b0 (?front + de_rec_len b0 ?front) rest (base + count)" using Cons.prems(1) by simp_all
  define b1 where "b1 = (if live cur then copyin b (ep + 4) (bytes16 dsize) else b)"
  define ep1 where "ep1 = (if live cur then ep + dsize else ep)"
  define prev1 where "prev1 = (if live cur then prev @ [cur] else prev)"
  have len1: "length b1 = length b" using compacting_trim(2) [OF Cons.prems(2)] by (simp add: b1_def)
  have h1: "holds b1 base prev1 ep1" using compacting_trim(1) [OF Cons.prems(2)] c by (simp add: b1_def prev1_def ep1_def)
  have o1: "b1 ! k = b0 ! k" if "k < length b1" "k < base \<or> ?front \<le> k" for k
  proof -
    have "b1 ! k = b ! k" using compacting_trim(3) [OF Cons.prems(2)] that len1 c by (auto simp: b1_def)
    then show ?thesis using c that len1 by auto
  qed
  have ep1: "ep1 \<le> ?front" "base + used prev1 = ep1" "list_all live prev1"
    using c by (auto simp: ep1_def prev1_def)
  have same: "entry_ok b1 ?front" "entry_at b1 ?front = r" "de_rec_len b1 ?front = de_rec_len b0 ?front"
  proof -
    have eq: "b1 ! k = b0 ! k" if "?front \<le> k" "k < ?front + de_rec_len b0 ?front" for k
      using o1 [of k] that r0(1) len1 c by (simp add: entry_ok_def)
    show "entry_ok b1 ?front" "entry_at b1 ?front = r" "de_rec_len b1 ?front = de_rec_len b0 ?front"
      using entry_cong [OF r0(1) _ eq] len1 c r0(2) by simp_all
  qed
  define d where "d = needed r"
  have d: "EXT2_DIR_REC_LEN (de_name_len b1 ?front) = d" using name_length [OF same(1)] same(2) by (simp add: d_def needed_def)
  have dl: "d \<le> de_rec_len b0 ?front" "?front + de_rec_len b0 ?front \<le> length b" "8 \<le> d"
    using same d len1 needed_bounds(1) [of r] by (simp_all add: entry_ok_def d_def)
  let ?loc = "loc + de_rec_len b0 ?front"
  define sf1 where "sf1 = int (base + ?loc) - int ep1 - int d"
  have st: "compacting b0 base (bcopy b1 ?front ep1 d) ep1 d sf1 (base + ?loc) prev1 r"
    using compacting_copy [OF h1 ep1(3,2,1) same(1)] len1 c o1 same by (simp add: d_def sf1_def add.assoc)
  have loc: "loc < count" using holds_le [OF Cons.prems(1)] by simp
  have ino: "(de_inode b ep \<noteq> 0) = live cur" using c by (auto simp: live_def entry_at_def)
  have sfs: "conv ((if live cur then sf else conv (sf + int dsize)) + int (uint32 (int (de_rec_len b0 ?front) - int d))) = sf1"
  proof -
    have u: "int (uint32 (int (de_rec_len b0 ?front) - int d)) = int (de_rec_len b0 ?front) - int d"
      using dl c by (simp add: uint32_def)
    have s: "0 \<le> sf" "sf + int dsize < 65536" "sf1 = (if live cur then sf else sf + int dsize) + (int (de_rec_len b0 ?front) - int d)"
      "0 \<le> sf1" "sf1 < 65536" using c dl by (auto simp: sf1_def ep1_def)
    have "conv (sf + int dsize) = sf + int dsize" by (rule assms(3)) (use s in simp_all)
    then show ?thesis unfolding u using s assms(3) [of sf1] by (cases "live cur") simp_all
  qed
  have "compact_loop conv base count b ep dsize sf loc = compact_loop conv base count (bcopy b1 ?front ep1 d) ep1 d sf1 ?loc"
  proof -
    have "base + loc + 8 \<le> length b" "base + loc + d \<le> length b1" using dl len1 by simp_all
    then show ?thesis
      using compact_loop_step [of loc count base b ep dsize conv sf, unfolded ino, folded b1_def ep1_def, unfolded d same(3) sfs] loc by blast
  qed
  moreover have "filter live (prev1 @ r # rest) = filter live (prev @ cur # r # rest)" by (simp add: prev1_def)
  ultimately show ?case using Cons.IH [OF _ st] r0(3) by (simp add: add.assoc)
qed


text \<open>The bytes of a new entry read back as the entry.\<close>

lemma entry_bytes_split:
  assumes "2 \<le> length junk"
  shows "length (entry_bytes e junk rl) = needed e"
    "entry_bytes e junk rl = (bytes32 (e_inode e) @ bytes16 rl @ [of_nat (length (e_name e)), e_file_type e]) @ e_name e @
       take (needed e - 8 - length (e_name e)) (0 # junk)"
proof -
  define H where "H = bytes32 (e_inode e) @ bytes16 rl @ [of_nat (length (e_name e)), e_file_type e]"
  have H: "length H = 8" by (simp add: H_def)
  have b: "length (e_name e) + 8 \<le> needed e" "needed e \<le> length (e_name e) + 11"
    using rec_len_bounds(1,2) [of "length (e_name e)"] by (simp_all add: needed_def)
  have eq: "entry_bytes e junk rl = take (needed e) (H @ e_name e @ 0 # junk)" by (simp add: entry_bytes_def needed_def H_def)
  then show "length (entry_bytes e junk rl) = needed e" using H b assms by simp
  show "entry_bytes e junk rl = (bytes32 (e_inode e) @ bytes16 rl @ [of_nat (length (e_name e)), e_file_type e]) @ e_name e @
       take (needed e - 8 - length (e_name e)) (0 # junk)"
    unfolding eq H_def [symmetric] using H b by simp
qed

lemma entry_bytes_read:
  assumes "new_ok e" "2 \<le> length junk" "rl < 65536" "i + needed e \<le> length b"
  defines "b' \<equiv> copyin b i (entry_bytes e junk rl)"
  shows "entry_at b' i = e" "de_rec_len b' i = rl" "de_name_len b' i = length (e_name e)" "de_inode b' i = e_inode e" "length b' = length b"
proof -
  let ?x = "entry_bytes e junk rl"
  note x = entry_bytes_split [OF assms(2), of e rl]
  have l: "i + length ?x \<le> length b" using x(1) assms(4) by simp
  have n: "length (e_name e) + 8 \<le> needed e" by (rule needed_bounds)
  show len: "length b' = length b" using l by (simp add: b'_def)
  have nth: "b' ! (i + k) = ?x ! k" if "k < needed e" for k
    using nth_copyin [OF l, of "i + k"] that x(1) assms(4) by (simp add: b'_def)
  have g: "b' ! j = (bytes32 (e_inode e) @ bytes16 rl @ [of_nat (length (e_name e)), e_file_type e]) ! k" if "j = i + k" "k < 8" for j k
  proof -
    have "?x ! k = (bytes32 (e_inode e) @ bytes16 rl @ [of_nat (length (e_name e)), e_file_type e]) ! k"
      unfolding x(2) by (rule nth_append_left) (use that in simp)
    then show ?thesis using that nth [of k] n by simp
  qed
  have f: "b' ! i = of_nat (e_inode e)" "b' ! (i + 1) = of_nat (e_inode e div 256)" "b' ! (i + 2) = of_nat (e_inode e div 65536)"
    "b' ! (i + 2 + 1) = of_nat (e_inode e div 65536 div 256)" "b' ! (i + 4) = of_nat rl" "b' ! (i + 4 + 1) = of_nat (rl div 256)"
    "b' ! (i + 6) = of_nat (length (e_name e))" "b' ! (i + 7) = e_file_type e"
    using g [of i 0] g [of "i + 1" 1] g [of "i + 2" 2] g [of "i + 2 + 1" 3] g [of "i + 4" 4] g [of "i + 4 + 1" 5] g [of "i + 6" 6] g [of "i + 7" 7]
    by (simp_all add: bytes32_def bytes16_def)
  show rl: "de_rec_len b' i = rl" unfolding de_rec_len_def le16_bytes [OF f(5,6)] using assms(3) by simp
  show nl: "de_name_len b' i = length (e_name e)" unfolding de_name_len_def f(7) using assms(1) by (simp add: unat_of_nat8 new_ok_def)
  have "de_inode b' i = e_inode e mod 65536 + 65536 * (e_inode e div 65536 mod 65536)"
    unfolding de_inode_def le32_def le16_bytes [OF f(1,2)] le16_bytes [OF f(3,4)] ..
  also have "\<dots> = e_inode e mod (65536 * 65536)" by (simp only: mod_mult2_eq)
  finally show ino: "de_inode b' i = e_inode e" using assms(1) by (simp add: new_ok_def)
  have "de_name b' i = e_name e"
  proof (rule nth_equalityI)
    show "length (de_name b' i) = length (e_name e)" using nl len n assms(4) by (simp add: de_name_def)
    fix k assume "k < length (de_name b' i)"
    then have k: "k < length (e_name e)" using nl by (simp add: de_name_def)
    then have "de_name b' i ! k = b' ! (i + (8 + k))" using nl n len assms(4) by (simp add: de_name_def add.assoc)
    also have "\<dots> = e_name e ! k" using nth [of "8 + k"] k n by (simp add: x(2) nth_append bytes32_def bytes16_def)
    finally show "de_name b' i ! k = e_name e ! k" .
  qed
  then show "entry_at b' i = e" using ino f(8) by (simp add: entry_at_def de_file_type_def)
qed

lemma place_new:
  assumes "holds b base prev ep" "ep + room \<le> length b" "needed e \<le> room" "4 dvd room" "room < 65536" "new_ok e" "2 \<le> length junk"
  defines "b' \<equiv> copyin b ep (entry_bytes e junk room)"
  shows "holds b' base (prev @ [e]) (ep + room)" "length b' = length b"
    "\<And>k. k < length b \<Longrightarrow> k < ep \<or> ep + room \<le> k \<Longrightarrow> b' ! k = b ! k"
proof -
  have l: "ep + needed e \<le> length b" using assms(2,3) by linarith
  note rd = entry_bytes_read [OF assms(6,7,5) l, folded b'_def]
  show "length b' = length b" by (rule rd(5))
  have x: "length (entry_bytes e junk room) = needed e" by (rule entry_bytes_split(1) [OF assms(7)])
  then have nth: "b' ! k = b ! k" if "k < length b" "k < ep \<or> ep + needed e \<le> k" for k
    using nth_copyin [of ep "entry_bytes e junk room" b k] l that by (auto simp: b'_def)
  then show "b' ! k = b ! k" if "k < length b" "k < ep \<or> ep + room \<le> k" for k using that assms(3) by auto
  have h: "holds b' base prev ep" by (rule holds_cong [OF assms(1) rd(5)]) (use assms(2) in \<open>simp add: nth\<close>)
  have "12 \<le> needed e" using assms(6) needed_bounds(3) [of e] by (simp add: new_ok_def)
  then have "entry_ok b' ep" using rd assms(2,3,4,6) by (simp add: entry_ok_def needed_def new_ok_def)
  then have "holds b' ep [e] (ep + room)" using rd by simp
  then show "holds b' base (prev @ [e]) (ep + room)" using h by (auto simp: holds_append)
qed

lemma place_entry_ok:
  assumes "compacting b0 base b ep dsize sf (base + count) prev cur" "filter live (prev @ [cur]) = filter live es" "4 dvd count"
    and "new_ok e" "2 \<le> length junk"
    and "\<And>x. 0 \<le> x \<Longrightarrow> x < 65536 \<Longrightarrow> c1 x = x" "\<And>x. 0 \<le> x \<Longrightarrow> x < 65536 \<Longrightarrow> c2 x = x"
  shows "if used es + needed e \<le> count then \<exists>b'. place_entry c1 c2 e junk (b, ep, dsize, sf) = Return b' \<and> entered b0 base count es e b'
    else place_entry c1 c2 e junk (b, ep, dsize, sf) = Panic Compact_space"
proof -
  note c = assms(1) [unfolded compacting_def]
  define room where "room = count - used es"
  have ue: "used es = used prev + (if live cur then dsize else 0)"
    using c by (simp add: used_filter flip: assms(2))
  have fl: "filter live prev = prev" using c by (simp add: filter_id_conv list_all_iff)
  define ep1 where "ep1 = (if live cur then ep + dsize else ep)"
  define b1 where "b1 = (if live cur then copyin b (ep + 4) (bytes16 dsize) else b)"
  have le: "used es \<le> count" "ep1 + room = base + count" "room < 65536" using c ue by (auto simp: room_def ep1_def)
  have h1: "holds b1 base (filter live es) ep1" "length b1 = length b"
    using compacting_trim(1,2) [OF assms(1)] c fl by (auto simp: b1_def ep1_def simp flip: assms(2))
  have o1: "b1 ! k = b0 ! k" if "k < length b" "k < base \<or> base + count \<le> k" for k
    using compacting_trim(3) [OF assms(1)] that c by (auto simp: b1_def)
  have "4 dvd ep1 - base" using holds_dvd [OF h1(1)] .
  moreover have "count = room + (ep1 - base)" using le c by (auto simp: ep1_def)
  ultimately have dv: "4 dvd room" using assms(3) dvd_add_left_iff by metis
  have ino: "(de_inode b ep = 0) = (\<not> live cur)" using c by (auto simp: live_def entry_at_def)
  have sf: "int room = (if live cur then sf else sf + int dsize)" using c ue le by (auto simp: room_def)
  have cc: "c1 (int room) = int room" "c2 (int room) = int room" using assms(6,7) le by simp_all
  have pl: "place_entry c1 c2 e junk (b, ep, dsize, sf) = (if room < needed e then Panic Compact_space
      else if length b < ep1 + needed e then Panic Wild_pointer else Return (copyin b1 ep1 (entry_bytes e junk room)))"
  proof (cases "live cur")
    case True
    then have "sf = int room" using sf by simp
    then show ?thesis using True cc le(3) by (simp add: place_entry_def ino b1_def ep1_def needed_def)
  next
    case False
    then have "sf + int dsize = int room" using sf by simp
    then show ?thesis using False cc le(3) by (simp add: place_entry_def ino b1_def ep1_def needed_def)
  qed
  show ?thesis
  proof (cases "used es + needed e \<le> count")
    case True
    then have n: "needed e \<le> room" by (simp add: room_def)
    have l: "ep1 + room \<le> length b1" using le c h1(2) by simp
    note pn = place_new [OF h1(1) l n dv le(3) assms(4,5)]
    have "entered b0 base count es e (copyin b1 ep1 (entry_bytes e junk room))"
      unfolding entered_def using pn le(2) h1(2) o1 c by (auto simp: ep1_def)
    moreover have "\<not> length b < ep1 + needed e" using l n h1(2) by simp
    ultimately show ?thesis using True n by (simp add: pl)
  next
    case False
    then show ?thesis using le by (simp add: pl room_def)
  qed
qed

lemma compacting_start:
  assumes "entry_ok b base" "length b < 65536"
  defines "d \<equiv> EXT2_DIR_REC_LEN (de_name_len b base)"
  shows "compacting b base b base d (int (de_rec_len b base) - int d) (base + de_rec_len b base) [] (entry_at b base)"
  using assms name_length [OF assms(1)] by (auto simp: compacting_def entry_ok_def needed_def live_def entry_at_def)

lemma compact_entries_ok:
  assumes "holds b base es (base + count)" "es \<noteq> []" "length b < 65536" "new_ok e" "2 \<le> length junk"
    and "\<And>x. 0 \<le> x \<Longrightarrow> x < 65536 \<Longrightarrow> conv x = x \<and> c1 x = x \<and> c2 x = x"
  shows "if used es + needed e \<le> count then \<exists>b'. compact_entries conv c1 c2 e junk b base count = Some (Return b') \<and> entered b base count es e b'
    else compact_entries conv c1 c2 e junk b base count = Some (Panic Compact_space)"
proof -
  obtain x xs where es: "es = x # xs" using assms(2) by (cases es) auto
  then have o: "entry_ok b base" "entry_at b base = x" "holds b (base + de_rec_len b base) xs (base + count)" using assms(1) by simp_all
  let ?d = "EXT2_DIR_REC_LEN (de_name_len b base)"
  note st = compacting_start [OF o(1) assms(3)]
  have cv: "\<And>x. 0 \<le> x \<Longrightarrow> x < 65536 \<Longrightarrow> conv x = x" "\<And>x. 0 \<le> x \<Longrightarrow> x < 65536 \<Longrightarrow> c1 x = x" "\<And>x. 0 \<le> x \<Longrightarrow> x < 65536 \<Longrightarrow> c2 x = x"
    using assms(6) by blast+
  have d: "?d \<le> de_rec_len b base" "base + de_rec_len b base \<le> length b" "12 \<le> de_rec_len b base" using o(1) by (simp_all add: entry_ok_def)
  have sf: "conv (int (uint32 (int (de_rec_len b base) - int ?d))) = int (de_rec_len b base) - int ?d"
    using d assms(3) cv(1) by (simp add: uint32_def)
  obtain b1 ep1 d1 sf1 prev cur where l:
    "compact_loop conv base count b base ?d (int (de_rec_len b base) - int ?d) (de_rec_len b base) = Some (Return (b1, ep1, d1, sf1))"
    "compacting b base b1 ep1 d1 sf1 (base + count) prev cur" "filter live (prev @ [cur]) = filter live es"
    using compact_loop_ok [OF o(3) st cv(1)] es o(2) by auto
  have "\<not> length b < base + 8" using d by simp
  then have "compact_entries conv c1 c2 e junk b base count = Some (place_entry c1 c2 e junk (b1, ep1, d1, sf1))"
    by (simp add: compact_entries_def Let_def sf l(1))
  moreover have "4 dvd count" using holds_dvd [OF assms(1)] by simp
  ultimately show ?thesis using place_entry_ok [OF l(2,3) _ assms(4,5) cv(2,3)] by (simp split: if_splits)
qed


text \<open>Changing one entry in place.\<close>

lemma holds_change:
  assumes "holds b lo (xs @ e # ys) hi" "holds b lo xs i" "length b' = length b"
    and "\<And>k. k < length b \<Longrightarrow> k < i \<or> i + de_rec_len b i \<le> k \<Longrightarrow> b' ! k = b ! k"
    and "entry_ok b' i" "de_rec_len b' i = de_rec_len b i" "entry_at b' i = e'"
  shows "holds b' lo (xs @ e' # ys) hi"
proof -
  obtain m where m: "holds b lo xs m" "holds b m (e # ys) hi" using assms(1) by (auto simp: holds_append)
  have "m = i" using m(1) assms(2)
  proof (induction xs arbitrary: lo)
    case (Cons x xs)
    then show ?case by auto
  qed simp
  then have y: "entry_ok b i" "holds b (i + de_rec_len b i) ys hi" using m(2) by simp_all
  have hi: "i + de_rec_len b i \<le> length b" "hi \<le> length b" using y holds_le [OF m(2)] by (auto simp: entry_ok_def)
  have "holds b' lo xs i" by (rule holds_cong [OF assms(2,3)]) (use hi assms(4) in auto)
  moreover have "holds b' (i + de_rec_len b i) ys hi" by (rule holds_cong [OF y(2) assms(3)]) (use hi assms(4) in auto)
  ultimately show ?thesis using assms(5-7) by (auto simp: holds_append)
qed

lemma set_inode:
  assumes "entry_ok b i" "ino < 2 ^ 32" "ino = 0 \<or> de_name_len b i \<noteq> 0"
  defines "b' \<equiv> copyin b i (bytes32 ino)"
  shows "entry_ok b' i" "entry_at b' i = (entry_at b i)\<lparr>e_inode := ino\<rparr>" "de_rec_len b' i = de_rec_len b i" "length b' = length b"
    "k < length b \<Longrightarrow> k < i \<or> i + 4 \<le> k \<Longrightarrow> b' ! k = b ! k"
proof -
  have e: "de_name_len b i + 8 \<le> de_rec_len b i" "i + de_rec_len b i \<le> length b"
    using assms(1) rec_len_bounds(1) [of "de_name_len b i"] by (simp_all add: entry_ok_def)
  have l: "i + length (bytes32 ino) \<le> length b" using e by simp
  show len: "length b' = length b" using l by (simp add: b'_def)
  have nth: "b' ! k = b ! k" if "k < length b" "k < i \<or> i + 4 \<le> k" for k
    using nth_copyin [OF l that(1)] that(2) by (auto simp: b'_def)
  then show "k < length b \<Longrightarrow> k < i \<or> i + 4 \<le> k \<Longrightarrow> b' ! k = b ! k" .
  have f: "b' ! (i + 4) = b ! (i + 4)" "b' ! (i + 4 + 1) = b ! (i + 4 + 1)" "b' ! (i + 6) = b ! (i + 6)" "b' ! (i + 7) = b ! (i + 7)"
    using e by (simp_all add: nth)
  show rl: "de_rec_len b' i = de_rec_len b i" unfolding de_rec_len_def le16_def f ..
  have nl: "de_name_len b' i = de_name_len b i" unfolding de_name_len_def f ..
  have nm: "de_name b' i = de_name b i" by (rule name_cong [OF nl]) (use e len in \<open>simp_all add: nth\<close>)
  have g: "b' ! j = bytes32 ino ! k" if "j = i + k" "k < 4" for j k
    using nth_copyin [OF l, of j] that e by (simp add: b'_def)
  have h: "b' ! i = of_nat ino" "b' ! (i + 1) = of_nat (ino div 256)" "b' ! (i + 2) = of_nat (ino div 65536)" "b' ! (i + 2 + 1) = of_nat (ino div 65536 div 256)"
    using g [of i 0] g [of "i + 1" 1] g [of "i + 2" 2] g [of "i + 2 + 1" 3] by (simp_all add: bytes32_def bytes16_def)
  have "de_inode b' i = ino mod 65536 + 65536 * (ino div 65536 mod 65536)"
    unfolding de_inode_def le32_def le16_bytes [OF h(1,2)] le16_bytes [OF h(3,4)] ..
  also have "\<dots> = ino mod (65536 * 65536)" by (simp only: mod_mult2_eq)
  finally have ino: "de_inode b' i = ino" using assms(2) by simp
  show "entry_at b' i = (entry_at b i)\<lparr>e_inode := ino\<rparr>" using nm ino f by (simp add: entry_at_def de_file_type_def)
  show "entry_ok b' i" using assms(1,3) rl nl ino len by (auto simp: entry_ok_def)
qed

lemma dirremove_first:
  assumes "holds b lo (e # ys) hi"
  shows "holds (dirremove_block b lo 0 rl) lo (e\<lparr>e_inode := 0\<rparr> # ys) hi" "length (dirremove_block b lo 0 rl) = length b"
proof -
  have e: "entry_ok b lo" "entry_at b lo = e" "4 \<le> de_rec_len b lo" using assms by (simp_all add: entry_ok_def)
  note si = set_inode [OF e(1), of 0]
  have "holds (copyin b lo (bytes32 0)) lo ([] @ e\<lparr>e_inode := 0\<rparr> # ys) hi"
    by (rule holds_change [of b lo "[]" e]) (use assms si e in auto)
  then show "holds (dirremove_block b lo 0 rl) lo (e\<lparr>e_inode := 0\<rparr> # ys) hi" by (simp add: dirremove_block_def)
  show "length (dirremove_block b lo 0 rl) = length b" using si by (simp add: dirremove_block_def)
qed

lemma dirremove_next:
  assumes "holds b lo (xs @ p # e # ys) hi" "holds b lo xs i" "length b < 65536"
  defines "c \<equiv> de_rec_len b i"
  shows "holds (dirremove_block b (i + c) c (de_rec_len b (i + c))) lo (xs @ p # ys) hi"
    "length (dirremove_block b (i + c) c (de_rec_len b (i + c))) = length b"
proof -
  let ?b = "dirremove_block b (i + c) c (de_rec_len b (i + c))" and ?v = "c + de_rec_len b (i + c)"
  obtain m where m: "holds b lo xs m" "holds b m (p # e # ys) hi" using assms(1) by (auto simp: holds_append)
  have "m = i" using m(1) assms(2) by (induction xs arbitrary: lo) auto
  then have p: "entry_ok b i" "entry_at b i = p" "entry_ok b (i + c)" "holds b (i + c + de_rec_len b (i + c)) ys hi"
    using m(2) by (simp_all add: c_def)
  have l: "0 < c" "i + ?v \<le> length b" "de_name_len b i + 8 \<le> c" using p rec_len_bounds(1) [of "de_name_len b i"] by (auto simp: entry_ok_def c_def)
  have a: "i + 8 + de_name_len b i \<le> length b" "?v < 65536" using l assms(3) by linarith+
  have eq: "?b = copyin b (i + 4) (bytes16 ?v)" using l by (simp add: dirremove_block_def Let_def c_def)
  note sr = set_rec_len [OF a, folded eq]
  show len: "length ?b = length b" by (rule sr(5))
  have ok: "entry_ok ?b i" using p(1,3) sr l by (auto simp: entry_ok_def c_def)
  have "hi \<le> length b" using holds_le [OF m(2)] by simp
  then have "holds ?b lo xs i" "holds ?b (i + ?v) ys hi"
    using holds_cong [OF assms(2) len] holds_cong [OF p(4) len] sr(6) l by (auto simp: add.assoc)
  then show "holds ?b lo (xs @ p # ys) hi" using ok sr p(2) by (auto simp: holds_append)
qed

lemma dirempty_loop_ok:
  assumes "holds F off es (length F)" "\<And>i. i + 12 \<le> length F \<Longrightarrow> rd i = Inr (take 12 (drop i F))"
  shows "dirempty_loop rd (length F) parentino off \<longleftrightarrow> list_all (dot_entry parentino) (filter live es)"
  using assms(1)
proof (induction es arbitrary: off)
  case Nil
  then show ?case by (subst dirempty_loop.simps) simp
next
  case (Cons e es)
  let ?d = "take 12 (drop off F)"
  have e: "entry_ok F off" "entry_at F off = e" "holds F (off + de_rec_len F off) es (length F)" using Cons.prems by simp_all
  have l: "off + 12 \<le> length F" using holds_le [OF Cons.prems] by simp
  have nth: "?d ! k = F ! (off + k)" if "k < 12" for k using that l by simp
  have f: "de_inode ?d 0 = de_inode F off" "de_rec_len ?d 0 = de_rec_len F off" "de_name_len ?d 0 = de_name_len F off"
    using fields_cong [of ?d 0 F off] nth by simp_all
  have IH: "dirempty_loop rd (length F) parentino (off + de_rec_len F off) \<longleftrightarrow> list_all (dot_entry parentino) (filter live es)"
    by (rule Cons.IH [OF e(3)])
  have live: "live e \<longleftrightarrow> de_inode F off \<noteq> 0" using e(2) by (auto simp: live_def entry_at_def)
  have rl: "de_rec_len F off \<noteq> 0" using e(1) by (simp add: entry_ok_def)
  have nm: "length (e_name e) = de_name_len F off" "e_name e = take (de_name_len F off) (drop (off + 8) F)"
    using name_length [OF e(1)] e(2) by (auto simp: entry_at_def de_name_def)
  have step: "dirempty_loop rd (length F) parentino off \<longleftrightarrow>
      (if de_inode F off = 0 then True
       else de_name_len F off \<le> 2 \<and> F ! (off + 8) = 46 \<and> (de_name_len F off = 1 \<or> F ! (off + 9) = 46 \<and> de_inode F off = parentino)) \<and>
      dirempty_loop rd (length F) parentino (off + de_rec_len F off)"
    using l rl f assms(2) [OF l] nth [of 8] nth [of 9] by (subst dirempty_loop.simps) (auto simp: Let_def)
  have "dot_entry parentino e \<longleftrightarrow> de_name_len F off \<le> 2 \<and> F ! (off + 8) = 46 \<and> (de_name_len F off = 1 \<or> F ! (off + 9) = 46 \<and> de_inode F off = parentino)"
    if lv: "live e"
  proof -
    have n0: "de_name_len F off \<noteq> 0" using e(1) lv live by (simp add: entry_ok_def)
    have "e_inode e = de_inode F off" using e(2) by (auto simp: entry_at_def)
    consider "de_name_len F off = 1" | "de_name_len F off = 2" | "de_name_len F off > 2" using n0 by linarith
    then show ?thesis
    proof cases
      case 1
      then have "e_name e = [F ! (off + 8)]" using nm l by (simp add: take_Suc_conv_app_nth)
      then show ?thesis using 1 by (simp add: dot_entry_def)
    next
      case 2
      then have "e_name e = [F ! (off + 8), F ! (off + 9)]" using nm l by (simp add: numeral_2_eq_2 take_Suc_conv_app_nth add.commute)
      then show ?thesis using 2 \<open>e_inode e = de_inode F off\<close> by (simp add: dot_entry_def)
    next
      case 3
      then show ?thesis using nm(1) by (auto simp: dot_entry_def)
    qed
  qed
  then show ?case using step IH live by auto
qed


lemma dirremove_ok:
  assumes "holds b lo (xs @ e # ys) hi" "holds b lo xs i" "length b < 65536"
    and "xs = [] \<longrightarrow> count = 0" "xs \<noteq> [] \<longrightarrow> 0 < count \<and> count \<le> i \<and> holds b lo (butlast xs) (i - count)"
  defines "b' \<equiv> dirremove_block b i count (de_rec_len b i)"
  shows "length b' = length b" "\<exists>es'. holds b' lo es' hi \<and> filter live es' = filter live (xs @ ys)"
proof -
  have both: "length b' = length b \<and> (\<exists>es'. holds b' lo es' hi \<and> filter live es' = filter live (xs @ ys))"
  proof (cases "xs = []")
    case True
    then have "holds b lo (e # ys) hi" "i = lo" "count = 0" using assms(1,2,4) by simp_all
    then show ?thesis using dirremove_first [of b lo e ys hi] True by (auto simp: b'_def live_def intro!: exI [of _ "e\<lparr>e_inode := 0\<rparr> # ys"])
  next
    case False
    then obtain ws p where xs: "xs = ws @ [p]" using rev_exhaust by blast
    then have c: "0 < count" "count \<le> i" "holds b lo ws (i - count)" using assms(5) by simp_all
    obtain m where m: "holds b lo ws m" "holds b m [p] i" using assms(2) xs by (auto simp: holds_append)
    have "m = i - count" using m(1) c(3) by (induction ws arbitrary: lo) auto
    then have "i - count + de_rec_len b (i - count) = i" using m(2) by auto
    then have "count = de_rec_len b (i - count)" using c by linarith
    then show ?thesis using dirremove_next [of b lo ws p e ys hi "i - count"] assms(1,3) xs c by (auto simp: b'_def intro!: exI [of _ "ws @ p # ys"])
  qed
  show "length b' = length b" "\<exists>es'. holds b' lo es' hi \<and> filter live es' = filter live (xs @ ys)" using both by blast+
qed

lemma dirrewrite_ok:
  assumes "holds b lo (xs @ e # ys) hi" "holds b lo xs i" "ino < 2 ^ 32" "live e"
  shows "holds (dirrewrite_block b i ino ft) lo (xs @ e\<lparr>e_inode := ino, e_file_type := ft\<rparr> # ys) hi"
proof -
  let ?b1 = "copyin b i (bytes32 ino)"
  obtain m where m: "holds b lo xs m" "holds b m (e # ys) hi" using assms(1) by (auto simp: holds_append)
  have "m = i" using m(1) assms(2) by (induction xs arbitrary: lo) auto
  then have e: "entry_ok b i" "entry_at b i = e" using m(2) by simp_all
  have n: "de_name_len b i \<noteq> 0" using e assms(4) by (auto simp: entry_ok_def live_def entry_at_def)
  note si = set_inode [OF e(1) assms(3) disjI2 [OF n]]
  have o1: "entry_ok ?b1 i" "entry_at ?b1 i = e\<lparr>e_inode := ino\<rparr>" "de_rec_len ?b1 i = de_rec_len b i" "length ?b1 = length b"
    using si(1-4) e(2) by simp_all
  have l: "i + 12 \<le> length b" "12 \<le> de_rec_len b i" using e(1) by (auto simp: entry_ok_def)
  let ?b2 = "dirrewrite_block b i ino ft"
  have b2: "?b2 = ?b1[i + 7 := ft]" "length ?b2 = length b" using o1 by (simp_all add: dirrewrite_block_def)
  have f: "de_inode ?b2 i = de_inode ?b1 i" "de_rec_len ?b2 i = de_rec_len ?b1 i" "de_name_len ?b2 i = de_name_len ?b1 i"
    "de_name ?b2 i = de_name ?b1 i" "de_file_type ?b2 i = ft"
    using l o1(4) by (simp_all add: b2(1) de_inode_def de_rec_len_def de_name_len_def de_name_def de_file_type_def le32_def le16_def drop_update_cancel)
  have "entry_ok ?b2 i" "entry_at ?b2 i = e\<lparr>e_inode := ino, e_file_type := ft\<rparr>" "de_rec_len ?b2 i = de_rec_len b i"
  proof -
    have "de_inode ?b1 i = ino" "de_name ?b1 i = e_name e"
      using arg_cong [OF o1(2), of e_inode] arg_cong [OF o1(2), of e_name] by (simp_all add: entry_at_def)
    then show "entry_at ?b2 i = e\<lparr>e_inode := ino, e_file_type := ft\<rparr>" using f by (cases e) (simp add: entry_at_def)
    show "entry_ok ?b2 i" "de_rec_len ?b2 i = de_rec_len b i" using o1 f b2(2) by (auto simp: entry_ok_def)
  qed
  then show ?thesis using si(5) o1(4) l b2 by (intro holds_change [OF assms(1,2)]) auto
qed

section \<open>Properties\<close>

text \<open>
  C4: entering an entry by compaction is correct at the level of bytes. When the range given to it holds whole entries, it does not
  loop or leave the block; if the used entries and the new one fit, it returns a block in which the
  range holds the used entries in their order, none of them damaged by the overlapping copies, followed by
  the new one, which takes all the space left, and nothing outside of the range has changed; otherwise it panics. This is so
  for \<^verbatim>\<open>ext2_direnter\<close> and for \<^verbatim>\<open>ext2fs_add_entry\<close> with its narrower arithmetic.
\<close>

theorem direnter_block_correct:
  assumes "holds b base es (base + count)" "es \<noteq> []" "length b < 65536" "new_ok e" "2 \<le> length junk" "f \<in> {direnter_block, add_entry_block}"
  shows "if used es + needed e \<le> count then \<exists>b'. f e junk b base count = Some (Return b') \<and> entered b base count es e b'
    else f e junk b base count = Some (Panic Compact_space)"
proof (cases "f = direnter_block")
  case True
  then show ?thesis using compact_entries_ok [OF assms(1-5), of "\<lambda>x. x" "\<lambda>x. x" "\<lambda>x. x"] by (simp add: direnter_block_def)
next
  case False
  then have "f = add_entry_block" using assms(6) by blast
  moreover have "int32 x = x \<and> int (uint32 x) = x \<and> int (ulong x) = x" if "0 \<le> x" "x < 65536" for x
    using that by (simp add: int32_id uint32_def ulong_def)
  ultimately show ?thesis using compact_entries_ok [OF assms(1-5), of int32 "\<lambda>x. int (uint32 x)" "\<lambda>x. int (ulong x)"] by (simp add: add_entry_block_def)
qed

lemma sample_block_holds: "holds sample_block 0 [\<lparr>e_inode = 2, e_file_type = 2, e_name = [46]\<rparr>] (0 + 24)"
  by (simp add: sample_block_def entry_ok_def entry_at_def de_inode_def de_rec_len_def de_name_len_def de_file_type_def de_name_def le32_def le16_def EXT2_DIR_REC_LEN_def)

theorem direnter_block_correct_witness:
  "\<exists>b'. direnter_block sample_new [0, 0] sample_block 0 24 = Some (Return b') \<and>
     entered sample_block 0 24 [\<lparr>e_inode = 2, e_file_type = 2, e_name = [46]\<rparr>] sample_new b'"
proof -
  have "length sample_block < 65536" "new_ok sample_new" by (simp_all add: sample_block_def sample_new_def new_ok_def)
  moreover have "used [\<lparr>e_inode = 2, e_file_type = 2, e_name = [46]\<rparr>] + needed sample_new \<le> 24"
    by (simp add: used_def live_def needed_def sample_new_def EXT2_DIR_REC_LEN_def)
  ultimately show ?thesis using direnter_block_correct [OF sample_block_holds, of sample_new "[0, 0]" direnter_block] by simp
qed

text \<open>
  C31: \<^verbatim>\<open>ext2_dirempty\<close> ends and, on a directory that holds whole entries and can be read, is true exactly when every used entry
  is \<open>.\<close> or is \<open>..\<close> and refers to the parent.
\<close>

theorem ext2_dirempty_correct:
  assumes "holds F 0 es (length F)" "\<And>i. i + 12 \<le> length F \<Longrightarrow> rd i = Inr (take 12 (drop i F))"
  shows "ext2_dirempty rd (length F) parentino \<longleftrightarrow> list_all (dot_entry parentino) (filter live es)"
  using dirempty_loop_ok [OF assms] by (simp add: ext2_dirempty_def)

theorem ext2_dirempty_correct_witness:
  "ext2_dirempty (\<lambda>i. Inr (take 12 (drop i sample_block))) (length sample_block) 7"
proof -
  have "holds sample_block 0 [\<lparr>e_inode = 2, e_file_type = 2, e_name = [46]\<rparr>] (length sample_block)"
    using sample_block_holds by (simp add: sample_block_def)
  then show ?thesis by (rule iffD2 [OF ext2_dirempty_correct]) (simp_all add: dot_entry_def)
qed

text \<open>
  The tables that convert file types agree: the type of an entry survives the conversion to the type of the host and back. The
  bound of the conversions is one too large: with the number of entries as the index they deliver the
  byte behind the table.
\<close>

theorem ft_dt_roundtrip:
  "(ft < 8 \<longrightarrow> DTTOFT x (FTTODT y ft) = ft) \<and> FTTODT y 8 = y \<and> DTTOFT x 15 = x"
proof -
  have "ft < 8 \<Longrightarrow> ft \<in> {0, 1, 2, 3, 4, 5, 6, 7}" by auto
  then show ?thesis by (auto simp: FTTODT_def DTTOFT_def ext2_ft_to_dt_def dt_to_ext2_ft_def)
qed

theorem ft_dt_roundtrip_witness: "DTTOFT 0 (FTTODT 0 7) = 7"
  using ft_dt_roundtrip [of 7 0 0] by simp

end
