(* ===== verification/Ext2_Lookup.thy ===== *)
theory Ext2_Lookup
  imports Ext2_Dir "HOL-Library.Multiset"
begin

text \<open>
  Linear directories, from \<^verbatim>\<open>ext2_lookup.c\<close>: \<^verbatim>\<open>ext2_lookupi\<close> with
  its search for a slot for a new entry, and the parts of \<^verbatim>\<open>ext2_direnter\<close> and \<^verbatim>\<open>ext2_dirremove\<close> that use what the search has left in the
  inode of the directory. The environment holds what the routines read of the mount, the read of a block of the directory, whether
  the caller asked for the vnode (\<^verbatim>\<open>vpp\<close>), the user, and \<^verbatim>\<open>EXT2_VGET\<close>, of which the code uses the error or the owner of the file. Sizes of blocks are powers of two, so masks are remainders.

  Offsets in a directory are of the type \<^verbatim>\<open>doff_t\<close>, a signed integer of 32 bits, and natural numbers here. The conversions are written
  out where the code has them, with 0 for a negative result, and the directories of the theorems are shorter than \<open>2\<^sup>3\<^sup>1\<close> bytes.
\<close>

section \<open>Data\<close>

datatype slotstatus = NONE | COMPACT | FOUND

record ext2fs_searchslot =
  slotstatus :: slotstatus
  slotoffset :: int
  slotsize :: int
  slotfreespace :: int
  slotneeded :: int

datatype nameiop = LOOKUP | CREATE | DELETE | RENAME

record componentname =
  cn_nameiop :: nameiop
  cn_islast :: bool
  cn_wantparent :: bool
  cn_isdotdot :: bool
  cn_name :: "u8 list"

record dir_env =
  dirchk :: bool
  env_rdonly :: bool
  env_blocksize_bits :: nat
  env_iosize :: nat
  env_bsize :: nat
  env_vpp :: bool
  env_uid :: nat
  env_vget :: "nat \<Rightarrow> errno + nat"
  env_inodes_count :: nat
  env_bread :: "nat \<Rightarrow> errno + u8 list"

text \<open>The fields of \<^verbatim>\<open>struct inode\<close> that the lookup uses.\<close>

record dir_inode =
  dir_number :: nat
  dir_size :: nat
  dir_nlink :: nat
  dir_mode :: u16
  dir_uid :: nat
  i_diroff :: nat
  i_offset :: nat
  i_count :: nat
  i_endoff :: nat
  i_ino :: nat
  i_reclen :: nat

text \<open>The variables of the search loop; \<open>sc_offset\<close> is \<^verbatim>\<open>dp->i_offset\<close> and \<open>sc_bp\<close> the contents of the current block.\<close>

record scan =
  sc_offset :: nat
  sc_entryoff :: nat
  sc_bp :: "u8 list"
  sc_ss :: ext2fs_searchslot
  sc_prevoff :: nat
  sc_enduseful :: nat

datatype search_end = Search_found nat nat | Search_end | Search_error errno

text \<open>
  How a lookup ends: the entry was found, it may be created (\<^verbatim>\<open>EJUSTRETURN\<close>), or there was an error. \<open>Found_no_vnode\<close> is a
  return of 0 that leaves \<^verbatim>\<open>*vpp\<close> unset although the caller asked for the vnode.
\<close>

datatype lookup_end = Found | Found_no_vnode | Create | Failed errno

section \<open>Operations\<close>

definition DIRBLKSIZ :: "dir_env \<Rightarrow> nat" where
  "DIRBLKSIZ env = 2 ^ env_blocksize_bits env"

definition roundup :: "nat \<Rightarrow> nat \<Rightarrow> nat" where
  "roundup x y = (x + (y - 1)) div y * y"

definition doff :: "nat \<Rightarrow> nat" where
  "doff x = nat (int32 (int x))"

text \<open>The block of a byte of the directory; the byte is at \<open>off mod DIRBLKSIZ env\<close> in it.\<close>

definition ext2_blkatoff :: "dir_env \<Rightarrow> nat \<Rightarrow> errno + u8 list" where
  "ext2_blkatoff env off = env_bread env (off div DIRBLKSIZ env)"

definition slot_check :: "nat \<Rightarrow> nat \<Rightarrow> nat \<Rightarrow> nat \<Rightarrow> ext2fs_searchslot \<Rightarrow> ext2fs_searchslot" where
  "slot_check off rl ino nl ss =
     (if slotstatus ss \<noteq> FOUND then
        let size = int rl - (if ino \<noteq> 0 then int (EXT2_DIR_REC_LEN nl) else 0) in
        if size > 0 then
          if size \<ge> slotneeded ss then ss\<lparr>slotstatus := FOUND, slotoffset := int off, slotsize := int rl\<rparr>
          else if slotstatus ss = NONE then
            let ss = ss\<lparr>slotfreespace := slotfreespace ss + size\<rparr>;
                ss = (if slotoffset ss = -1 then ss\<lparr>slotoffset := int off\<rparr> else ss) in
            if slotfreespace ss \<ge> slotneeded ss
            then ss\<lparr>slotstatus := COMPACT, slotsize := int off + int rl - slotoffset ss\<rparr>
            else ss
          else ss
        else ss
      else ss)"

text \<open>The start of a turn of the loop: a new block is read, and the search for free space starts again.\<close>

definition scan_load :: "dir_env \<Rightarrow> scan \<Rightarrow> errno + scan" where
  "scan_load env sc =
     (case (if sc_offset sc mod env_iosize env = 0 then
              case ext2_blkatoff env (sc_offset sc) of
                Inl error \<Rightarrow> Inl error
              | Inr b \<Rightarrow> Inr (sc\<lparr>sc_bp := b, sc_entryoff := 0\<rparr>)
            else Inr sc) of
        Inl error \<Rightarrow> Inl error
      | Inr sc \<Rightarrow>
          Inr (if slotstatus (sc_ss sc) = NONE \<and> sc_entryoff sc mod DIRBLKSIZ env = 0
               then sc\<lparr>sc_ss := (sc_ss sc)\<lparr>slotoffset := -1, slotfreespace := 0\<rparr>\<rparr> else sc))"

lemma scan_load_offset: "scan_load env sc = Inr sc' \<Longrightarrow> sc_offset sc' = sc_offset sc"
  by (auto simp: scan_load_def split: if_splits sum.splits)

lemma skip_progress:
  assumes "0 < n" "off < e"
  shows "e - (off + n - x mod n) < e - (off :: nat)"
  using assms mod_less_divisor [OF assms(1), of x] by linarith

function searchloop :: "dir_env \<Rightarrow> u8 list \<Rightarrow> nat \<Rightarrow> scan \<Rightarrow> (search_end \<times> scan) outcome" where
  "searchloop env name endsearch sc =
     (if sc_offset sc < endsearch then
        case scan_load env sc of
          Inl error \<Rightarrow> Return (Search_error error, sc)
        | Inr sc' \<Rightarrow>
            let b = sc_bp sc'; eo = sc_entryoff sc'; rl = de_rec_len b eo; ino = de_inode b eo; nl = de_name_len b eo in
            if length b < eo + 8 then Panic Wild_pointer
            else if rl = 0 \<or> dirchk env \<and> ext2_dirbadentry (DIRBLKSIZ env) (env_inodes_count env) b eo eo then
              if env_rdonly env then
                let i = DIRBLKSIZ env - eo mod DIRBLKSIZ env in
                searchloop env name endsearch (sc'\<lparr>sc_offset := sc_offset sc' + i, sc_entryoff := eo + i\<rparr>)
              else Panic Dirbad
            else if ino \<noteq> 0 \<and> nl = length name \<and> length b < eo + 8 + nl then Panic Wild_pointer
            else
              let sc' = sc'\<lparr>sc_ss := slot_check (sc_offset sc') rl ino nl (sc_ss sc')\<rparr> in
              if ino \<noteq> 0 \<and> nl = length name \<and> de_name b eo = name then Return (Search_found ino rl, sc')
              else
                searchloop env name endsearch
                  (sc'\<lparr>sc_prevoff := sc_offset sc', sc_offset := sc_offset sc' + rl, sc_entryoff := eo + rl,
                     sc_enduseful := (if ino \<noteq> 0 then sc_offset sc' + rl else sc_enduseful sc')\<rparr>)
      else Return (Search_end, sc))"
  by pat_completeness auto
termination
  by (relation "measure (\<lambda>(env, name, endsearch, sc). endsearch - sc_offset sc)")
    (auto dest!: scan_load_offset simp: DIRBLKSIZ_def skip_progress)

declare searchloop.simps [simp del]

text \<open>
  The search in one block. \<open>offset\<close> and the pointer \<open>ep\<close> are different variables, which the branch for a mangled entry
  does not keep equal. The result tells whether \<^verbatim>\<open>*foundp\<close> was set.
\<close>

partial_function (option) search_dirblock_loop :: "dir_env \<Rightarrow> u8 list \<Rightarrow> u8 list \<Rightarrow> scan \<Rightarrow> nat \<Rightarrow> nat \<Rightarrow> (bool \<times> scan) outcome option" where
  "search_dirblock_loop env data name sc offset ep =
     (if ep < DIRBLKSIZ env then
        let rl = de_rec_len data ep; ino = de_inode data ep; nl = de_name_len data ep in
        if length data < ep + 8 then Some (Panic Wild_pointer)
        else if rl = 0 \<or> dirchk env \<and> ext2_dirbadentry (DIRBLKSIZ env) (env_inodes_count env) data ep offset then
          if env_rdonly env then
            let i = DIRBLKSIZ env - offset mod DIRBLKSIZ env in
            search_dirblock_loop env data name (sc\<lparr>sc_offset := sc_offset sc + i\<rparr>) (offset + i) ep
          else Some (Panic Dirbad)
        else if ino \<noteq> 0 \<and> nl = length name \<and> length data < ep + 8 + nl then Some (Panic Wild_pointer)
        else
          let sc = sc\<lparr>sc_ss := slot_check (sc_offset sc) rl ino nl (sc_ss sc)\<rparr> in
          if ino \<noteq> 0 \<and> nl = length name \<and> de_name data ep = name then Some (Return (True, sc))
          else
            search_dirblock_loop env data name
              (sc\<lparr>sc_prevoff := sc_offset sc, sc_offset := sc_offset sc + rl, sc_entryoff := offset + rl,
                 sc_enduseful := (if rl \<noteq> 0 then sc_offset sc + rl else sc_enduseful sc)\<rparr>)
              (offset + rl) (offset + rl)
      else Some (Return (False, sc)))"

definition ext2_search_dirblock :: "dir_env \<Rightarrow> u8 list \<Rightarrow> u8 list \<Rightarrow> scan \<Rightarrow> (bool \<times> scan) outcome option" where
  "ext2_search_dirblock env data name sc = search_dirblock_loop env data name sc (sc_entryoff sc) (sc_entryoff sc)"

definition slot_start :: "componentname \<Rightarrow> ext2fs_searchslot" where
  "slot_start cnp =
     (let ss = \<lparr>slotstatus = FOUND, slotoffset = -1, slotsize = 0, slotfreespace = 0, slotneeded = 0\<rparr> in
      if (cn_nameiop cnp = CREATE \<or> cn_nameiop cnp = RENAME) \<and> cn_islast cnp
      then ss\<lparr>slotstatus := NONE, slotneeded := int (EXT2_DIR_REC_LEN (length (cn_name cnp)))\<rparr>
      else ss)"

text \<open>The number of passes is 2 when the search starts at the offset of the last one.\<close>

definition lookup_start :: "dir_env \<Rightarrow> dir_inode \<Rightarrow> componentname \<Rightarrow> errno + scan \<times> nat" where
  "lookup_start env dp cnp =
     (let sc = \<lparr>sc_offset = 0, sc_entryoff = 0, sc_bp = [], sc_ss = slot_start cnp, sc_prevoff = 0, sc_enduseful = 0\<rparr> in
      if cn_nameiop cnp \<noteq> LOOKUP \<or> i_diroff dp = 0 \<or> i_diroff dp > dir_size dp then Inr (sc, 1)
      else
        let eo = i_diroff dp mod env_iosize env;
            sc = sc\<lparr>sc_offset := i_diroff dp, sc_entryoff := eo, sc_prevoff := i_diroff dp\<rparr> in
        if eo \<noteq> 0 then
          case ext2_blkatoff env (i_diroff dp) of
            Inl error \<Rightarrow> Inl error
          | Inr b \<Rightarrow> Inr (sc\<lparr>sc_bp := b\<rparr>, 2)
        else Inr (sc, 2))"

text \<open>\<open>auth\<close> is the error of the authorization for changing the directory, if there is one.\<close>

definition lookup_notfound :: "dir_env \<Rightarrow> errno option \<Rightarrow> dir_inode \<Rightarrow> componentname \<Rightarrow> scan \<Rightarrow> lookup_end \<times> dir_inode" where
  "lookup_notfound env auth dp cnp sc =
     (let dp = dp\<lparr>i_offset := sc_offset sc\<rparr>; ss = sc_ss sc in
      if (cn_nameiop cnp = CREATE \<or> cn_nameiop cnp = RENAME) \<and> cn_islast cnp \<and> dir_nlink dp \<noteq> 0 then
        case auth of
          Some error \<Rightarrow> (Failed error, dp)
        | None \<Rightarrow>
            if slotstatus ss = NONE then
              let off = doff (roundup (dir_size dp) (DIRBLKSIZ env)) in
              (Create, dp\<lparr>i_offset := off, i_count := 0, i_endoff := roundup off (DIRBLKSIZ env)\<rparr>)
            else
              let slotend = nat (slotoffset ss + slotsize ss);
                  enduseful = (if sc_enduseful sc < slotend then slotend else sc_enduseful sc) in
              (Create, dp\<lparr>i_offset := nat (slotoffset ss), i_count := nat (slotsize ss), i_endoff := roundup enduseful (DIRBLKSIZ env)\<rparr>)
      else (Failed ENOENT, dp))"

text \<open>
  An entry was found: what the operation needs besides, with the search data already in \<open>dp\<close>. Without \<^verbatim>\<open>vpp\<close> there is no authorization and no vnode. In a sticky directory (\<^verbatim>\<open>ISVTX\<close>) a
  file is deleted by root, by the owner of the directory and by its own owner only. The error of \<^verbatim>\<open>EXT2_VGET\<close> for \<^verbatim>\<open>..\<close> is
  not stored: \<^verbatim>\<open>error\<close> is still 0 from the last read.
\<close>

definition found_result :: "dir_env \<Rightarrow> errno option \<Rightarrow> dir_inode \<Rightarrow> componentname \<Rightarrow> nat \<Rightarrow> lookup_end \<times> dir_inode" where
  "found_result env auth dp cnp prevoff =
     (if cn_nameiop cnp = DELETE \<and> cn_islast cnp then
        if env_vpp env \<and> auth \<noteq> None then (Failed (the auth), dp)
        else
          let dp = dp\<lparr>i_count := (if i_offset dp mod DIRBLKSIZ env = 0 then 0 else i_offset dp - prevoff)\<rparr> in
          if dir_number dp = i_ino dp then (Found, dp)
          else if env_vpp env then
            case env_vget env (i_ino dp) of
              Inl error \<Rightarrow> (Failed error, dp)
            | Inr uid \<Rightarrow>
                if dir_mode dp AND 0x200 \<noteq> 0 \<and> env_uid env \<noteq> 0 \<and> env_uid env \<noteq> dir_uid dp \<and> uid \<noteq> env_uid env
                then (Failed EPERM, dp) else (Found, dp)
          else (Found, dp)
      else if cn_nameiop cnp = RENAME \<and> cn_wantparent cnp \<and> cn_islast cnp then
        if env_vpp env \<and> auth \<noteq> None then (Failed (the auth), dp)
        else if dir_number dp = i_ino dp then (Failed EISDIR, dp)
        else if env_vpp env then
          case env_vget env (i_ino dp) of
            Inl error \<Rightarrow> (Failed error, dp)
          | Inr _ \<Rightarrow> (Found, dp)
        else (Found, dp)
      else if env_vpp env then
        if cn_isdotdot cnp then
          case env_vget env (i_ino dp) of
            Inl _ \<Rightarrow> (Found_no_vnode, dp)
          | Inr _ \<Rightarrow> (Found, dp)
        else if dir_number dp = i_ino dp then (Found, dp)
        else
          case env_vget env (i_ino dp) of
            Inl error \<Rightarrow> (Failed error, dp)
          | Inr _ \<Rightarrow> (Found, dp)
      else (Found, dp))"

definition lookup_found :: "dir_env \<Rightarrow> errno option \<Rightarrow> dir_inode \<Rightarrow> componentname \<Rightarrow> scan \<Rightarrow> nat \<Rightarrow> nat \<Rightarrow> (lookup_end \<times> dir_inode) outcome" where
  "lookup_found env auth dp cnp sc ino rl =
     (let dp = dp\<lparr>i_offset := sc_offset sc, i_ino := ino, i_reclen := rl\<rparr>;
          need = sc_entryoff sc + EXT2_DIR_REC_LEN (length (cn_name cnp)) in
      if need > dir_size dp \<and> \<not> env_rdonly env then Panic Dirbad
      else
        let dp = (if need > dir_size dp then dp\<lparr>dir_size := need\<rparr> else dp);
            dp = (if cn_islast cnp \<and> cn_nameiop cnp = LOOKUP
                  then dp\<lparr>i_diroff := i_offset dp - i_offset dp mod DIRBLKSIZ env\<rparr> else dp) in
        Return (found_result env auth dp cnp (sc_prevoff sc)))"

definition ext2_lookupi :: "dir_env \<Rightarrow> errno option \<Rightarrow> dir_inode \<Rightarrow> componentname \<Rightarrow> (lookup_end \<times> dir_inode) outcome" where
  "ext2_lookupi env auth dp cnp =
     (case lookup_start env dp cnp of
        Inl error \<Rightarrow> Return (Failed error, dp)
      | Inr (sc, numdirpasses) \<Rightarrow>
          bindp (bindp (searchloop env (cn_name cnp) (doff (roundup (dir_size dp) (DIRBLKSIZ env))) sc)
            (\<lambda>(r, sc). if r = Search_end \<and> numdirpasses = 2
                       then searchloop env (cn_name cnp) (i_diroff dp) (sc\<lparr>sc_offset := 0\<rparr>)
                       else Return (r, sc)))
            (\<lambda>(r, sc).
               case r of
                 Search_error error \<Rightarrow> Return (Failed error, dp\<lparr>i_offset := sc_offset sc\<rparr>)
               | Search_end \<Rightarrow> Return (lookup_notfound env auth dp cnp sc)
               | Search_found ino rl \<Rightarrow> lookup_found env auth dp cnp sc ino rl))"

text \<open>
  Entering into a slot: the result is the number and the new contents of the block and the size to which the directory is
  truncated afterwards, if it is. Entering into a fresh block: the offset and the bytes that are written, or
  \<open>None\<close> when the directory gets an index instead, which it does when it grows past one block and \<open>index\<close> tells that the volume has indexed directories.
\<close>

definition direnter_slot :: "dir_env \<Rightarrow> u8 list \<Rightarrow> dir_inode \<Rightarrow> ext2_dir_entry_2 \<Rightarrow> ((errno + nat \<times> u8 list \<times> nat option) \<times> dir_inode) outcome option" where
  "direnter_slot env junk dp newdir =
     (let dp = (if i_offset dp + i_count dp > dir_size dp then dp\<lparr>dir_size := i_offset dp + i_count dp\<rparr> else dp) in
      case ext2_blkatoff env (i_offset dp) of
        Inl error \<Rightarrow> Some (Return (Inl error, dp))
      | Inr b \<Rightarrow>
          bindo (direnter_block newdir junk b (i_offset dp mod DIRBLKSIZ env) (i_count dp)) (\<lambda>b.
          Some (Return (Inr (i_offset dp div DIRBLKSIZ env, b,
            if i_endoff dp \<noteq> 0 \<and> i_endoff dp < dir_size dp then Some (i_endoff dp) else None), dp))))"

definition direnter_fresh :: "dir_env \<Rightarrow> bool \<Rightarrow> u8 list \<Rightarrow> dir_inode \<Rightarrow> ext2_dir_entry_2 \<Rightarrow> (nat \<times> u8 list) option outcome" where
  "direnter_fresh env index junk dp newdir =
     (if i_offset dp mod DIRBLKSIZ env \<noteq> 0 then Panic Newblk
      else if dir_size dp div DIRBLKSIZ env = 1 \<and> index then Return None
      else if DIRBLKSIZ env > env_bsize env then Panic Frag_size
      else Return (Some (i_offset dp, entry_bytes newdir junk (DIRBLKSIZ env mod 65536))))"

definition ext2_dirremove :: "dir_env \<Rightarrow> dir_inode \<Rightarrow> errno + nat \<times> u8 list" where
  "ext2_dirremove env dp =
     (let off = i_offset dp - i_count dp in
      case ext2_blkatoff env off of
        Inl error \<Rightarrow> Inl error
      | Inr b \<Rightarrow> Inr (off div DIRBLKSIZ env, dirremove_block b (off mod DIRBLKSIZ env + i_count dp) (i_count dp) (i_reclen dp)))"

section \<open>Specifications\<close>

text \<open>A directory whose blocks can be read and hold the entries of the lists, and what is kept in its inode.\<close>

definition dir_holds :: "dir_env \<Rightarrow> u8 list list \<Rightarrow> ext2_dir_entry_2 list list \<Rightarrow> bool" where
  "dir_holds env blocks ess \<longleftrightarrow> length ess = length blocks \<and> DIRBLKSIZ env < 65536 \<and> env_iosize env = DIRBLKSIZ env \<and> DIRBLKSIZ env \<le> env_bsize env \<and>
     (\<forall>j < length blocks. length (blocks ! j) = DIRBLKSIZ env \<and> holds (blocks ! j) 0 (ess ! j) (DIRBLKSIZ env) \<and> env_bread env j = Inr (blocks ! j)) \<and>
     (\<forall>j < length blocks. \<forall>e \<in> set (ess ! j). e_inode e \<le> env_inodes_count env)"

definition dir_inode_ok :: "dir_env \<Rightarrow> u8 list list \<Rightarrow> dir_inode \<Rightarrow> bool" where
  "dir_inode_ok env blocks dp \<longleftrightarrow> dir_size dp = length blocks * DIRBLKSIZ env \<and> dir_size dp < 2 ^ 31 \<and> DIRBLKSIZ env dvd i_diroff dp"

definition matches :: "u8 list \<Rightarrow> ext2_dir_entry_2 \<Rightarrow> bool" where
  "matches name e \<longleftrightarrow> live e \<and> e_name e = name"

text \<open>A range of a block with whole entries and room for \<open>n\<close> more bytes.\<close>

definition slot_range :: "nat \<Rightarrow> u8 list list \<Rightarrow> ext2_dir_entry_2 list list \<Rightarrow> nat \<Rightarrow> nat \<Rightarrow> nat \<Rightarrow> bool" where
  "slot_range bs blocks ess n off cnt \<longleftrightarrow> (\<exists>j base xs es ys. j < length blocks \<and> off = j * bs + base \<and> base + cnt \<le> bs \<and> ess ! j = xs @ es @ ys \<and>
     holds (blocks ! j) 0 xs base \<and> holds (blocks ! j) base es (base + cnt) \<and> es \<noteq> [] \<and> used es + n \<le> cnt)"

text \<open>The slot after the entries \<open>xs\<close> of block \<open>j\<close>, which end at \<open>i\<close>; and the end of the used part of the directory.\<close>

definition slot_inv :: "nat \<Rightarrow> u8 list list \<Rightarrow> ext2_dir_entry_2 list list \<Rightarrow> nat \<Rightarrow> nat \<Rightarrow> ext2_dir_entry_2 list \<Rightarrow> nat \<Rightarrow> ext2fs_searchslot \<Rightarrow> bool" where
  "slot_inv bs blocks ess n j xs i ss \<longleftrightarrow> slotneeded ss = int n \<and>
     (slotstatus ss \<noteq> NONE \<longrightarrow> 0 \<le> slotoffset ss \<and> 0 \<le> slotsize ss \<and> slot_range bs blocks ess n (nat (slotoffset ss)) (nat (slotsize ss))) \<and>
     (slotstatus ss = NONE \<longrightarrow> slotoffset ss = -1 \<and> slotfreespace ss = 0 \<or>
        (\<exists>ws es base. xs = ws @ es \<and> es \<noteq> [] \<and> holds (blocks ! j) 0 ws base \<and> holds (blocks ! j) base es i \<and>
           slotoffset ss = int (j * bs + base) \<and> slotfreespace ss = int i - int base - int (used es)))"

definition useful_inv :: "nat \<Rightarrow> ext2_dir_entry_2 list list \<Rightarrow> nat \<Rightarrow> ext2_dir_entry_2 list \<Rightarrow> nat \<Rightarrow> bool" where
  "useful_inv bs ess j xs eu \<longleftrightarrow> (\<forall>k < j. list_ex live (ess ! k) \<longrightarrow> k * bs < eu) \<and> (list_ex live xs \<longrightarrow> j * bs < eu)"

definition scan_inv :: "nat option \<Rightarrow> nat \<Rightarrow> u8 list list \<Rightarrow> ext2_dir_entry_2 list list \<Rightarrow> nat \<Rightarrow> ext2_dir_entry_2 list \<Rightarrow> nat \<Rightarrow> scan \<Rightarrow> bool" where
  "scan_inv need bs blocks ess j xs i sc \<longleftrightarrow>
     (case need of None \<Rightarrow> True | Some n \<Rightarrow> 0 < n \<and> slot_inv bs blocks ess n j xs i (sc_ss sc) \<and> useful_inv bs ess j xs (sc_enduseful sc))"

definition loaded :: "nat \<Rightarrow> u8 list list \<Rightarrow> nat \<Rightarrow> nat \<Rightarrow> scan \<Rightarrow> bool" where
  "loaded bs blocks j i sc \<longleftrightarrow> sc_bp sc = blocks ! j \<and> sc_entryoff sc = i \<and> sc_offset sc = j * bs + i"

text \<open>The state before block \<open>j\<close>, and that an entry was found.\<close>

definition at_block :: "nat option \<Rightarrow> nat \<Rightarrow> u8 list list \<Rightarrow> ext2_dir_entry_2 list list \<Rightarrow> nat \<Rightarrow> scan \<Rightarrow> bool" where
  "at_block need bs blocks ess j sc \<longleftrightarrow> sc_offset sc = j * bs \<and>
     (case need of None \<Rightarrow> True
      | Some n \<Rightarrow> 0 < n \<and> slotneeded (sc_ss sc) = int n \<and> useful_inv bs ess j [] (sc_enduseful sc) \<and>
          (slotstatus (sc_ss sc) \<noteq> NONE \<longrightarrow> 0 \<le> slotoffset (sc_ss sc) \<and> 0 \<le> slotsize (sc_ss sc) \<and>
             slot_range bs blocks ess n (nat (slotoffset (sc_ss sc))) (nat (slotsize (sc_ss sc)))))"

definition found_at :: "nat \<Rightarrow> u8 list list \<Rightarrow> ext2_dir_entry_2 list list \<Rightarrow> u8 list \<Rightarrow> search_end \<times> scan \<Rightarrow> bool" where
  "found_at bs blocks ess name = (\<lambda>(r, sc). \<exists>k us e vs i. k < length blocks \<and> ess ! k = us @ e # vs \<and> matches name e \<and> holds (blocks ! k) 0 us i \<and>
     r = Search_found (e_inode e) (de_rec_len (blocks ! k) i) \<and> sc_offset sc = k * bs + i \<and> sc_entryoff sc = i \<and>
     (us \<noteq> [] \<longrightarrow> (\<exists>p. holds (blocks ! k) 0 (butlast us) p \<and> sc_prevoff sc = k * bs + p)))"

definition creating :: "componentname \<Rightarrow> bool" where
  "creating cnp \<longleftrightarrow> (cn_nameiop cnp = CREATE \<or> cn_nameiop cnp = RENAME) \<and> cn_islast cnp"

definition slot_need :: "componentname \<Rightarrow> nat option" where
  "slot_need cnp = (if creating cnp then Some (EXT2_DIR_REC_LEN (length (cn_name cnp))) else None)"

definition has_name :: "ext2_dir_entry_2 list list \<Rightarrow> u8 list \<Rightarrow> bool" where
  "has_name ess name \<longleftrightarrow> (\<exists>es \<in> set ess. list_ex (matches name) es)"

text \<open>The state after an entry that is not the one searched for.\<close>

definition scan_next :: "scan \<Rightarrow> nat \<Rightarrow> ext2_dir_entry_2 \<Rightarrow> scan" where
  "scan_next sc rl e = sc\<lparr>sc_ss := slot_check (sc_offset sc) rl (e_inode e) (length (e_name e)) (sc_ss sc), sc_prevoff := sc_offset sc,
     sc_offset := sc_offset sc + rl, sc_entryoff := sc_entryoff sc + rl, sc_enduseful := (if live e then sc_offset sc + rl else sc_enduseful sc)\<rparr>"

text \<open>The search in one or two passes.\<close>

definition lookup_search :: "dir_env \<Rightarrow> dir_inode \<Rightarrow> componentname \<Rightarrow> scan \<times> nat \<Rightarrow> (search_end \<times> scan) outcome" where
  "lookup_search env dp cnp = (\<lambda>(sc, numdirpasses).
     bindp (searchloop env (cn_name cnp) (doff (roundup (dir_size dp) (DIRBLKSIZ env))) sc)
       (\<lambda>(r, sc). if r = Search_end \<and> numdirpasses = 2
                  then searchloop env (cn_name cnp) (i_diroff dp) (sc\<lparr>sc_offset := 0\<rparr>)
                  else Return (r, sc)))"

text \<open>What a lookup that ended well leaves in the inode of the directory.\<close>

definition found_entry :: "dir_env \<Rightarrow> u8 list list \<Rightarrow> ext2_dir_entry_2 list list \<Rightarrow> componentname \<Rightarrow> dir_inode \<Rightarrow> bool" where
  "found_entry env blocks ess cnp dp \<longleftrightarrow> (\<exists>k us e vs i. k < length blocks \<and> ess ! k = us @ e # vs \<and> matches (cn_name cnp) e \<and>
     holds (blocks ! k) 0 us i \<and> i_offset dp = k * DIRBLKSIZ env + i \<and> i_ino dp = e_inode e \<and> i_reclen dp = de_rec_len (blocks ! k) i \<and>
     (cn_nameiop cnp = DELETE \<and> cn_islast cnp \<longrightarrow> (us = [] \<longrightarrow> i_count dp = 0) \<and>
        (us \<noteq> [] \<longrightarrow> 0 < i_count dp \<and> i_count dp \<le> i \<and> holds (blocks ! k) 0 (butlast us) (i - i_count dp))))"

text \<open>How the lookup of a name ends that the directory has, for the inode \<open>ino\<close>.\<close>

definition deleting :: "componentname \<Rightarrow> bool" where
  "deleting cnp \<longleftrightarrow> cn_nameiop cnp = DELETE \<and> cn_islast cnp"

definition renaming :: "componentname \<Rightarrow> bool" where
  "renaming cnp \<longleftrightarrow> cn_nameiop cnp = RENAME \<and> cn_islast cnp \<and> cn_wantparent cnp"

definition sticky_denied :: "dir_env \<Rightarrow> dir_inode \<Rightarrow> nat \<Rightarrow> bool" where
  "sticky_denied env dp uid \<longleftrightarrow> bit (dir_mode dp) 9 \<and> env_uid env \<notin> {0, dir_uid dp, uid}"

definition vnode_end :: "dir_env \<Rightarrow> dir_inode \<Rightarrow> componentname \<Rightarrow> nat \<Rightarrow> lookup_end" where
  "vnode_end env dp cnp ino =
     (case env_vget env ino of
        Inl error \<Rightarrow> if cn_isdotdot cnp \<and> \<not> deleting cnp \<and> \<not> renaming cnp then Found_no_vnode else Failed error
      | Inr uid \<Rightarrow> if deleting cnp \<and> sticky_denied env dp uid then Failed EPERM else Found)"

definition found_end :: "dir_env \<Rightarrow> errno option \<Rightarrow> dir_inode \<Rightarrow> componentname \<Rightarrow> nat \<Rightarrow> lookup_end" where
  "found_end env auth dp cnp ino =
     (if (deleting cnp \<or> renaming cnp) \<and> env_vpp env \<and> auth \<noteq> None then Failed (the auth)
      else if renaming cnp \<and> ino = dir_number dp then Failed EISDIR
      else if env_vpp env \<and> (ino \<noteq> dir_number dp \<or> cn_isdotdot cnp \<and> \<not> deleting cnp) then vnode_end env dp cnp ino
      else Found)"

definition slot_found :: "dir_env \<Rightarrow> u8 list list \<Rightarrow> ext2_dir_entry_2 list list \<Rightarrow> componentname \<Rightarrow> dir_inode \<Rightarrow> bool" where
  "slot_found env blocks ess cnp dp \<longleftrightarrow> DIRBLKSIZ env dvd i_endoff dp \<and>
     (\<forall>k < length blocks. list_ex live (ess ! k) \<longrightarrow> k * DIRBLKSIZ env < i_endoff dp) \<and>
     (if i_count dp = 0 then i_offset dp = dir_size dp
      else slot_range (DIRBLKSIZ env) blocks ess (EXT2_DIR_REC_LEN (length (cn_name cnp))) (i_offset dp) (i_count dp) \<and>
        i_offset dp + i_count dp \<le> i_endoff dp)"

text \<open>A directory of one block with one entry, for the examples below.\<close>

definition sample_dirblock :: "u8 list" where
  "sample_dirblock = [2, 0, 0, 0, 32, 0, 1, 2, 46, 0, 0, 0] @ replicate 20 0"

definition sample_env :: dir_env where
  "sample_env = \<lparr>dirchk = True, env_rdonly = False, env_blocksize_bits = 5, env_iosize = 32, env_bsize = 32, env_vpp = True, env_uid = 5, env_vget = (\<lambda>ino. if ino = 3 then Inr 6 else Inl EIO), env_inodes_count = 10, env_bread = (\<lambda>lbn. Inr sample_dirblock)\<rparr>"

definition sample_dp :: dir_inode where
  "sample_dp = \<lparr>dir_number = 2, dir_size = 32, dir_nlink = 2, dir_mode = 0x43FF, dir_uid = 0, i_diroff = 0, i_offset = 0, i_count = 0, i_endoff = 0, i_ino = 0, i_reclen = 0\<rparr>"

definition sample_fileblock :: "u8 list" where
  "sample_fileblock = [3, 0, 0, 0, 32, 0, 1, 1, 97, 0, 0, 0] @ replicate 20 0"

definition sample_file :: ext2_dir_entry_2 where
  "sample_file = \<lparr>e_inode = 3, e_file_type = 1, e_name = [97]\<rparr>"

definition sample_scan :: scan where
  "sample_scan = \<lparr>sc_offset = 0, sc_entryoff = 0, sc_bp = [],
     sc_ss = \<lparr>slotstatus = FOUND, slotoffset = -1, slotsize = 0, slotfreespace = 0, slotneeded = 0\<rparr>, sc_prevoff = 0, sc_enduseful = 0\<rparr>"

definition sample_dot :: ext2_dir_entry_2 where
  "sample_dot = \<lparr>e_inode = 2, e_file_type = 2, e_name = [46]\<rparr>"

section \<open>Lemmas\<close>

lemma doff_id: "x < 2 ^ 31 \<Longrightarrow> doff x = x"
  by (simp add: doff_def int32_int)

lemma roundup_mult: "0 < bs \<Longrightarrow> roundup (k * bs) bs = k * bs"
proof -
  assume "0 < bs"
  then have "((bs - 1) + k * bs) div bs = k + (bs - 1) div bs" by (intro div_mult_self1) simp
  also have "\<dots> = k" using \<open>0 < bs\<close> by simp
  finally show ?thesis by (simp only: roundup_def add.commute)
qed

lemma roundup_le: "0 < bs \<Longrightarrow> x \<le> roundup x bs \<and> bs dvd roundup x bs"
proof -
  assume bs: "0 < bs"
  have "(x + (bs - 1)) div bs * bs + (x + (bs - 1)) mod bs = x + (bs - 1)" by simp
  moreover have "(x + (bs - 1)) mod bs < bs" using bs by simp
  ultimately have "x \<le> (x + (bs - 1)) div bs * bs" by linarith
  then show ?thesis by (simp add: roundup_def)
qed

lemma holds_functional: "holds b lo es m \<Longrightarrow> holds b lo es m' \<Longrightarrow> m = m'"
  by (induction es arbitrary: lo) auto

lemma searchloop_entry:
  assumes "sc_offset sc < E" "scan_load env sc = Inr sc'" "loaded (DIRBLKSIZ env) blocks j i sc'" "length (blocks ! j) = DIRBLKSIZ env"
    and "entry_ok (blocks ! j) i" "entry_at (blocks ! j) i = e" "e_inode e \<le> env_inodes_count env"
  shows "searchloop env name E sc =
    (if matches name e then Return (Search_found (e_inode e) (de_rec_len (blocks ! j) i),
       sc'\<lparr>sc_ss := slot_check (sc_offset sc') (de_rec_len (blocks ! j) i) (e_inode e) (length (e_name e)) (sc_ss sc')\<rparr>)
     else searchloop env name E (scan_next sc' (de_rec_len (blocks ! j) i) e))"
proof -
  let ?b = "blocks ! j" and ?rl = "de_rec_len (blocks ! j) i"
  have l: "sc_bp sc' = ?b" "sc_entryoff sc' = i" using assms(3) by (simp_all add: loaded_def)
  have e: "de_inode ?b i = e_inode e" "de_name ?b i = e_name e" "de_name_len ?b i = length (e_name e)"
    using assms(6) name_length [OF assms(5)] by (auto simp: entry_at_def)
  note ok = assms(5) [unfolded entry_ok_def]
  have "EXT2_DIR_REC_LEN 1 = 12" by (simp add: EXT2_DIR_REC_LEN_def)
  moreover have "?rl mod 4 = 0" using ok by (simp add: dvd_eq_mod_eq_0)
  ultimately have nb: "\<not> (?rl = 0 \<or> dirchk env \<and> ext2_dirbadentry (DIRBLKSIZ env) (env_inodes_count env) ?b i i)"
    using ok e assms(4,7) by (auto simp: ext2_dirbadentry_def Let_def)
  have nw: "\<not> length ?b < i + 8" "\<not> length ?b < i + 8 + length (e_name e)"
    using ok e rec_len_bounds(1) [of "length (e_name e)"] by auto
  have lv: "live e \<longleftrightarrow> e_inode e \<noteq> 0" by (simp add: live_def)
  show ?thesis
    using assms(1) nb nw by (subst searchloop.simps) (auto simp: assms(2) Let_def l e matches_def lv scan_next_def)
qed

lemma slot_inv_none:
  assumes "slotneeded ss = int n" "slotstatus ss = NONE" "xs = ws @ es" "es \<noteq> []" "holds (blocks ! j) 0 ws base" "holds (blocks ! j) base es i"
    and "slotoffset ss = int (j * bs + base)" "slotfreespace ss = int i - int base - int (used es)"
  shows "slot_inv bs blocks ess n j xs i ss"
proof -
  have "\<exists>ws es base. xs = ws @ es \<and> es \<noteq> [] \<and> holds (blocks ! j) 0 ws base \<and> holds (blocks ! j) base es i \<and>
      slotoffset ss = int (j * bs + base) \<and> slotfreespace ss = int i - int base - int (used es)" using assms by blast
  then show ?thesis unfolding slot_inv_def using assms(1,2) by simp
qed

lemma slot_check_inv:
  assumes "slot_inv bs blocks ess n j xs i ss" "holds (blocks ! j) 0 xs i" "entry_ok (blocks ! j) i" "entry_at (blocks ! j) i = e"
    and "j < length blocks" "ess ! j = xs @ e # ys" "length (blocks ! j) = bs"
  shows "slot_inv bs blocks ess n j (xs @ [e]) (i + de_rec_len (blocks ! j) i)
    (slot_check (j * bs + i) (de_rec_len (blocks ! j) i) (e_inode e) (length (e_name e)) ss)"
proof -
  let ?B = "blocks ! j" and ?rl = "de_rec_len (blocks ! j) i"
  define size where "size = int ?rl - (if live e then int (needed e) else 0)"
  have nl: "de_name_len ?B i = length (e_name e)" using name_length [OF assms(3)] assms(4) by simp
  have rl: "needed e \<le> ?rl" "12 \<le> ?rl" "i + ?rl \<le> bs" using assms(3,7) nl by (simp_all add: entry_ok_def needed_def)
  have size: "0 \<le> size" using rl by (simp add: size_def)
  have he: "holds ?B i [e] (i + ?rl)" using assms(3,4) by simp
  have rng: "slot_range bs blocks ess n (j * bs + base) (i + ?rl - base)"
    if "xs = ws @ es" "holds ?B 0 ws base" "holds ?B base es i" "used (es @ [e]) + n \<le> i + ?rl - base" for ws es base
  proof -
    have b: "base \<le> i" using holds_le [OF that(3)] by simp
    have "holds ?B base (es @ [e]) (i + ?rl)" using that(3) he by (auto simp: holds_append)
    then show ?thesis unfolding slot_range_def using that assms(5,6) rl b
      by (intro exI [of _ j] exI [of _ base] exI [of _ ws] exI [of _ "es @ [e]"] exI [of _ ys]) simp
  qed
  have sc: "slot_check (j * bs + i) ?rl (e_inode e) (length (e_name e)) ss =
      (if slotstatus ss \<noteq> FOUND \<and> size > 0 then
         if size \<ge> slotneeded ss then ss\<lparr>slotstatus := FOUND, slotoffset := int (j * bs + i), slotsize := int ?rl\<rparr>
         else if slotstatus ss = NONE then
           let ss = ss\<lparr>slotfreespace := slotfreespace ss + size\<rparr>;
               ss = (if slotoffset ss = -1 then ss\<lparr>slotoffset := int (j * bs + i)\<rparr> else ss) in
           if slotfreespace ss \<ge> slotneeded ss
           then ss\<lparr>slotstatus := COMPACT, slotsize := int (j * bs + i) + int ?rl - slotoffset ss\<rparr>
           else ss
         else ss
       else ss)"
    unfolding slot_check_def by (simp add: size_def needed_def live_def Let_def)
  have ue: "int ?rl = size + int (used [e])" by (simp add: size_def)
  have n: "slotneeded ss = int n" using assms(1) by (simp add: slot_inv_def)
  consider (keep) "slotstatus ss = FOUND \<or> slotstatus ss = COMPACT \<and> (size = 0 \<or> size < int n)"
    | (found) "slotstatus ss \<noteq> FOUND" "0 < size" "int n \<le> size"
    | (zero) "slotstatus ss = NONE" "size = 0"
    | (more) "slotstatus ss = NONE" "0 < size" "size < int n"
    using size by (cases "slotstatus ss") force+
  then show ?thesis
  proof cases
    case keep
    then have "slot_check (j * bs + i) ?rl (e_inode e) (length (e_name e)) ss = ss" unfolding sc using n by auto
    then show ?thesis using assms(1) keep by (auto simp: slot_inv_def)
  next
    case found
    have "slot_range bs blocks ess n (j * bs + i) ?rl" using rng [of xs "[]" i] assms(2) found(3) ue by simp
    then show ?thesis unfolding sc using found n by (simp add: slot_inv_def del: of_nat_add of_nat_mult)
  next
    case zero
    then have eq: "slot_check (j * bs + i) ?rl (e_inode e) (length (e_name e)) ss = ss" unfolding sc by simp
    consider "slotoffset ss = -1" "slotfreespace ss = 0" | ws es base where "xs = ws @ es" "holds ?B 0 ws base" "holds ?B base es i"
        "slotoffset ss = int (j * bs + base)" "slotfreespace ss = int i - int base - int (used es)"
      using assms(1) zero(1) unfolding slot_inv_def by blast
    then show ?thesis
    proof cases
      case 1
      then show ?thesis unfolding eq using n zero(1) by (simp add: slot_inv_def)
    next
      case 2
      have "holds ?B base (es @ [e]) (i + ?rl)" using 2(3) he by (auto simp: holds_append)
      moreover have "slotfreespace ss = int (i + ?rl) - int base - int (used (es @ [e]))" using 2(5) ue zero(2) by simp
      ultimately show ?thesis unfolding eq by (intro slot_inv_none [of ss n _ ws "es @ [e]" _ _ base]) (use n zero(1) 2(1,2,4) in simp_all)
    qed
  next
    case more
    obtain ws es base where w: "xs = ws @ es" "holds ?B 0 ws base" "holds ?B base es i"
      "(if slotoffset ss = -1 then int (j * bs + i) else slotoffset ss) = int (j * bs + base)"
      "slotfreespace ss + size = int (i + ?rl) - int base - int (used (es @ [e]))"
    proof -
      consider "slotoffset ss = -1" "slotfreespace ss = 0" | ws es base where "xs = ws @ es" "holds ?B 0 ws base" "holds ?B base es i"
          "slotoffset ss = int (j * bs + base)" "slotfreespace ss = int i - int base - int (used es)"
        using assms(1) more(1) unfolding slot_inv_def by blast
      then show thesis
      proof cases
        case 1
        then show thesis using that [of xs "[]" i] assms(2) ue by simp
      next
        case 2
        then have "slotoffset ss \<noteq> -1" by (simp del: of_nat_add of_nat_mult)
        then show thesis using 2 that [of ws es base] ue by simp
      qed
    qed
    have he2: "holds ?B base (es @ [e]) (i + ?rl)" using w(3) he by (auto simp: holds_append)
    have b: "base \<le> i" using holds_le [OF w(3)] by simp
    let ?f = "slotfreespace ss + size"
    have eq: "slot_check (j * bs + i) ?rl (e_inode e) (length (e_name e)) ss =
        (if ?f \<ge> int n then ss\<lparr>slotfreespace := ?f, slotoffset := int (j * bs + base), slotstatus := COMPACT, slotsize := int (i + ?rl - base)\<rparr>
         else ss\<lparr>slotfreespace := ?f, slotoffset := int (j * bs + base)\<rparr>)"
      unfolding sc Let_def using more n w(4) b by (auto simp: of_nat_diff)
    show ?thesis
    proof (cases "?f \<ge> int n")
      case True
      have "used (es @ [e]) + n \<le> i + ?rl - base" using True w(5) b by linarith
      then have "slot_range bs blocks ess n (j * bs + base) (i + ?rl - base)" by (rule rng [OF w(1-3)])
      then show ?thesis unfolding eq slot_inv_def using True n by (simp del: of_nat_add of_nat_mult)
    next
      case False
      then show ?thesis unfolding eq by (simp only: if_False) (rule slot_inv_none [of _ n _ ws "es @ [e]" _ _ base], use n more(1) w(1,2,5) he2 in simp_all)
    qed
  qed
qed

lemma useful_step:
  assumes "useful_inv bs ess j xs eu" "0 < rl"
  shows "useful_inv bs ess j (xs @ [e]) (if live e then j * bs + i + rl else eu)"
proof -
  have "k * bs < j * bs + i + rl" if "k < j" for k
  proof -
    have "k * bs \<le> j * bs" using that by (simp add: mult_le_mono1)
    then show ?thesis using assms(2) by linarith
  qed
  then show ?thesis using assms by (cases "live e") (simp_all add: useful_inv_def)
qed

lemma scan_next_inv:
  assumes "scan_inv need bs blocks ess j xs i sc" "loaded bs blocks j i sc" "holds (blocks ! j) 0 xs i" "entry_ok (blocks ! j) i" "entry_at (blocks ! j) i = e"
    and "j < length blocks" "ess ! j = xs @ e # ys" "length (blocks ! j) = bs"
  shows "scan_inv need bs blocks ess j (xs @ [e]) (i + de_rec_len (blocks ! j) i) (scan_next sc (de_rec_len (blocks ! j) i) e)"
proof (cases need)
  case (Some n)
  then have a: "0 < n" "slot_inv bs blocks ess n j xs i (sc_ss sc)" "useful_inv bs ess j xs (sc_enduseful sc)" using assms(1) by (simp_all add: scan_inv_def)
  have o: "sc_offset sc = j * bs + i" using assms(2) by (simp add: loaded_def)
  have rl: "0 < de_rec_len (blocks ! j) i" using assms(4) by (simp add: entry_ok_def)
  show ?thesis unfolding scan_inv_def Some using a(1) slot_check_inv [OF a(2) assms(3-8)] useful_step [OF a(3) rl, of e i]
    by (simp add: scan_next_def o split: if_splits)
qed (simp add: scan_inv_def)

text \<open>The search through the rest of a block either ends at the first entry with the name or comes to the next block.\<close>

lemma block_scan:
  assumes "dir_holds env blocks ess" "j < length blocks" "(j + 1) * DIRBLKSIZ env \<le> E"
    and "ess ! j = xs @ rest" "holds (blocks ! j) 0 xs i" "holds (blocks ! j) i rest (DIRBLKSIZ env)" "rest \<noteq> []"
    and "scan_load env sc = Inr sc'" "loaded (DIRBLKSIZ env) blocks j i sc'" "scan_inv need (DIRBLKSIZ env) blocks ess j xs i sc'"
  shows "(\<exists>us e vs k sc2. rest = us @ e # vs \<and> matches name e \<and> holds (blocks ! j) 0 (xs @ us) k \<and>
       searchloop env name E sc = Return (Search_found (e_inode e) (de_rec_len (blocks ! j) k), sc2) \<and>
       sc_offset sc2 = j * DIRBLKSIZ env + k \<and> sc_entryoff sc2 = k \<and>
       (us = [] \<longrightarrow> sc_prevoff sc2 = sc_prevoff sc') \<and>
       (us \<noteq> [] \<longrightarrow> (\<exists>p. holds (blocks ! j) 0 (xs @ butlast us) p \<and> sc_prevoff sc2 = j * DIRBLKSIZ env + p))) \<or>
     (\<forall>e \<in> set rest. \<not> matches name e) \<and>
     (\<exists>sc2. searchloop env name E sc = searchloop env name E sc2 \<and> sc_offset sc2 = (j + 1) * DIRBLKSIZ env \<and>
       scan_inv need (DIRBLKSIZ env) blocks ess j (ess ! j) (DIRBLKSIZ env) sc2)"
  using assms(4-10)
proof (induction rest arbitrary: xs i sc sc')
  case (Cons e rest)
  let ?D = "DIRBLKSIZ env" and ?B = "blocks ! j" and ?rl = "de_rec_len (blocks ! j) i"
  have dh: "length ?B = ?D" "e_inode e \<le> env_inodes_count env" "env_iosize env = ?D"
    using assms(1,2) Cons.prems(1) by (auto simp: dir_holds_def)
  have e: "entry_ok ?B i" "entry_at ?B i = e" "holds ?B (i + ?rl) rest ?D" using Cons.prems(3) by simp_all
  have le: "i + ?rl \<le> ?D" "0 < ?rl" using e(1) dh(1) by (simp_all add: entry_ok_def)
  have off: "sc_offset sc' = j * ?D + i" "sc_offset sc' = sc_offset sc" using Cons.prems(6) scan_load_offset [OF Cons.prems(5)] by (simp_all add: loaded_def)
  have lt: "sc_offset sc < E" using off le assms(3) by simp
  note st = searchloop_entry [OF lt Cons.prems(5,6) dh(1) e(1,2) dh(2), of name]
  let ?n = "scan_next sc' ?rl e"
  have inv: "scan_inv need ?D blocks ess j (xs @ [e]) (i + ?rl) ?n"
    by (rule scan_next_inv [OF Cons.prems(7,6,2) e(1,2) assms(2) Cons.prems(1) dh(1)])
  have hx: "holds ?B 0 (xs @ [e]) (i + ?rl)" using Cons.prems(2) e by (auto simp: holds_append)
  have ld: "loaded ?D blocks j (i + ?rl) ?n" using Cons.prems(6) by (simp add: loaded_def scan_next_def)
  show ?case
  proof (cases "matches name e")
    case True
    then show ?thesis unfolding st using Cons.prems(2,6) by (intro disjI1 exI [of _ "[]"] exI [of _ e] exI [of _ rest] exI [of _ i]) (simp add: loaded_def)
  next
    case False
    then have st': "searchloop env name E sc = searchloop env name E ?n" using st by simp
    show ?thesis
    proof (cases "rest = []")
      case True
      then have i: "i + ?rl = ?D" using e(3) by simp
      have "sc_offset ?n = (j + 1) * ?D" using off i by (simp add: scan_next_def)
      moreover have "ess ! j = xs @ [e]" using Cons.prems(1) True by simp
      ultimately show ?thesis using False True st' inv i by (intro disjI2) auto
    next
      case rest: False
      then have lt: "i + ?rl < ?D" using holds_le [OF e(3)] by simp
      have "scan_load env ?n = Inr ?n" using lt le ld dh(3) by (simp add: scan_load_def loaded_def)
      note IH = Cons.IH [OF _ hx e(3) rest this ld inv]
      have pv: "sc_prevoff ?n = j * ?D + i" using off by (simp add: scan_next_def)
      consider (hit) us v vs k sc2 where "rest = us @ v # vs" "matches name v" "holds ?B 0 ((xs @ [e]) @ us) k"
          "searchloop env name E ?n = Return (Search_found (e_inode v) (de_rec_len ?B k), sc2)"
          "sc_offset sc2 = j * ?D + k" "sc_entryoff sc2 = k" "us = [] \<longrightarrow> sc_prevoff sc2 = sc_prevoff ?n"
          "us \<noteq> [] \<longrightarrow> (\<exists>p. holds ?B 0 ((xs @ [e]) @ butlast us) p \<and> sc_prevoff sc2 = j * ?D + p)"
        | (miss) sc2 where "\<forall>e \<in> set rest. \<not> matches name e" "searchloop env name E ?n = searchloop env name E sc2"
          "sc_offset sc2 = (j + 1) * ?D" "scan_inv need ?D blocks ess j (ess ! j) ?D sc2"
        using IH Cons.prems(1) by (simp, blast)
      then show ?thesis
      proof cases
        case hit
        have "\<exists>p. holds ?B 0 (xs @ butlast (e # us)) p \<and> sc_prevoff sc2 = j * ?D + p"
          using hit(7,8) pv Cons.prems(2) by (cases "us = []") auto
        then show ?thesis using hit st' by (intro disjI1 exI [of _ "e # us"] exI [of _ v] exI [of _ vs] exI [of _ k] exI [of _ sc2]) simp
      next
        case miss
        then show ?thesis using False st' by (intro disjI2) auto
      qed
    qed
  qed
qed simp


lemma load_block:
  assumes "dir_holds env blocks ess" "j < length blocks" "at_block need (DIRBLKSIZ env) blocks ess j sc"
  shows "\<exists>sc'. scan_load env sc = Inr sc' \<and> loaded (DIRBLKSIZ env) blocks j 0 sc' \<and> scan_inv need (DIRBLKSIZ env) blocks ess j [] 0 sc'"
proof -
  let ?D = "DIRBLKSIZ env"
  have D: "0 < ?D" by (simp add: DIRBLKSIZ_def)
  have b: "env_bread env j = Inr (blocks ! j)" "env_iosize env = ?D" using assms(1,2) by (simp_all add: dir_holds_def)
  have off: "sc_offset sc = j * ?D" using assms(3) by (simp add: at_block_def)
  let ?s = "sc\<lparr>sc_bp := blocks ! j, sc_entryoff := 0\<rparr>"
  let ?t = "if slotstatus (sc_ss sc) = NONE then ?s\<lparr>sc_ss := (sc_ss sc)\<lparr>slotoffset := -1, slotfreespace := 0\<rparr>\<rparr> else ?s"
  have "scan_load env sc = Inr ?t" using D by (simp add: scan_load_def off b ext2_blkatoff_def)
  moreover have "loaded ?D blocks j 0 ?t" using off by (simp add: loaded_def)
  moreover have "scan_inv need ?D blocks ess j [] 0 ?t" using assms(3) by (auto simp: scan_inv_def at_block_def slot_inv_def split: option.splits)
  ultimately show ?thesis by blast
qed

lemma next_block:
  assumes "scan_inv need bs blocks ess j (ess ! j) i sc" "sc_offset sc = (j + 1) * bs"
  shows "at_block need bs blocks ess (j + 1) sc"
  using assms by (auto simp: at_block_def scan_inv_def slot_inv_def useful_inv_def less_Suc_eq split: option.splits)

lemma dir_scan:
  assumes "dir_holds env blocks ess" "J \<le> length blocks" "j \<le> J" "at_block need (DIRBLKSIZ env) blocks ess j sc"
  shows "(\<exists>r. searchloop env name (J * DIRBLKSIZ env) sc = Return r \<and> found_at (DIRBLKSIZ env) blocks ess name r) \<or>
    (\<forall>k. j \<le> k \<and> k < J \<longrightarrow> list_all (\<lambda>e. \<not> matches name e) (ess ! k)) \<and>
    (\<exists>sc2. searchloop env name (J * DIRBLKSIZ env) sc = Return (Search_end, sc2) \<and> at_block need (DIRBLKSIZ env) blocks ess J sc2)"
  using assms(3,4)
proof (induction "J - j" arbitrary: j sc)
  case 0
  then have "j = J" by simp
  then have "searchloop env name (J * DIRBLKSIZ env) sc = Return (Search_end, sc)"
    using 0(3) by (subst searchloop.simps) (simp add: at_block_def)
  then show ?case using 0(3) \<open>j = J\<close> by auto
next
  case (Suc m)
  let ?D = "DIRBLKSIZ env" and ?B = "blocks ! j"
  have D: "0 < ?D" by (simp add: DIRBLKSIZ_def)
  have j: "j < J" "j < length blocks" using Suc(2,3) assms(2) by simp_all
  have E: "(j + 1) * ?D \<le> J * ?D" using j(1) by (intro mult_le_mono1) simp
  have h: "holds ?B 0 (ess ! j) ?D" using assms(1) j(2) by (simp add: dir_holds_def)
  have ne: "ess ! j \<noteq> []" using h D by (cases "ess ! j") auto
  obtain sc' where l: "scan_load env sc = Inr sc'" "loaded ?D blocks j 0 sc'" "scan_inv need ?D blocks ess j [] 0 sc'"
    using load_block [OF assms(1) j(2) Suc(4)] by blast
  consider (hit) us e vs k sc2 where "ess ! j = us @ e # vs" "matches name e" "holds ?B 0 us k"
      "searchloop env name (J * ?D) sc = Return (Search_found (e_inode e) (de_rec_len ?B k), sc2)"
      "sc_offset sc2 = j * ?D + k" "sc_entryoff sc2 = k" "us \<noteq> [] \<longrightarrow> (\<exists>p. holds ?B 0 (butlast us) p \<and> sc_prevoff sc2 = j * ?D + p)"
    | (miss) sc2 where "\<forall>e \<in> set (ess ! j). \<not> matches name e" "searchloop env name (J * ?D) sc = searchloop env name (J * ?D) sc2"
      "sc_offset sc2 = (j + 1) * ?D" "scan_inv need ?D blocks ess j (ess ! j) ?D sc2"
    using block_scan [OF assms(1) j(2) E, of "[]" "ess ! j" 0 sc sc' need name] h ne l by (simp, blast)
  then show ?case
  proof cases
    case hit
    then show ?thesis using j(2) unfolding found_at_def by (intro disjI1) auto
  next
    case miss
    have IH: "(\<exists>r. searchloop env name (J * ?D) sc2 = Return r \<and> found_at ?D blocks ess name r) \<or>
      (\<forall>k. j + 1 \<le> k \<and> k < J \<longrightarrow> list_all (\<lambda>e. \<not> matches name e) (ess ! k)) \<and>
      (\<exists>sc3. searchloop env name (J * ?D) sc2 = Return (Search_end, sc3) \<and> at_block need ?D blocks ess J sc3)"
      by (rule Suc(1)) (use Suc(2) j next_block [OF miss(4,3)] in simp_all)
    have "list_all (\<lambda>e. \<not> matches name e) (ess ! k)" if "j \<le> k" "k < J" "\<forall>k. j + 1 \<le> k \<and> k < J \<longrightarrow> list_all (\<lambda>e. \<not> matches name e) (ess ! k)" for k
    proof (cases "k = j")
      case False
      then have "j + 1 \<le> k" using that(1) by simp
      then show ?thesis using that(2,3) by blast
    qed (use miss(1) in \<open>simp add: list_all_iff\<close>)
    then show ?thesis using IH miss(2) by metis
  qed
qed

lemma lookup_start_ok:
  assumes "dir_holds env blocks ess" "dir_inode_ok env blocks dp"
  shows "\<exists>j sc np. lookup_start env dp cnp = Inr (sc, np) \<and> at_block (slot_need cnp) (DIRBLKSIZ env) blocks ess j sc \<and> j \<le> length blocks \<and>
    (np = 1 \<and> j = 0 \<or> np = 2 \<and> i_diroff dp = j * DIRBLKSIZ env \<and> slot_need cnp = None)"
proof -
  let ?D = "DIRBLKSIZ env"
  have D: "0 < ?D" by (simp add: DIRBLKSIZ_def)
  obtain j where j: "i_diroff dp = j * ?D" using assms(2) by (auto simp: dir_inode_ok_def dvd_def mult.commute)
  have io: "env_iosize env = ?D" using assms(1) by (simp add: dir_holds_def)
  have n: "0 < EXT2_DIR_REC_LEN (length (cn_name cnp))" using rec_len_bounds(1) [of "length (cn_name cnp)"] by linarith
  show ?thesis
  proof (cases "cn_nameiop cnp \<noteq> LOOKUP \<or> i_diroff dp = 0 \<or> i_diroff dp > dir_size dp")
    case True
    then show ?thesis using n unfolding lookup_start_def Let_def
      by (intro exI [of _ 0]) (auto simp: at_block_def slot_start_def slot_need_def creating_def useful_inv_def split: option.splits)
  next
    case False
    then have "j * ?D \<le> length blocks * ?D" "slot_need cnp = None" using assms(2) j by (auto simp: dir_inode_ok_def slot_need_def creating_def)
    then show ?thesis using False D j io unfolding lookup_start_def Let_def
      by (intro exI [of _ j]) (auto simp: at_block_def)
  qed
qed

lemma lookup_search_ok:
  assumes "dir_holds env blocks ess" "dir_inode_ok env blocks dp" "lookup_start env dp cnp = Inr s"
  shows "\<exists>r sc. lookup_search env dp cnp s = Return (r, sc) \<and>
    (found_at (DIRBLKSIZ env) blocks ess (cn_name cnp) (r, sc) \<and> has_name ess (cn_name cnp) \<or>
     r = Search_end \<and> \<not> has_name ess (cn_name cnp) \<and> (slot_need cnp \<noteq> None \<longrightarrow> at_block (slot_need cnp) (DIRBLKSIZ env) blocks ess (length blocks) sc))"
proof -
  let ?D = "DIRBLKSIZ env" and ?J = "length blocks" and ?name = "cn_name cnp"
  have D: "0 < ?D" by (simp add: DIRBLKSIZ_def)
  have E: "doff (roundup (dir_size dp) ?D) = ?J * ?D" using assms(2) D by (simp add: dir_inode_ok_def roundup_mult doff_id)
  have len: "length ess = ?J" using assms(1) by (simp add: dir_holds_def)
  obtain j sc np where s: "s = (sc, np)" "at_block (slot_need cnp) ?D blocks ess j sc" "j \<le> ?J"
    "np = 1 \<and> j = 0 \<or> np = 2 \<and> i_diroff dp = j * ?D \<and> slot_need cnp = None"
    using lookup_start_ok [OF assms(1,2), of cnp] assms(3) by auto
  have fn: "has_name ess ?name" if fa: "found_at ?D blocks ess ?name r" for r
  proof -
    obtain k us e vs where "k < ?J" "ess ! k = us @ e # vs" "matches ?name e" using fa unfolding found_at_def split_beta by blast
    then show ?thesis unfolding has_name_def using len nth_mem [of k ess] by (intro bexI [of _ "ess ! k"]) auto
  qed
  have none: "\<not> has_name ess ?name" if "\<forall>k < ?J. list_all (\<lambda>e. \<not> matches ?name e) (ess ! k)"
  proof
    assume "has_name ess ?name"
    then obtain es e where "es \<in> set ess" "e \<in> set es" "matches ?name e" by (auto simp: has_name_def list_ex_iff)
    moreover from this(1) obtain k where "k < length ess" "es = ess ! k" by (metis in_set_conv_nth)
    ultimately show False using that len by (auto simp: list_all_iff)
  qed
  consider (hit) r where "searchloop env ?name (?J * ?D) sc = Return r" "found_at ?D blocks ess ?name r"
    | (miss) sc2 where "\<forall>k. j \<le> k \<and> k < ?J \<longrightarrow> list_all (\<lambda>e. \<not> matches ?name e) (ess ! k)"
      "searchloop env ?name (?J * ?D) sc = Return (Search_end, sc2)" "at_block (slot_need cnp) ?D blocks ess ?J sc2"
    using dir_scan [OF assms(1) _ s(3,2), of ?name] by blast
  then show ?thesis
  proof cases
    case hit
    obtain q sc2 where r: "r = (q, sc2)" by (cases r)
    then have "q \<noteq> Search_end" using hit(2) by (auto simp: found_at_def)
    then show ?thesis using hit fn [OF hit(2)] r by (simp add: lookup_search_def s(1) E)
  next
    case miss
    show ?thesis
    proof (cases "np = 2")
      case False
      then have "j = 0" using s(4) by simp
      then show ?thesis using miss none False by (simp add: lookup_search_def s(1) E)
    next
      case True
      then have d: "i_diroff dp = j * ?D" "slot_need cnp = None" using s(4) by simp_all
      have "at_block None ?D blocks ess 0 (sc2\<lparr>sc_offset := 0\<rparr>)" by (simp add: at_block_def)
      from dir_scan [OF assms(1) s(3) _ this, of ?name]
      consider (hit2) r where "searchloop env ?name (j * ?D) (sc2\<lparr>sc_offset := 0\<rparr>) = Return r" "found_at ?D blocks ess ?name r"
        | (miss2) sc3 where "\<forall>k. k < j \<longrightarrow> list_all (\<lambda>e. \<not> matches ?name e) (ess ! k)"
          "searchloop env ?name (j * ?D) (sc2\<lparr>sc_offset := 0\<rparr>) = Return (Search_end, sc3)" by auto
      then show ?thesis
      proof cases
        case hit2
        then show ?thesis using miss(2) fn [OF hit2(2)] True d by (cases r) (auto simp: lookup_search_def s(1) E)
      next
        case miss2
        have "list_all (\<lambda>e. \<not> matches ?name e) (ess ! k)" if "k < ?J" for k using that miss(1) miss2(1) by (cases "k < j") auto
        then show ?thesis using miss(2) miss2(2) none True d by (simp add: lookup_search_def s(1) E)
      qed
    qed
  qed
qed

lemma ext2_lookupi_search:
  "ext2_lookupi env auth dp cnp =
     (case lookup_start env dp cnp of
        Inl error \<Rightarrow> Return (Failed error, dp)
      | Inr s \<Rightarrow>
          bindp (lookup_search env dp cnp s)
            (\<lambda>(r, sc).
               case r of
                 Search_error error \<Rightarrow> Return (Failed error, dp\<lparr>i_offset := sc_offset sc\<rparr>)
               | Search_end \<Rightarrow> Return (lookup_notfound env auth dp cnp sc)
               | Search_found ino rl \<Rightarrow> lookup_found env auth dp cnp sc ino rl))"
  by (auto simp: ext2_lookupi_def lookup_search_def split: sum.splits prod.splits)

text \<open>How the lookup of a name that exists ends.\<close>

lemma found_result_eq:
  "found_result env auth dp cnp prev = (found_end env auth dp cnp (i_ino dp),
     if deleting cnp \<and> \<not> (env_vpp env \<and> auth \<noteq> None)
     then dp\<lparr>i_count := if i_offset dp mod DIRBLKSIZ env = 0 then 0 else i_offset dp - prev\<rparr> else dp)"
proof -
  have s: "dir_mode dp AND 0x200 = 0 \<longleftrightarrow> \<not> bit (dir_mode dp) 9" using and_exp_eq_0_iff_not_bit [of "dir_mode dp" 9] by simp
  consider "deleting cnp" "\<not> renaming cnp" | "\<not> deleting cnp" "renaming cnp" | "\<not> deleting cnp" "\<not> renaming cnp"
    by (auto simp: deleting_def renaming_def)
  then show ?thesis
  proof cases
    case 1
    then have "cn_nameiop cnp = DELETE \<and> cn_islast cnp" by (simp add: deleting_def)
    then show ?thesis using 1
      by (cases "env_vget env (i_ino dp)") (auto simp: found_result_def found_end_def vnode_end_def Let_def s sticky_denied_def)
  next
    case 2
    then have "\<not> (cn_nameiop cnp = DELETE \<and> cn_islast cnp)" "cn_nameiop cnp = RENAME \<and> cn_wantparent cnp \<and> cn_islast cnp"
      by (auto simp: deleting_def renaming_def)
    then show ?thesis using 2 by (auto simp: found_result_def found_end_def vnode_end_def split: sum.splits)
  next
    case 3
    then have "\<not> (cn_nameiop cnp = DELETE \<and> cn_islast cnp)" "\<not> (cn_nameiop cnp = RENAME \<and> cn_wantparent cnp \<and> cn_islast cnp)"
      by (auto simp: deleting_def renaming_def)
    then show ?thesis using 3 by (auto simp: found_result_def found_end_def vnode_end_def split: sum.splits)
  qed
qed

lemma lookup_found_ok:
  assumes "dir_holds env blocks ess" "dir_inode_ok env blocks dp" "found_at (DIRBLKSIZ env) blocks ess (cn_name cnp) (Search_found ino rl, sc)"
  shows "\<exists>dp'. lookup_found env auth dp cnp sc ino rl = Return (found_end env auth dp cnp ino, dp') \<and> i_ino dp' = ino \<and>
    dir_inode_ok env blocks dp' \<and> (deleting cnp \<and> env_vpp env \<and> auth \<noteq> None \<or> found_entry env blocks ess cnp dp')"
proof -
  let ?D = "DIRBLKSIZ env"
  have D: "0 < ?D" by (simp add: DIRBLKSIZ_def)
  obtain k us e vs i where f: "k < length blocks" "ess ! k = us @ e # vs" "matches (cn_name cnp) e" "holds (blocks ! k) 0 us i"
      "ino = e_inode e" "rl = de_rec_len (blocks ! k) i" "sc_offset sc = k * ?D + i" "sc_entryoff sc = i"
      "us \<noteq> [] \<longrightarrow> (\<exists>p. holds (blocks ! k) 0 (butlast us) p \<and> sc_prevoff sc = k * ?D + p)"
    using assms(3) unfolding found_at_def prod.case search_end.inject by blast
  have B: "length (blocks ! k) = ?D" "holds (blocks ! k) 0 (us @ e # vs) ?D" using assms(1) f(1,2) by (auto simp: dir_holds_def)
  then obtain m where "holds (blocks ! k) 0 us m" "holds (blocks ! k) m (e # vs) ?D" by (auto simp: holds_append)
  then have e: "entry_ok (blocks ! k) i" "entry_at (blocks ! k) i = e" using holds_functional [OF f(4)] by auto
  have nm: "e_name e = cn_name cnp" using f(3) by (simp add: matches_def)
  have r: "i + EXT2_DIR_REC_LEN (length (cn_name cnp)) \<le> ?D" "i < ?D"
    using e(1) B(1) name_length [OF e(1)] e(2) nm by (auto simp: entry_ok_def)
  have "(k + 1) * ?D \<le> length blocks * ?D" using f(1) by (intro mult_le_mono1) simp
  then have sz: "\<not> i + EXT2_DIR_REC_LEN (length (cn_name cnp)) > dir_size dp" using assms(2) r by (simp add: dir_inode_ok_def)
  have md: "(k * ?D + i) mod ?D = i" using r by simp
  define dp1 where "dp1 = dp\<lparr>i_offset := sc_offset sc, i_ino := ino, i_reclen := rl\<rparr>"
  define dp2 where "dp2 = (if cn_islast cnp \<and> cn_nameiop cnp = LOOKUP then dp1\<lparr>i_diroff := i_offset dp1 - i_offset dp1 mod ?D\<rparr> else dp1)"
  have ok2: "dir_inode_ok env blocks dp2" "i_offset dp2 = k * ?D + i" "i_ino dp2 = e_inode e" "i_reclen dp2 = de_rec_len (blocks ! k) i"
    using assms(2) f md by (auto simp: dir_inode_ok_def dp2_def dp1_def)
  define cnt where "cnt = (if i = 0 then 0 else k * ?D + i - sc_prevoff sc)"
  have lf: "lookup_found env auth dp cnp sc ino rl =
      Return (found_end env auth dp cnp ino, if deleting cnp \<and> \<not> (env_vpp env \<and> auth \<noteq> None) then dp2\<lparr>i_count := cnt\<rparr> else dp2)"
  proof -
    have d: "dir_number dp2 = dir_number dp" "dir_mode dp2 = dir_mode dp" "dir_uid dp2 = dir_uid dp" "i_ino dp2 = ino" by (simp_all add: dp2_def dp1_def)
    then have "sticky_denied env dp2 = sticky_denied env dp" by (auto simp: sticky_denied_def)
    then have "found_end env auth dp2 cnp (i_ino dp2) = found_end env auth dp cnp ino" by (simp only: found_end_def vnode_end_def d)
    moreover have "lookup_found env auth dp cnp sc ino rl = Return (found_result env auth dp2 cnp (sc_prevoff sc))"
      using sz f(8) by (simp add: lookup_found_def Let_def dp2_def dp1_def)
    ultimately show ?thesis using ok2(2) md by (auto simp: found_result_eq cnt_def)
  qed
  have us0: "us = [] \<longleftrightarrow> i = 0" using f(4) holds_le [OF f(4)] by auto
  have cn: "(us = [] \<longrightarrow> cnt = 0) \<and> (us \<noteq> [] \<longrightarrow> 0 < cnt \<and> cnt \<le> i \<and> holds (blocks ! k) 0 (butlast us) (i - cnt))"
  proof (cases "us = []")
    case False
    then obtain p where p: "holds (blocks ! k) 0 (butlast us) p" "sc_prevoff sc = k * ?D + p" using f(9) by blast
    have "us = butlast us @ [last us]" using False by simp
    then obtain q where "holds (blocks ! k) 0 (butlast us) q" "holds (blocks ! k) q [last us] i" using f(4) holds_append [of "blocks ! k" 0 "butlast us" "[last us]" i] by auto
    then have "p < i" using holds_functional [OF p(1)] holds_le [of "blocks ! k" q "[last us]" i] by auto
    then show ?thesis using False us0 p by (simp add: cnt_def)
  qed (use us0 in \<open>simp add: cnt_def\<close>)
  have fe: "found_entry env blocks ess cnp d" if "i_offset d = k * ?D + i" "i_ino d = e_inode e" "i_reclen d = de_rec_len (blocks ! k) i"
      "cn_nameiop cnp = DELETE \<and> cn_islast cnp \<longrightarrow> i_count d = cnt" for d
    unfolding found_entry_def using f(1-4) that cn by blast
  show ?thesis
  proof (cases "deleting cnp \<and> \<not> (env_vpp env \<and> auth \<noteq> None)")
    case True
    then have "dir_inode_ok env blocks (dp2\<lparr>i_count := cnt\<rparr>)" "found_entry env blocks ess cnp (dp2\<lparr>i_count := cnt\<rparr>)"
      using ok2 fe [of "dp2\<lparr>i_count := cnt\<rparr>"] by (simp_all add: dir_inode_ok_def)
    then show ?thesis using True lf ok2 f(5) by auto
  next
    case False
    then show ?thesis using lf ok2 f(5) fe [of dp2] by (auto simp: deleting_def)
  qed
qed

lemma lookup_notfound_ok:
  assumes "dir_holds env blocks ess" "dir_inode_ok env blocks dp" "slot_need cnp \<noteq> None \<longrightarrow> at_block (slot_need cnp) (DIRBLKSIZ env) blocks ess (length blocks) sc"
  shows "\<exists>dp'. lookup_notfound env auth dp cnp sc =
      (if creating cnp \<and> dir_nlink dp \<noteq> 0 then case auth of Some error \<Rightarrow> Failed error | None \<Rightarrow> Create else Failed ENOENT, dp') \<and>
    dir_inode_ok env blocks dp' \<and> (creating cnp \<and> dir_nlink dp \<noteq> 0 \<and> auth = None \<longrightarrow> slot_found env blocks ess cnp dp')"
proof (cases "creating cnp \<and> dir_nlink dp \<noteq> 0 \<and> auth = None")
  case False
  then show ?thesis using assms(2) by (cases auth) (auto simp: lookup_notfound_def Let_def creating_def dir_inode_ok_def)
next
  case True
  let ?D = "DIRBLKSIZ env" and ?ss = "sc_ss sc"
  have D: "0 < ?D" by (simp add: DIRBLKSIZ_def)
  have sz: "dir_size dp = length blocks * ?D" using assms(2) by (simp add: dir_inode_ok_def)
  define n where "n = EXT2_DIR_REC_LEN (length (cn_name cnp))"
  have sn: "slot_need cnp = Some n" using True by (simp add: slot_need_def n_def)
  have ab: "0 < n" "useful_inv ?D ess (length blocks) [] (sc_enduseful sc)"
    "slotstatus ?ss \<noteq> NONE \<Longrightarrow> 0 \<le> slotoffset ?ss \<and> 0 \<le> slotsize ?ss \<and> slot_range ?D blocks ess n (nat (slotoffset ?ss)) (nat (slotsize ?ss))"
    using assms(3) sn by (auto simp: at_block_def)
  show ?thesis
  proof (cases "slotstatus ?ss = NONE")
    case none: True
    let ?d = "dp\<lparr>i_offset := length blocks * ?D, i_count := 0, i_endoff := length blocks * ?D\<rparr>"
    have "lookup_notfound env auth dp cnp sc = (Create, ?d)"
      using True none D assms(2) by (simp add: lookup_notfound_def Let_def creating_def sz roundup_mult doff_id dir_inode_ok_def)
    moreover have "slot_found env blocks ess cnp ?d" using D sz by (simp add: slot_found_def)
    ultimately show ?thesis using True assms(2) by (auto simp: dir_inode_ok_def)
  next
    case some: False
    define off where "off = nat (slotoffset ?ss)"
    define cnt where "cnt = nat (slotsize ?ss)"
    define eu where "eu = (if sc_enduseful sc < off + cnt then off + cnt else sc_enduseful sc)"
    have rg: "slot_range ?D blocks ess n off cnt" "nat (slotoffset ?ss + slotsize ?ss) = off + cnt"
      using ab(3) [OF some] by (simp_all add: off_def cnt_def nat_add_distrib)
    then have "0 < cnt" using ab(1) by (auto simp: slot_range_def)
    let ?d = "dp\<lparr>i_offset := off, i_count := cnt, i_endoff := roundup eu ?D\<rparr>"
    have "lookup_notfound env auth dp cnp sc = (Create, ?d)"
      using True some by (simp add: lookup_notfound_def Let_def creating_def rg(2) flip: off_def cnt_def eu_def)
    moreover have "slot_found env blocks ess cnp ?d"
    proof -
      have re: "eu \<le> roundup eu ?D" "?D dvd roundup eu ?D" using roundup_le [OF D, of eu] by simp_all
      have "sc_enduseful sc \<le> eu" "off + cnt \<le> eu" by (auto simp: eu_def)
      moreover have "k * ?D < sc_enduseful sc" if "k < length blocks" "list_ex live (ess ! k)" for k using ab(2) that by (simp add: useful_inv_def)
      ultimately show ?thesis unfolding slot_found_def using re rg(1) \<open>0 < cnt\<close> by (auto simp: n_def intro: less_le_trans)
    qed
    ultimately show ?thesis using True assms(2) by (auto simp: dir_inode_ok_def)
  qed
qed

lemma ext2_lookupi_correct_lemma:
  assumes "dir_holds env blocks ess" "dir_inode_ok env blocks dp"
  shows "\<exists>r dp'. ext2_lookupi env auth dp cnp = Return (r, dp') \<and> dir_inode_ok env blocks dp' \<and>
    (if has_name ess (cn_name cnp)
     then r = found_end env auth dp cnp (i_ino dp') \<and> (deleting cnp \<and> env_vpp env \<and> auth \<noteq> None \<or> found_entry env blocks ess cnp dp')
     else r = (if creating cnp \<and> dir_nlink dp \<noteq> 0 then case auth of Some error \<Rightarrow> Failed error | None \<Rightarrow> Create else Failed ENOENT) \<and>
       (r = Create \<longrightarrow> slot_found env blocks ess cnp dp'))"
proof -
  obtain s where s: "lookup_start env dp cnp = Inr s" using lookup_start_ok [OF assms, of cnp] by auto
  from lookup_search_ok [OF assms s]
  consider (hit) r sc where "lookup_search env dp cnp s = Return (r, sc)" "found_at (DIRBLKSIZ env) blocks ess (cn_name cnp) (r, sc)" "has_name ess (cn_name cnp)"
    | (miss) sc where "lookup_search env dp cnp s = Return (Search_end, sc)" "\<not> has_name ess (cn_name cnp)"
      "slot_need cnp \<noteq> None \<longrightarrow> at_block (slot_need cnp) (DIRBLKSIZ env) blocks ess (length blocks) sc" by blast
  then show ?thesis
  proof cases
    case hit
    then obtain ino rl where r: "r = Search_found ino rl" unfolding found_at_def by auto
    have eq: "ext2_lookupi env auth dp cnp = lookup_found env auth dp cnp sc ino rl" by (simp add: ext2_lookupi_search s hit(1) r)
    show ?thesis unfolding eq using lookup_found_ok [OF assms hit(2) [unfolded r], of auth] hit(3) by auto
  next
    case miss
    have eq: "ext2_lookupi env auth dp cnp = Return (lookup_notfound env auth dp cnp sc)" by (simp add: ext2_lookupi_search s miss(1))
    show ?thesis unfolding eq using lookup_notfound_ok [OF assms miss(3), of auth] miss(2)
      by (cases auth) (auto split: if_splits)
  qed
qed


lemma enter_slot_ok:
  assumes "dir_holds env blocks ess" "dir_inode_ok env blocks dp" "slot_found env blocks ess cnp dp" "i_count dp \<noteq> 0"
    and "new_ok newdir" "e_name newdir = cn_name cnp" "live newdir" "2 \<le> length junk"
  shows "\<exists>k b t es'. direnter_slot env junk dp newdir = Some (Return (Inr (k, b, t), dp)) \<and> k < length blocks \<and>
    length b = DIRBLKSIZ env \<and> holds b 0 es' (DIRBLKSIZ env) \<and> mset (filter live es') = add_mset newdir (mset (filter live (ess ! k))) \<and>
    (\<forall>n. t = Some n \<longrightarrow> DIRBLKSIZ env dvd n \<and> k * DIRBLKSIZ env < n \<and> (\<forall>m < length blocks. list_ex live (ess ! m) \<longrightarrow> m * DIRBLKSIZ env < n))"
proof -
  let ?D = "DIRBLKSIZ env" and ?c = "i_count dp"
  have D: "0 < ?D" by (simp add: DIRBLKSIZ_def)
  obtain j base xs es ys where s: "j < length blocks" "i_offset dp = j * ?D + base" "base + ?c \<le> ?D" "ess ! j = xs @ es @ ys"
      "holds (blocks ! j) 0 xs base" "holds (blocks ! j) base es (base + ?c)" "es \<noteq> []" "used es + needed newdir \<le> ?c"
    using assms(3,4,6) by (auto simp: slot_found_def slot_range_def needed_def)
  let ?B = "blocks ! j"
  have b: "length ?B = ?D" "?D < 65536" "holds ?B 0 (ess ! j) ?D" "env_bread env j = Inr ?B" using assms(1) s(1) by (simp_all add: dir_holds_def)
  obtain m1 m2 where m: "holds ?B 0 xs m1" "holds ?B m1 es m2" "holds ?B m2 ys ?D" using b(3) s(4) by (auto simp: holds_append)
  then have ys: "holds ?B (base + ?c) ys ?D" using holds_functional [OF s(5) m(1)] holds_functional [OF s(6)] by auto
  have lt: "base < ?D" using s(3) assms(4) by simp
  have dm: "(j * ?D + base) div ?D = j" "(j * ?D + base) mod ?D = base" using lt D by simp_all
  obtain b' where b': "direnter_block newdir junk ?B base ?c = Some (Return b')" "entered ?B base ?c es newdir b'"
    using compact_entries_ok [OF s(6,7) _ assms(5,8), of "\<lambda>x. x" "\<lambda>x. x" "\<lambda>x. x"] b(1,2) s(8) by (auto simp: direnter_block_def)
  let ?es = "xs @ (filter live es @ [newdir]) @ ys"
  have h: "holds b' 0 ?es ?D"
  proof -
    have len: "length b' = length ?B" using b'(2) by (simp add: entered_def)
    have "holds b' 0 xs base" by (rule holds_cong [OF s(5) len]) (use b'(2) b(1) lt in \<open>auto simp: entered_def\<close>)
    moreover have "holds b' (base + ?c) ys ?D" by (rule holds_cong [OF ys len]) (use b'(2) b(1) in \<open>auto simp: entered_def\<close>)
    moreover have "holds b' base (filter live es @ [newdir]) (base + ?c)" using b'(2) by (simp add: entered_def)
    ultimately show ?thesis using holds_append by metis
  qed
  have ms: "mset (filter live ?es) = add_mset newdir (mset (filter live (ess ! j)))" using s(4) assms(7) by simp
  have "(j + 1) * ?D \<le> length blocks * ?D" using s(1) by (intro mult_le_mono1) simp
  then have sz: "\<not> i_offset dp + ?c > dir_size dp" using assms(2) s(2,3) by (simp add: dir_inode_ok_def)
  let ?t = "if i_endoff dp \<noteq> 0 \<and> i_endoff dp < dir_size dp then Some (i_endoff dp) else None"
  have "direnter_slot env junk dp newdir = Some (Return (Inr (j, b', ?t), dp))"
    using sz lt b'(1) b(4) by (simp add: direnter_slot_def Let_def ext2_blkatoff_def s(2) dm)
  moreover have "\<forall>n. ?t = Some n \<longrightarrow> ?D dvd n \<and> j * ?D < n \<and> (\<forall>m < length blocks. list_ex live (ess ! m) \<longrightarrow> m * ?D < n)"
    using assms(3,4) s(2) by (auto simp: slot_found_def)
  moreover have "length b' = ?D" using b'(2) b(1) by (simp add: entered_def)
  ultimately show ?thesis using s(1) h ms by blast
qed

lemma enter_fresh_ok:
  assumes "DIRBLKSIZ env < 65536" "dir_inode_ok env blocks dp" "i_offset dp = dir_size dp" and b: "DIRBLKSIZ env \<le> env_bsize env"
    and "new_ok newdir" "2 \<le> length junk" "needed newdir \<le> DIRBLKSIZ env"
  shows "\<exists>bytes. direnter_fresh env index junk dp newdir = Return (if dir_size dp div DIRBLKSIZ env = 1 \<and> index then None else Some (dir_size dp, bytes)) \<and> length bytes \<le> DIRBLKSIZ env \<and>
    (\<forall>rest. length bytes + length rest = DIRBLKSIZ env \<longrightarrow> holds (bytes @ rest) 0 [newdir] (DIRBLKSIZ env))"
proof -
  let ?D = "DIRBLKSIZ env" and ?x = "entry_bytes newdir junk (DIRBLKSIZ env)"
  have x: "length ?x = needed newdir" by (rule entry_bytes_split(1) [OF assms(6)])
  have dv: "4 dvd ?D"
  proof -
    have "12 \<le> ?D" using needed_bounds(3) [of newdir] assms(5,7) by (simp add: new_ok_def)
    then have "2 \<le> env_blocksize_bits env" by (cases "env_blocksize_bits env"; cases "env_blocksize_bits env - 1") (auto simp: DIRBLKSIZ_def)
    then show ?thesis using le_imp_power_dvd [of 2 "env_blocksize_bits env" "2::nat"] by (simp add: DIRBLKSIZ_def)
  qed
  have "holds (?x @ rest) 0 [newdir] ?D" if "length ?x + length rest = ?D" for rest
  proof -
    let ?b = "replicate (length ?x) 0 @ rest"
    have "copyin ?b 0 ?x = ?x @ rest" by (simp add: copyin_def)
    moreover have "holds (copyin ?b 0 ?x) 0 ([] @ [newdir]) (0 + ?D)"
      by (rule place_new) (use assms that dv in simp_all)
    ultimately show ?thesis by simp
  qed
  moreover have "direnter_fresh env index junk dp newdir = Return (if dir_size dp div DIRBLKSIZ env = 1 \<and> index then None else Some (dir_size dp, ?x))"
    using assms(1-3) b by (simp add: direnter_fresh_def dir_inode_ok_def)
  moreover have "length ?x \<le> ?D" using x assms(7) by simp
  ultimately show ?thesis by blast
qed

text \<open>The search in one block.\<close>

lemma search_dirblock_loop_ok:
  assumes "length B = DIRBLKSIZ env" "holds B i es (DIRBLKSIZ env)" "\<forall>e \<in> set es. e_inode e \<le> env_inodes_count env" "sc_entryoff sc = i"
  shows "\<exists>f sc2. search_dirblock_loop env B name sc i i = Some (Return (f, sc2)) \<and>
    (if f then \<exists>us e vs k. es = us @ e # vs \<and> list_all (\<lambda>u. \<not> matches name u) us \<and> matches name e \<and> holds B i us k \<and>
        sc_entryoff sc2 = k \<and> sc_offset sc2 = sc_offset sc + (k - i)
     else list_all (\<lambda>u. \<not> matches name u) es)"
  using assms(2-4)
proof (induction es arbitrary: i sc)
  case Nil
  then have "search_dirblock_loop env B name sc i i = Some (Return (False, sc))" by (subst search_dirblock_loop.simps) simp
  then show ?case by auto
next
  case (Cons e es)
  let ?rl = "de_rec_len B i"
  have e: "entry_ok B i" "entry_at B i = e" "holds B (i + ?rl) es (DIRBLKSIZ env)" using Cons.prems(1) by simp_all
  have f: "de_inode B i = e_inode e" "de_name B i = e_name e" "de_name_len B i = length (e_name e)"
    using e(2) name_length [OF e(1)] by (auto simp: entry_at_def)
  note ok = e(1) [unfolded entry_ok_def]
  have lt: "i < DIRBLKSIZ env" using holds_le [OF Cons.prems(1)] by simp
  have "EXT2_DIR_REC_LEN 1 = 12" by (simp add: EXT2_DIR_REC_LEN_def)
  moreover have "?rl mod 4 = 0" using ok by (simp add: dvd_eq_mod_eq_0)
  ultimately have nb: "\<not> (?rl = 0 \<or> dirchk env \<and> ext2_dirbadentry (DIRBLKSIZ env) (env_inodes_count env) B i i)"
    using ok f assms(1) Cons.prems(2) by (auto simp: ext2_dirbadentry_def Let_def)
  have nw: "\<not> length B < i + 8" "\<not> length B < i + 8 + length (e_name e)"
    using ok f rec_len_bounds(1) [of "length (e_name e)"] by auto
  let ?sc1 = "sc\<lparr>sc_ss := slot_check (sc_offset sc) ?rl (e_inode e) (length (e_name e)) (sc_ss sc)\<rparr>"
  let ?sc2 = "?sc1\<lparr>sc_prevoff := sc_offset sc, sc_offset := sc_offset sc + ?rl, sc_entryoff := i + ?rl, sc_enduseful := sc_offset sc + ?rl\<rparr>"
  have st: "search_dirblock_loop env B name sc i i =
      (if matches name e then Some (Return (True, ?sc1)) else search_dirblock_loop env B name ?sc2 (i + ?rl) (i + ?rl))"
    using lt nb nw by (subst search_dirblock_loop.simps) (auto simp: Let_def f matches_def live_def)
  show ?case
  proof (cases "matches name e")
    case True
    then show ?thesis using st Cons.prems(3) by (intro exI [of _ True] exI [of _ ?sc1]) (auto intro!: exI [of _ "[]"])
  next
    case False
    obtain g sc3 where IH: "search_dirblock_loop env B name ?sc2 (i + ?rl) (i + ?rl) = Some (Return (g, sc3))"
      "if g then \<exists>us v vs k. es = us @ v # vs \<and> list_all (\<lambda>u. \<not> matches name u) us \<and> matches name v \<and> holds B (i + ?rl) us k \<and>
         sc_entryoff sc3 = k \<and> sc_offset sc3 = sc_offset ?sc2 + (k - (i + ?rl))
       else list_all (\<lambda>u. \<not> matches name u) es"
      using Cons.IH [OF e(3), of ?sc2] Cons.prems(2) by auto
    have eq: "search_dirblock_loop env B name sc i i = Some (Return (g, sc3))" using st False IH(1) by simp
    show ?thesis
    proof (cases g)
      case True
      then obtain us v vs k where u: "es = us @ v # vs" "list_all (\<lambda>u. \<not> matches name u) us" "matches name v" "holds B (i + ?rl) us k"
        "sc_entryoff sc3 = k" "sc_offset sc3 = sc_offset sc + ?rl + (k - (i + ?rl))" using IH(2) by auto
      have "i + ?rl \<le> k" using holds_le [OF u(4)] by simp
      then have "e # es = (e # us) @ v # vs \<and> list_all (\<lambda>u. \<not> matches name u) (e # us) \<and> matches name v \<and> holds B i (e # us) k \<and>
          sc_entryoff sc3 = k \<and> sc_offset sc3 = sc_offset sc + (k - i)" using u e False by simp
      then show ?thesis using eq True by (intro exI [of _ g] exI [of _ sc3]) (simp only: if_True, blast)
    next
      case g: False
      then show ?thesis using eq IH(2) False by (intro exI [of _ g] exI [of _ sc3]) simp
    qed
  qed
qed

lemma search_dirblock_loop_hangs:
  assumes "search_dirblock_loop env data name sc offset ep = Some y"
  shows "\<not> (env_rdonly env \<and> ep < DIRBLKSIZ env \<and> ep + 8 \<le> length data \<and> de_rec_len data ep = 0)"
proof (rule search_dirblock_loop.raw_induct [where P = "\<lambda>env data name sc offset ep y.
    \<not> (env_rdonly env \<and> ep < DIRBLKSIZ env \<and> ep + 8 \<le> length data \<and> de_rec_len data ep = 0)", OF _ assms], goal_cases)
  case (1 f env data name sc offset ep y)
  show ?case
  proof
    assume a: "env_rdonly env \<and> ep < DIRBLKSIZ env \<and> ep + 8 \<le> length data \<and> de_rec_len data ep = 0"
    let ?i = "DIRBLKSIZ env - offset mod DIRBLKSIZ env"
    have "f env data name (sc\<lparr>sc_offset := sc_offset sc + ?i\<rparr>) (offset + ?i) ep = Some y"
      using 1(2) a by (simp add: Let_def not_less)
    from 1(1) [OF this] a show False by simp
  qed
qed

section \<open>Properties\<close>

text \<open>
  C3: a lookup in a linear directory is correct. In a directory of less than \<open>2\<^sup>3\<^sup>1\<close> bytes whose blocks hold whole entries it never panics and never reads outside of a block,
  wherever the last search ended, and ends in one of these ways. If an entry with the name is in use, its inode number, offset and length are
  left in the inode, and the lookup ends as \<open>found_end\<close> tells: deleting or renaming fails with the error of the authorization when the
  caller wants the vnode, renaming onto the directory itself fails with EISDIR, and, when the vnode is wanted, an error of \<^verbatim>\<open>EXT2_VGET\<close> is returned (for \<^verbatim>\<open>..\<close> it is
  lost) and a user who owns neither a sticky directory nor the file cannot delete it; otherwise the entry is found. If not, the lookup fails with ENOENT
  or, when the name is to be created, with the error of the authorization, or it returns a place for the name: a range of whole entries with room for the new one, or
  the end of the directory. The offset to which the directory may be truncated afterwards lies behind every entry in use.
\<close>

theorem ext2_lookupi_correct:
  assumes "dir_holds env blocks ess" "dir_inode_ok env blocks dp"
  shows "\<exists>r dp'. ext2_lookupi env auth dp cnp = Return (r, dp') \<and> dir_inode_ok env blocks dp' \<and>
    (if has_name ess (cn_name cnp)
     then r = found_end env auth dp cnp (i_ino dp') \<and> (deleting cnp \<and> env_vpp env \<and> auth \<noteq> None \<or> found_entry env blocks ess cnp dp')
     else r = (if creating cnp \<and> dir_nlink dp \<noteq> 0 then case auth of Some error \<Rightarrow> Failed error | None \<Rightarrow> Create else Failed ENOENT) \<and>
       (r = Create \<longrightarrow> slot_found env blocks ess cnp dp'))"
  by (rule ext2_lookupi_correct_lemma [OF assms])

lemma sample_dir_ok: "dir_holds sample_env [sample_dirblock] [[sample_dot]]" "dir_inode_ok sample_env [sample_dirblock] sample_dp"
proof -
  have "holds sample_dirblock 0 [sample_dot] 32"
    by (simp add: sample_dirblock_def sample_dot_def entry_ok_def entry_at_def de_inode_def de_rec_len_def de_name_len_def de_file_type_def de_name_def le32_def le16_def EXT2_DIR_REC_LEN_def)
  then show "dir_holds sample_env [sample_dirblock] [[sample_dot]]"
    by (simp add: dir_holds_def sample_env_def DIRBLKSIZ_def sample_dirblock_def sample_dot_def)
  show "dir_inode_ok sample_env [sample_dirblock] sample_dp" by (simp add: dir_inode_ok_def sample_dp_def sample_env_def DIRBLKSIZ_def)
qed

lemma sample_file_ok: "dir_holds (sample_env\<lparr>env_bread := \<lambda>lbn. Inr sample_fileblock\<rparr>) [sample_fileblock] [[sample_file]]"
  "dir_inode_ok (sample_env\<lparr>env_bread := \<lambda>lbn. Inr sample_fileblock\<rparr>) [sample_fileblock] sample_dp"
proof -
  have "holds sample_fileblock 0 [sample_file] 32"
    by (simp add: sample_fileblock_def sample_file_def entry_ok_def entry_at_def de_inode_def de_rec_len_def de_name_len_def de_file_type_def de_name_def le32_def le16_def EXT2_DIR_REC_LEN_def)
  then show "dir_holds (sample_env\<lparr>env_bread := \<lambda>lbn. Inr sample_fileblock\<rparr>) [sample_fileblock] [[sample_file]]"
    by (simp add: dir_holds_def sample_env_def DIRBLKSIZ_def sample_fileblock_def sample_file_def)
  show "dir_inode_ok (sample_env\<lparr>env_bread := \<lambda>lbn. Inr sample_fileblock\<rparr>) [sample_fileblock] sample_dp"
    by (simp add: dir_inode_ok_def sample_dp_def sample_env_def DIRBLKSIZ_def)
qed

lemma found_entry_single: "found_entry env [b] [[e]] cnp dp \<Longrightarrow> i_ino dp = e_inode e"
  by (auto simp: found_entry_def Cons_eq_append_conv)

theorem ext2_lookupi_correct_witness:
  "(\<exists>dp'. ext2_lookupi sample_env None sample_dp \<lparr>cn_nameiop = LOOKUP, cn_islast = True, cn_wantparent = True, cn_isdotdot = False, cn_name = [46]\<rparr> = Return (Found, dp')) \<and>
   (\<exists>dp'. ext2_lookupi sample_env (Some EPERM) sample_dp \<lparr>cn_nameiop = RENAME, cn_islast = True, cn_wantparent = True, cn_isdotdot = False, cn_name = [46]\<rparr> = Return (Failed EPERM, dp')) \<and>
   (\<exists>dp'. ext2_lookupi (sample_env\<lparr>env_bread := \<lambda>lbn. Inr sample_fileblock\<rparr>) None sample_dp
      \<lparr>cn_nameiop = DELETE, cn_islast = True, cn_wantparent = True, cn_isdotdot = False, cn_name = [97]\<rparr> = Return (Failed EPERM, dp')) \<and>
   (\<exists>dp'. ext2_lookupi sample_env (Some EPERM) sample_dp \<lparr>cn_nameiop = LOOKUP, cn_islast = True, cn_wantparent = True, cn_isdotdot = False, cn_name = [97]\<rparr> = Return (Failed ENOENT, dp'))"
proof -
  have n: "has_name [[sample_dot]] [46]" "\<not> has_name [[sample_dot]] [97]" "has_name [[sample_file]] [97]"
    by (simp_all add: has_name_def matches_def live_def sample_dot_def sample_file_def)
  have i: "e_inode sample_dot = dir_number sample_dp" "e_inode sample_file = 3" "dir_number sample_dp = 2"
    by (simp_all add: sample_dot_def sample_file_def sample_dp_def)
  have v: "vnode_end (sample_env\<lparr>env_bread := rd\<rparr>) sample_dp \<lparr>cn_nameiop = DELETE, cn_islast = True, cn_wantparent = True, cn_isdotdot = False, cn_name = nm\<rparr> 3 = Failed EPERM" for rd nm
    by (simp add: vnode_end_def sample_env_def sample_dp_def sticky_denied_def deleting_def)
  have e: "env_vpp sample_env" by (simp add: sample_env_def)
  note s = found_end_def deleting_def renaming_def creating_def
  have "\<exists>dp'. ext2_lookupi sample_env None sample_dp \<lparr>cn_nameiop = LOOKUP, cn_islast = True, cn_wantparent = True, cn_isdotdot = False, cn_name = [46]\<rparr> = Return (Found, dp')"
    using ext2_lookupi_correct [OF sample_dir_ok, of None "\<lparr>cn_nameiop = LOOKUP, cn_islast = True, cn_wantparent = True, cn_isdotdot = False, cn_name = [46]\<rparr>"] n(1) i(1)
    by (auto simp: s dest!: found_entry_single)
  moreover have "\<exists>dp'. ext2_lookupi sample_env (Some EPERM) sample_dp \<lparr>cn_nameiop = RENAME, cn_islast = True, cn_wantparent = True, cn_isdotdot = False, cn_name = [46]\<rparr> = Return (Failed EPERM, dp')"
    using ext2_lookupi_correct [OF sample_dir_ok, of "Some EPERM" "\<lparr>cn_nameiop = RENAME, cn_islast = True, cn_wantparent = True, cn_isdotdot = False, cn_name = [46]\<rparr>"] n(1) e
    by (auto simp: s)
  moreover have "\<exists>dp'. ext2_lookupi (sample_env\<lparr>env_bread := \<lambda>lbn. Inr sample_fileblock\<rparr>) None sample_dp
      \<lparr>cn_nameiop = DELETE, cn_islast = True, cn_wantparent = True, cn_isdotdot = False, cn_name = [97]\<rparr> = Return (Failed EPERM, dp')"
    using ext2_lookupi_correct [OF sample_file_ok, of None "\<lparr>cn_nameiop = DELETE, cn_islast = True, cn_wantparent = True, cn_isdotdot = False, cn_name = [97]\<rparr>"] n(3) i(2,3) e v
    by (auto simp: s dest!: found_entry_single)
  moreover have "\<exists>dp'. ext2_lookupi sample_env (Some EPERM) sample_dp \<lparr>cn_nameiop = LOOKUP, cn_islast = True, cn_wantparent = True, cn_isdotdot = False, cn_name = [97]\<rparr> = Return (Failed ENOENT, dp')"
    using ext2_lookupi_correct [OF sample_dir_ok, of "Some EPERM" "\<lparr>cn_nameiop = LOOKUP, cn_islast = True, cn_wantparent = True, cn_isdotdot = False, cn_name = [97]\<rparr>"] n(2)
    by (auto simp: s)
  ultimately show ?thesis by blast
qed

text \<open>
  C6: creating a name: the lookup that does not find the name and the entering of the entry work together. Whatever slot the search has chosen, entering
  does not panic; exactly the new entry is added to the entries in use of one block, or a fresh block at the end of
  the directory holds just the new entry, unless the directory is to get an index; and if the directory is truncated afterwards, no block with an entry in use, nor
  the block of the new one, is cut off.
\<close>

theorem lookup_direnter:
  assumes "dir_holds env blocks ess" "dir_inode_ok env blocks dp" "creating cnp" "ext2_lookupi env None dp cnp = Return (Create, dp')"
    and "new_ok newdir" "e_name newdir = cn_name cnp" "live newdir" "2 \<le> length junk" "needed newdir \<le> DIRBLKSIZ env"
  shows "\<not> has_name ess (cn_name cnp) \<and>
    (if i_count dp' = 0
     then \<exists>bytes. direnter_fresh env index junk dp' newdir = Return (if dir_size dp div DIRBLKSIZ env = 1 \<and> index then None else Some (dir_size dp, bytes)) \<and> length bytes \<le> DIRBLKSIZ env \<and>
       (\<forall>rest. length bytes + length rest = DIRBLKSIZ env \<longrightarrow> holds (bytes @ rest) 0 [newdir] (DIRBLKSIZ env))
     else \<exists>k b t es'. direnter_slot env junk dp' newdir = Some (Return (Inr (k, b, t), dp')) \<and> k < length blocks \<and>
       length b = DIRBLKSIZ env \<and> holds b 0 es' (DIRBLKSIZ env) \<and> mset (filter live es') = add_mset newdir (mset (filter live (ess ! k))) \<and>
       (\<forall>n. t = Some n \<longrightarrow> DIRBLKSIZ env dvd n \<and> k * DIRBLKSIZ env < n \<and> (\<forall>m < length blocks. list_ex live (ess ! m) \<longrightarrow> m * DIRBLKSIZ env < n)))"
proof -
  obtain r d where l: "ext2_lookupi env None dp cnp = Return (r, d)" "dir_inode_ok env blocks d"
    "if has_name ess (cn_name cnp) then r \<noteq> Create else (r = Create \<longrightarrow> slot_found env blocks ess cnp d)"
    using ext2_lookupi_correct_lemma [OF assms(1,2), of None cnp] by (auto simp: found_end_def vnode_end_def split: if_splits sum.splits)
  then have d: "r = Create" "d = dp'" using assms(4) by simp_all
  then have n: "\<not> has_name ess (cn_name cnp)" and sf: "slot_found env blocks ess cnp dp'" using l(3) by (auto split: if_splits)
  have ok: "dir_inode_ok env blocks dp'" using l(2) d by simp
  have sz: "dir_size dp' = dir_size dp" using ok assms(2) by (simp add: dir_inode_ok_def)
  show ?thesis
  proof (cases "i_count dp' = 0")
    case True
    then have off: "i_offset dp' = dir_size dp'" using sf by (simp add: slot_found_def)
    have D: "DIRBLKSIZ env < 65536" "DIRBLKSIZ env \<le> env_bsize env" using assms(1) by (simp_all add: dir_holds_def)
    from enter_fresh_ok [OF D(1) ok off D(2) assms(5,8,9), of index, unfolded sz] show ?thesis using n True by (simp only: if_True simp_thms)
  next
    case False
    then show ?thesis using n enter_slot_ok [OF assms(1) ok sf False assms(5-8)] by simp
  qed
qed

theorem lookup_direnter_witness:
  "\<exists>dp'. ext2_lookupi sample_env None sample_dp \<lparr>cn_nameiop = CREATE, cn_islast = True, cn_wantparent = True, cn_isdotdot = False, cn_name = [97]\<rparr> = Return (Create, dp') \<and>
     (i_count dp' \<noteq> 0 \<longrightarrow> (\<exists>r. direnter_slot sample_env [0, 0] dp' sample_new = Some (Return (Inr r, dp'))))"
proof -
  let ?cnp = "\<lparr>cn_nameiop = CREATE, cn_islast = True, cn_wantparent = True, cn_isdotdot = False, cn_name = [97]\<rparr>"
  have no: "\<not> has_name [[sample_dot]] (cn_name ?cnp)" by (simp add: has_name_def matches_def sample_dot_def)
  have c: "creating ?cnp" "dir_nlink sample_dp \<noteq> 0" by (simp_all add: creating_def sample_dp_def)
  obtain dp' where l: "ext2_lookupi sample_env None sample_dp ?cnp = Return (Create, dp')"
    using ext2_lookupi_correct_lemma [OF sample_dir_ok, of None ?cnp] no c by auto
  have n: "new_ok sample_new" "e_name sample_new = cn_name ?cnp" "live sample_new" "2 \<le> length [0, 0 :: u8]" "needed sample_new \<le> DIRBLKSIZ sample_env"
    by (simp_all add: new_ok_def sample_new_def live_def needed_def EXT2_DIR_REC_LEN_def sample_env_def DIRBLKSIZ_def)
  show ?thesis using l lookup_direnter [OF sample_dir_ok c(1) l n] by (cases "i_count dp' = 0") auto
qed

text \<open>
  C7: removing a name: after a lookup for deletion that has found the name, removing takes exactly one entry with that name, out of the entries in use
  of one block, and the block still holds whole entries.
\<close>

theorem lookup_dirremove:
  assumes "dir_holds env blocks ess" "dir_inode_ok env blocks dp" "cn_nameiop cnp = DELETE" "cn_islast cnp"
    and "ext2_lookupi env auth dp cnp = Return (Found, dp')"
  shows "\<exists>k b xs e ys es'. ext2_dirremove env dp' = Inr (k, b) \<and> k < length blocks \<and> ess ! k = xs @ e # ys \<and> matches (cn_name cnp) e \<and>
    length b = DIRBLKSIZ env \<and> holds b 0 es' (DIRBLKSIZ env) \<and> filter live es' = filter live (xs @ ys)"
proof -
  let ?D = "DIRBLKSIZ env"
  have D: "0 < ?D" by (simp add: DIRBLKSIZ_def)
  have "\<not> creating cnp" using assms(3) by (simp add: creating_def)
  then have "found_entry env blocks ess cnp dp'"
    using ext2_lookupi_correct_lemma [OF assms(1,2), of auth cnp] assms(5) by (auto simp: found_end_def split: if_splits)
  then obtain k us e vs i where f: "k < length blocks" "ess ! k = us @ e # vs" "matches (cn_name cnp) e" "holds (blocks ! k) 0 us i"
      "i_offset dp' = k * ?D + i" "i_reclen dp' = de_rec_len (blocks ! k) i" "us = [] \<longrightarrow> i_count dp' = 0"
      "us \<noteq> [] \<longrightarrow> 0 < i_count dp' \<and> i_count dp' \<le> i \<and> holds (blocks ! k) 0 (butlast us) (i - i_count dp')"
    unfolding found_entry_def using assms(3,4) by blast
  let ?B = "blocks ! k" and ?c = "i_count dp'"
  have b: "length ?B = ?D" "?D < 65536" "holds ?B 0 (us @ e # vs) ?D" "env_bread env k = Inr ?B" using assms(1) f(1,2) by (auto simp: dir_holds_def)
  have c: "?c \<le> i" using f(7,8) by (cases "us = []") auto
  have "i < ?D"
  proof -
    obtain m where "holds ?B 0 us m" "holds ?B m (e # vs) ?D" using b(3) by (auto simp: holds_append)
    then show ?thesis using holds_functional [OF f(4)] holds_le [of ?B m "e # vs" ?D] by auto
  qed
  moreover define q where "q = i - ?c"
  ultimately have lt: "q < ?D" "q + ?c = i" using c by simp_all
  then have off: "i_offset dp' - ?c = k * ?D + q" using f(5) by simp
  have dm: "(k * ?D + q) div ?D = k" "(k * ?D + q) mod ?D = q" using lt D by simp_all
  have "ext2_dirremove env dp' = Inr (k, dirremove_block ?B i ?c (de_rec_len ?B i))"
    using lt f(6) b(4) by (simp add: ext2_dirremove_def Let_def off dm ext2_blkatoff_def)
  moreover obtain es' where "holds (dirremove_block ?B i ?c (de_rec_len ?B i)) 0 es' ?D" "filter live es' = filter live (us @ vs)"
      "length (dirremove_block ?B i ?c (de_rec_len ?B i)) = ?D"
    using dirremove_ok [OF b(3) f(4) _ f(7,8)] b(1,2) by auto
  ultimately show ?thesis using f(1-3) by blast
qed

theorem lookup_dirremove_witness:
  "\<exists>dp' k b. ext2_lookupi sample_env None sample_dp \<lparr>cn_nameiop = DELETE, cn_islast = True, cn_wantparent = True, cn_isdotdot = False, cn_name = [46]\<rparr> = Return (Found, dp') \<and>
     ext2_dirremove sample_env dp' = Inr (k, b) \<and> length b = 32"
proof -
  let ?cnp = "\<lparr>cn_nameiop = DELETE, cn_islast = True, cn_wantparent = True, cn_isdotdot = False, cn_name = [46]\<rparr>"
  have yes: "has_name [[sample_dot]] (cn_name ?cnp)" by (simp add: has_name_def matches_def live_def sample_dot_def)
  obtain dp' where l: "ext2_lookupi sample_env None sample_dp ?cnp = Return (Found, dp')"
    using ext2_lookupi_correct_lemma [OF sample_dir_ok, of None ?cnp] yes by (auto simp: found_end_def renaming_def deleting_def sample_dot_def sample_dp_def dest!: found_entry_single)
  have "DIRBLKSIZ sample_env = 32" by (simp add: sample_env_def DIRBLKSIZ_def)
  then show ?thesis using l lookup_dirremove [OF sample_dir_ok _ _ l] by auto
qed

text \<open>
  C30: the search in one block, \<^verbatim>\<open>ext2_search_dirblock\<close>, ends on a block that holds whole entries and finds the first used entry with the name,
  or tells that there is none. On a volume that is mounted read-only, where a mangled entry does not panic, it never
  returns when it meets an entry of length zero: the branch that means to skip the block advances the offset but not the
  pointer to the entry.
\<close>

theorem ext2_search_dirblock_correct:
  assumes "length B = DIRBLKSIZ env" "holds B 0 es (DIRBLKSIZ env)" "\<forall>e \<in> set es. e_inode e \<le> env_inodes_count env" "sc_entryoff sc = 0"
    and "env_rdonly env'" "sc_entryoff sc' < DIRBLKSIZ env'" "sc_entryoff sc' + 8 \<le> length B'" "de_rec_len B' (sc_entryoff sc') = 0"
  shows "(\<exists>f sc2. ext2_search_dirblock env B name sc = Some (Return (f, sc2)) \<and>
      (if f then \<exists>us e vs i. es = us @ e # vs \<and> list_all (\<lambda>u. \<not> matches name u) us \<and> matches name e \<and> holds B 0 us i \<and>
          sc_entryoff sc2 = i \<and> sc_offset sc2 = sc_offset sc + i
       else list_all (\<lambda>u. \<not> matches name u) es)) \<and>
    ext2_search_dirblock env' B' name sc' = None"
proof
  show "\<exists>f sc2. ext2_search_dirblock env B name sc = Some (Return (f, sc2)) \<and>
      (if f then \<exists>us e vs i. es = us @ e # vs \<and> list_all (\<lambda>u. \<not> matches name u) us \<and> matches name e \<and> holds B 0 us i \<and>
          sc_entryoff sc2 = i \<and> sc_offset sc2 = sc_offset sc + i
       else list_all (\<lambda>u. \<not> matches name u) es)"
    using search_dirblock_loop_ok [OF assms(1-4), of name] unfolding ext2_search_dirblock_def assms(4) diff_zero .
  show "ext2_search_dirblock env' B' name sc' = None"
  proof (cases "ext2_search_dirblock env' B' name sc'")
    case (Some y)
    then show ?thesis using search_dirblock_loop_hangs [of env' B' name sc' "sc_entryoff sc'" "sc_entryoff sc'" y] assms(5-8)
      by (simp add: ext2_search_dirblock_def)
  qed
qed

theorem ext2_search_dirblock_correct_witness:
  "(\<exists>f sc2. ext2_search_dirblock sample_env sample_dirblock [46] sample_scan = Some (Return (f, sc2))) \<and>
   ext2_search_dirblock (sample_env\<lparr>env_rdonly := True\<rparr>) (replicate 32 0) [46] sample_scan = None"
proof -
  have "length sample_dirblock = DIRBLKSIZ sample_env" "holds sample_dirblock 0 [sample_dot] (DIRBLKSIZ sample_env)"
    "\<forall>e \<in> set [sample_dot]. e_inode e \<le> env_inodes_count sample_env"
    using sample_dir_ok(1) by (simp_all add: dir_holds_def)
  moreover have "sc_entryoff sample_scan = 0" "env_rdonly (sample_env\<lparr>env_rdonly := True\<rparr>)" "sc_entryoff sample_scan < DIRBLKSIZ (sample_env\<lparr>env_rdonly := True\<rparr>)"
    "sc_entryoff sample_scan + 8 \<le> length (replicate 32 (0::u8))" "de_rec_len (replicate 32 0) (sc_entryoff sample_scan) = 0"
    by (simp_all add: sample_scan_def sample_env_def DIRBLKSIZ_def de_rec_len_def le16_def)
  ultimately show ?thesis using ext2_search_dirblock_correct [of sample_dirblock sample_env "[sample_dot]" sample_scan "sample_env\<lparr>env_rdonly := True\<rparr>" sample_scan "replicate 32 0" "[46]"] by blast
qed

end
