(* ===== verification/E2fsck_Region.thy ===== *)
theory E2fsck_Region
  imports Ext2_Prelude Ext2_Alloc_Spec
begin

text \<open>
  The region allocator of the file system checker, \<^verbatim>\<open>e2fsck/region.c\<close>, which detects overlaps between the parts of an extended
  attribute block. The linked list of allocated intervals is a list; \<^verbatim>\<open>malloc\<close> is the
  argument \<open>mem\<close>, which tells whether it delivers. The contract is a set of addresses: an
  allocation succeeds exactly when it meets no address that is taken.
\<close>

section \<open>Data\<close>

record region_el =
  r_start :: u32
  r_end :: u32

record region_struct =
  rg_min :: u32
  rg_max :: u32
  allocated :: "region_el list"

section \<open>Operations\<close>

definition region_create :: "bool \<Rightarrow> u32 \<Rightarrow> u32 \<Rightarrow> region_struct option" where
  "region_create mem lo hi = (if \<not> mem then None else Some \<lparr>rg_min = lo, rg_max = hi, allocated = []\<rparr>)"

text \<open>The walk along the list, with the result of the call and the list it leaves.\<close>

fun region_walk :: "bool \<Rightarrow> u32 \<Rightarrow> u32 \<Rightarrow> region_el list \<Rightarrow> int \<times> region_el list" where
  "region_walk mem s e [] = (if \<not> mem then (-1, []) else (0, [\<lparr>r_start = s, r_end = e\<rparr>]))"
| "region_walk mem s e (r # rs) =
     (if (s \<ge> r_start r \<and> s < r_end r) \<or> (e > r_start r \<and> e \<le> r_end r) \<or> (s \<le> r_start r \<and> e \<ge> r_end r) then (1, r # rs)
      else if e = r_start r then (0, r\<lparr>r_start := s\<rparr> # rs)
      else if s = r_end r then
        case rs of
          [] \<Rightarrow> (0, r\<lparr>r_end := e\<rparr> # rs)
        | nxt # rest \<Rightarrow>
            if e > r_start nxt then (1, r # rs)
            else if e = r_start nxt then (0, r\<lparr>r_end := r_end nxt\<rparr> # rest)
            else (0, r\<lparr>r_end := e\<rparr> # rs)
      else if s < r_start r then
        if \<not> mem then (-1, r # rs) else (0, \<lparr>r_start = s, r_end = e\<rparr> # r # rs)
      else case region_walk mem s e rs of (ret, rs') \<Rightarrow> (ret, r # rs'))"

definition region_allocate :: "bool \<Rightarrow> region_struct \<Rightarrow> u32 \<Rightarrow> int \<Rightarrow> int \<times> region_struct" where
  "region_allocate mem region s n =
     (let e = s + word_of_int n in
      if s < rg_min region \<or> e > rg_max region then (-1, region)
      else if n = 0 then (1, region)
      else case region_walk mem s e (allocated region) of (ret, rs) \<Rightarrow> (ret, region\<lparr>allocated := rs\<rparr>))"

section \<open>Specifications\<close>

text \<open>The addresses that a list of intervals takes, and lists that are sorted, without empty intervals and with a gap between neighbours.\<close>

fun addrs :: "region_el list \<Rightarrow> nat set" where
  "addrs [] = {}"
| "addrs (r # rs) = {unat (r_start r)..<unat (r_end r)} \<union> addrs rs"

fun gaps_ok :: "nat \<Rightarrow> nat \<Rightarrow> region_el list \<Rightarrow> bool" where
  "gaps_ok lo hi [] = True"
| "gaps_ok lo hi (r # rs) \<longleftrightarrow> lo \<le> unat (r_start r) \<and> unat (r_start r) < unat (r_end r) \<and> unat (r_end r) \<le> hi \<and>
     gaps_ok (unat (r_end r) + 1) hi rs"

definition region_ok :: "region_struct \<Rightarrow> bool" where
  "region_ok region \<longleftrightarrow> gaps_ok (unat (rg_min region)) (unat (rg_max region)) (allocated region)"

definition region_free_addrs :: "region_struct \<Rightarrow> nat set" where
  "region_free_addrs region = {unat (rg_min region)..<unat (rg_max region)} - addrs (allocated region)"

text \<open>A successful allocation of \<open>A\<close>; nothing is ever given back.\<close>

definition region_takes :: "region_struct \<Rightarrow> nat set \<Rightarrow> region_struct \<Rightarrow> bool" where
  "region_takes region A region' \<longleftrightarrow> (\<exists>mem s n. 0 < n \<and> int (unat s) + n < 2 ^ 32 \<and>
     region_allocate mem region s n = (0, region') \<and> A = {unat s..<unat s + nat n})"

definition region_gives :: "region_struct \<Rightarrow> nat set \<Rightarrow> region_struct \<Rightarrow> bool" where
  "region_gives region A region' \<longleftrightarrow> False"

text \<open>The outcome of the walk that the theorem below states for the whole list.\<close>

definition walk_ok :: "bool \<Rightarrow> nat \<Rightarrow> nat \<Rightarrow> u32 \<Rightarrow> u32 \<Rightarrow> region_el list \<Rightarrow> bool" where
  "walk_ok mem lo hi s e rs \<longleftrightarrow> (if {unat s..<unat e} \<inter> addrs rs \<noteq> {} then region_walk mem s e rs = (1, rs)
     else (\<exists>rs'. region_walk mem s e rs = (0, rs') \<and> gaps_ok lo hi rs' \<and> addrs rs' = {unat s..<unat e} \<union> addrs rs) \<or>
       \<not> mem \<and> region_walk mem s e rs = (-1, rs))"

text \<open>A region of a block of 1024 bytes with two intervals taken.\<close>

definition sample_region :: region_struct where
  "sample_region = \<lparr>rg_min = 0, rg_max = 1024, allocated = [\<lparr>r_start = 0, r_end = 32\<rparr>, \<lparr>r_start = 64, r_end = 80\<rparr>]\<rparr>"

definition run_region :: "region_el list \<Rightarrow> region_struct" where
  "run_region rs = \<lparr>rg_min = 0, rg_max = 1024, allocated = rs\<rparr>"

section \<open>Lemmas\<close>

lemma addrs_ge: "gaps_ok lo hi rs \<Longrightarrow> x \<in> addrs rs \<Longrightarrow> lo \<le> x \<and> x < hi"
  by (induction rs arbitrary: lo) fastforce+

lemma gaps_mono: "gaps_ok lo hi rs \<Longrightarrow> lo' \<le> lo \<Longrightarrow> gaps_ok lo' hi rs"
  by (cases rs) auto

lemma region_conflict:
  assumes "unat s < unat e" "unat (r_start r) < unat (r_end r)"
  shows "(s \<ge> r_start r \<and> s < r_end r) \<or> (e > r_start r \<and> e \<le> r_end r) \<or> (s \<le> r_start r \<and> e \<ge> r_end r) \<longleftrightarrow>
     unat s < unat (r_end r) \<and> unat (r_start r) < unat e"
  unfolding word_le_nat_alt word_less_nat_alt using assms by linarith

lemma region_meets:
  assumes "unat s < unat e" "unat (r_start r) < unat (r_end r)"
  shows "{unat s..<unat e} \<inter> addrs (r # rs) \<noteq> {} \<longleftrightarrow>
     unat s < unat (r_end r) \<and> unat (r_start r) < unat e \<or> {unat s..<unat e} \<inter> addrs rs \<noteq> {}"
proof -
  let ?I = "{unat s..<unat e}" and ?R = "{unat (r_start r)..<unat (r_end r)}"
  have "?I \<inter> ?R \<noteq> {} \<longleftrightarrow> unat s < unat (r_end r) \<and> unat (r_start r) < unat e"
  proof
    assume "unat s < unat (r_end r) \<and> unat (r_start r) < unat e"
    then have "max (unat s) (unat (r_start r)) \<in> ?I \<inter> ?R" using assms by simp
    then show "?I \<inter> ?R \<noteq> {}" by blast
  qed auto
  then show ?thesis by (simp add: Int_Un_distrib)
qed

text \<open>Growing an interval at its end, up to the next one or not.\<close>

lemma region_walk_grow:
  assumes g: "gaps_ok lo hi (r # rs)" and e: "unat s < unat e" "unat e \<le> hi" and s: "s = r_end r"
    and c: "\<not> (unat s < unat (r_end r) \<and> unat (r_start r) < unat e)" "e \<noteq> r_start r"
  shows "walk_ok mem lo hi s e (r # rs)"
proof -
  let ?I = "{unat s..<unat e}" and ?R = "{unat (r_start r)..<unat (r_end r)}"
  have r: "lo \<le> unat (r_start r)" "unat (r_start r) < unat (r_end r)" using g by simp_all
  note nc = c(1) [folded region_conflict [OF e(1) r(2)]] and meets = region_meets [OF e(1) r(2), of rs]
  have x: "unat s = unat (r_end r)" using s by simp
  have IR: "{unat (r_start r)..<unat e} = ?I \<union> ?R" using x e(1) r(2) by auto
  show ?thesis
  proof (cases rs)
    case Nil
    then show ?thesis unfolding walk_ok_def using nc c(2) s IR x r e meets by auto
  next
    case (Cons nxt rest)
    have n: "unat (r_end r) + 1 \<le> unat (r_start nxt)" "unat (r_start nxt) < unat (r_end nxt)" "unat (r_end nxt) \<le> hi"
      "gaps_ok (unat (r_end nxt) + 1) hi rest" using g Cons by simp_all
    note above = addrs_ge [OF n(4)]
    consider "unat (r_start nxt) < unat e" | "unat e = unat (r_start nxt)" | "unat e < unat (r_start nxt)" by linarith
    then show ?thesis
    proof cases
      case 1
      then have "unat (r_start nxt) \<in> ?I \<inter> addrs rs" using Cons n(1,2) x by simp
      then have "?I \<inter> addrs rs \<noteq> {}" by blast
      then show ?thesis unfolding walk_ok_def using 1 nc c(2) s Cons meets by (simp add: word_less_nat_alt)
    next
      case 2
      have "?I \<inter> addrs rs = {}" using 2 Cons above n(2) by fastforce
      moreover have "{unat (r_start r)..<unat (r_end nxt)} = ?I \<union> ?R \<union> {unat (r_start nxt)..<unat (r_end nxt)}"
        using x 2 n(1,2) e(1) r(2) by auto
      moreover have "e = r_start nxt" using 2 by (rule word_unat_eq_iff [THEN iffD2])
      ultimately show ?thesis unfolding walk_ok_def using nc c(2) s Cons n r x meets by auto
    next
      case 3
      have "?I \<inter> addrs rs = {}" using 3 Cons above n(2) by fastforce
      moreover have "e \<noteq> r_start nxt" "\<not> r_start nxt < e" using 3 by (auto simp: word_less_nat_alt)
      ultimately show ?thesis unfolding walk_ok_def using nc c(2) s 3 Cons n r x e IR meets by auto
    qed
  qed
qed

lemma region_walk_spec:
  assumes "gaps_ok lo hi rs" "unat s < unat e" "lo \<le> unat s" "unat e \<le> hi"
  shows "walk_ok mem lo hi s e rs"
  using assms(1,3)
proof (induction rs arbitrary: lo)
  case Nil
  then show ?case using assms(2,4) by (simp add: walk_ok_def)
next
  case (Cons r rs)
  let ?I = "{unat s..<unat e}" and ?R = "{unat (r_start r)..<unat (r_end r)}"
  have r: "lo \<le> unat (r_start r)" "unat (r_start r) < unat (r_end r)" "unat (r_end r) \<le> hi" "gaps_ok (unat (r_end r) + 1) hi rs"
    using Cons.prems by simp_all
  note above = addrs_ge [OF r(4)] and conflict = region_conflict [OF assms(2) r(2)] and meets = region_meets [OF assms(2) r(2), of rs]
  let ?C = "unat s < unat (r_end r) \<and> unat (r_start r) < unat e"
  consider "?C" | "\<not> ?C" "e = r_start r" | "\<not> ?C" "e \<noteq> r_start r" "s = r_end r"
    | "\<not> ?C" "e \<noteq> r_start r" "s \<noteq> r_end r" "s < r_start r" | "\<not> ?C" "e \<noteq> r_start r" "s \<noteq> r_end r" "\<not> s < r_start r" by blast
  then show ?case
  proof cases
    case 1
    then show ?thesis unfolding walk_ok_def using conflict meets by simp
  next
    case 2
    have e: "unat e = unat (r_start r)" using 2 by simp
    have "?I \<inter> addrs rs = {}" using e above r(2) by fastforce
    moreover have "{unat s..<unat (r_end r)} = ?I \<union> ?R" using e assms(2) r(2) by auto
    ultimately show ?thesis unfolding walk_ok_def using 2 conflict e r Cons.prems assms(2) meets by auto
  next
    case 3
    show ?thesis by (rule region_walk_grow [OF Cons.prems(1) assms(2,4) 3(3,1,2)])
  next
    case 4
    have y: "unat s < unat (r_start r)" using 4(4) by (simp only: word_less_nat_alt)
    have "unat e \<noteq> unat (r_start r)" using 4(2) by (simp only: word_unat_eq_iff [symmetric] not_False_eq_True)
    then have z: "unat e < unat (r_start r)" using 4(1) y r(2) by linarith
    then have "?I \<inter> addrs rs = {}" using above r(2) by fastforce
    then show ?thesis unfolding walk_ok_def using 4 conflict y z r Cons.prems assms(2,4) meets by auto
  next
    case 5
    have "unat s \<noteq> unat (r_end r)" using 5(3) by (simp only: word_unat_eq_iff [symmetric] not_False_eq_True)
    moreover have "unat (r_start r) \<le> unat s" using 5(4) by (simp only: word_less_nat_alt not_less)
    ultimately have x: "unat (r_end r) + 1 \<le> unat s" using 5(1) assms(2) by linarith
    show ?thesis using Cons.IH [OF r(4) x] 5 conflict x r meets unfolding walk_ok_def by (auto split: if_splits)
  qed
qed

lemma region_allocate_eq:
  assumes "region_ok rg" "0 < n" "int (unat s) + n < 2 ^ 32"
  shows "region_allocate mem rg s n =
     (if unat s < unat (rg_min rg) \<or> unat (rg_max rg) < unat s + nat n then (-1, rg)
      else case region_walk mem s (s + word_of_int n) (allocated rg) of (ret, rs) \<Rightarrow> (ret, rg\<lparr>allocated := rs\<rparr>))"
    and "unat (s + word_of_int n) = unat s + nat n"
proof -
  show e: "unat (s + word_of_int n) = unat s + nat n"
  proof -
    obtain k where k: "n = int k" using assms(2) by (metis zero_less_imp_eq_int)
    have "int (unat s + k) < int (2 ^ 32)" using assms(3) k by (simp only: of_nat_add of_nat_power of_nat_numeral)
    then have "unat s + k < 2 ^ LENGTH(32)" by (simp only: of_nat_less_iff len_num1 len_bit0 len_bit1) simp
    then show ?thesis unfolding k of_int_of_nat_eq nat_int by (rule unat_plus_of_nat)
  qed
  show "region_allocate mem rg s n =
     (if unat s < unat (rg_min rg) \<or> unat (rg_max rg) < unat s + nat n then (-1, rg)
      else case region_walk mem s (s + word_of_int n) (allocated rg) of (ret, rs) \<Rightarrow> (ret, rg\<lparr>allocated := rs\<rparr>))"
    using assms(2) by (simp add: region_allocate_def Let_def word_less_nat_alt e)
qed

lemma region_allocate_spec:
  assumes "region_ok rg" "0 < n" "int (unat s) + n < 2 ^ 32"
  shows "if unat s < unat (rg_min rg) \<or> unat (rg_max rg) < unat s + nat n then region_allocate mem rg s n = (-1, rg)
     else if {unat s..<unat s + nat n} \<inter> addrs (allocated rg) \<noteq> {} then region_allocate mem rg s n = (1, rg)
     else (\<exists>rg'. region_allocate mem rg s n = (0, rg') \<and> region_ok rg' \<and> rg_min rg' = rg_min rg \<and> rg_max rg' = rg_max rg \<and>
         addrs (allocated rg') = {unat s..<unat s + nat n} \<union> addrs (allocated rg)) \<or>
       \<not> mem \<and> region_allocate mem rg s n = (-1, rg)"
proof (cases "unat s < unat (rg_min rg) \<or> unat (rg_max rg) < unat s + nat n")
  case True
  then show ?thesis using region_allocate_eq(1) [OF assms] by simp
next
  case False
  have e: "unat (s + word_of_int n) = unat s + nat n" by (rule region_allocate_eq(2) [OF assms])
  have "unat s < unat (s + word_of_int n)" "unat (rg_min rg) \<le> unat s" "unat (s + word_of_int n) \<le> unat (rg_max rg)"
    unfolding e using False assms(2) by simp_all
  then have "walk_ok mem (unat (rg_min rg)) (unat (rg_max rg)) s (s + word_of_int n) (allocated rg)"
    by (intro region_walk_spec assms(1) [unfolded region_ok_def])
  then show ?thesis unfolding walk_ok_def e region_allocate_eq(1) [OF assms] if_not_P [OF False] region_ok_def
    by (auto split: if_splits)
qed

section \<open>Allocations do not overlap\<close>

interpretation region: resource_allocator region_ok region_free_addrs region_takes region_gives
proof
  fix rg A rg'
  assume ok: "region_ok rg" and t: "region_takes rg A rg'"
  obtain mem s n where a: "0 < n" "int (unat s) + n < 2 ^ 32" "region_allocate mem rg s n = (0, rg')" "A = {unat s..<unat s + nat n}"
    using t unfolding region_takes_def by blast
  then have "\<not> (unat s < unat (rg_min rg) \<or> unat (rg_max rg) < unat s + nat n)" "A \<inter> addrs (allocated rg) = {}" "region_ok rg'"
    "rg_min rg' = rg_min rg" "rg_max rg' = rg_max rg" "addrs (allocated rg') = A \<union> addrs (allocated rg)"
    using region_allocate_spec [OF ok a(1,2), of mem] by (auto split: if_splits)
  then show "region_ok rg' \<and> A \<subseteq> region_free_addrs rg \<and> region_free_addrs rg' = region_free_addrs rg - A"
    using a(4) by (auto simp: region_free_addrs_def)
qed (simp add: region_gives_def)

section \<open>Properties\<close>

text \<open>
  C28: \<^verbatim>\<open>region_allocate\<close> decides whether an interval is free. On a well-formed region and for a length that is
  positive and does not run past 32 bits it returns -1 and changes nothing when the interval leaves
  the region, 1 and changes nothing when it meets an address that is taken, and 0 otherwise, when
  exactly the addresses of the interval become taken and the list stays sorted with its neighbours
  merged; only when \<^verbatim>\<open>malloc\<close> fails may it return -1 instead.
\<close>

theorem region_allocate_correct:
  assumes "region_ok rg" "0 < n" "int (unat s) + n < 2 ^ 32"
  shows "if unat s < unat (rg_min rg) \<or> unat (rg_max rg) < unat s + nat n then region_allocate mem rg s n = (-1, rg)
     else if {unat s..<unat s + nat n} \<inter> addrs (allocated rg) \<noteq> {} then region_allocate mem rg s n = (1, rg)
     else (\<exists>rg'. region_allocate mem rg s n = (0, rg') \<and> region_ok rg' \<and> rg_min rg' = rg_min rg \<and> rg_max rg' = rg_max rg \<and>
         addrs (allocated rg') = {unat s..<unat s + nat n} \<union> addrs (allocated rg)) \<or>
       \<not> mem \<and> region_allocate mem rg s n = (-1, rg)"
  by (rule region_allocate_spec [OF assms])

theorem region_allocate_correct_witness:
  "\<exists>rg'. region_allocate True sample_region 32 32 = (0, rg') \<and> addrs (allocated rg') = {32..<64} \<union> addrs (allocated sample_region)"
proof -
  have f: "region_ok sample_region" "rg_min sample_region = 0" "rg_max sample_region = 1024" "addrs (allocated sample_region) = {0..<32} \<union> {64..<80}"
    by (simp_all add: region_ok_def sample_region_def)
  from region_allocate_correct [OF f(1), of 32 32 True] show ?thesis by (simp add: f(2-4) Int_Un_distrib) blast
qed

text \<open>
  In a sequence of successful allocations from a region no address is handed out twice.
\<close>

theorem region_no_overlap:
  assumes "region_ok rg" "alloc_trace region_takes region_gives rg (es1 @ Take A # es2 @ Take B # es3) rg'"
  shows "A \<inter> B = {}"
proof -
  have "Give C \<notin> set es2" for C
    using assms(2) by (auto simp: trace_append trace_simps region_gives_def dest!: split_list)
  then show ?thesis using region.no_double_take [OF assms(2,1)] by blast
qed

lemma run_region_takes:
  "region_takes (run_region []) {0..<4} (run_region [\<lparr>r_start = 0, r_end = 4\<rparr>])"
  "region_takes (run_region [\<lparr>r_start = 0, r_end = 4\<rparr>]) {8..<12} (run_region [\<lparr>r_start = 0, r_end = 4\<rparr>, \<lparr>r_start = 8, r_end = 12\<rparr>])"
  unfolding region_takes_def run_region_def
  by (rule exI [of _ True], rule exI [of _ 0], rule exI [of _ 4], simp add: region_allocate_def Let_def)
     (rule exI [of _ True], rule exI [of _ 8], rule exI [of _ 4], simp add: region_allocate_def Let_def)

theorem region_no_overlap_witness:
  "alloc_trace region_takes region_gives (run_region []) [Take {0..<4}, Take {8..<12}]
     (run_region [\<lparr>r_start = 0, r_end = 4\<rparr>, \<lparr>r_start = 8, r_end = 12\<rparr>]) \<and> {0..<4} \<inter> {8..<12} = ({} :: nat set)"
proof -
  have t: "alloc_trace region_takes region_gives (run_region []) ([] @ Take {0..<4} # [] @ Take {8..<12} # [])
     (run_region [\<lparr>r_start = 0, r_end = 4\<rparr>, \<lparr>r_start = 8, r_end = 12\<rparr>])"
    using run_region_takes by (auto simp: trace_simps)
  have "region_ok (run_region [])" by (simp add: region_ok_def run_region_def)
  from region_no_overlap [OF this t] t show ?thesis by simp
qed

text \<open>
  A length that is negative as an \<^verbatim>\<open>int\<close> is accepted too: the interval then ends before it starts, nothing is
  taken, and the list is no longer well formed.
\<close>

lemma region_allocate_negative:
  "region_allocate True \<lparr>rg_min = 0, rg_max = 1024, allocated = []\<rparr> 100 (-4) =
     (0, \<lparr>rg_min = 0, rg_max = 1024, allocated = [\<lparr>r_start = 100, r_end = 96\<rparr>]\<rparr>)"
  by (simp add: region_allocate_def Let_def)

end
