(* ===== verification/E2fs_Badblocks.thy ===== *)
theory E2fs_Badblocks
  imports Ext2_Prelude
begin

text \<open>
  The bad block lists of the ext2 library, \<^verbatim>\<open>lib/ext2fs/badblocks.c\<close>: sorted arrays of block numbers that grow on demand
  and are searched by bisection. \<open>bb_magic\<close> tells whether the magic field has the value it should; the
  array has \<open>bb_size\<close> cells of which the first \<open>bb_num\<close> are in use. Memory comes from the
  caller's environment: \<open>None\<close> when the allocation fails, else the contents of the new cells.
\<close>

section \<open>Data\<close>

record u32_list =
  bb_magic :: bool
  bb_num :: int
  bb_size :: int
  bb_list :: "u32 list"
  badblocks_flags :: int

record u32_iterate =
  it_magic :: bool
  it_bb :: u32_list
  it_ptr :: int

datatype errcode = ET_Magic | ET_No_memory

section \<open>Operations\<close>

definition make_u32_list :: "bool \<Rightarrow> int \<Rightarrow> int \<Rightarrow> u32 list option \<Rightarrow> errcode + u32_list" where
  "make_u32_list mem sz num list =
     (if \<not> mem then Inl ET_No_memory
      else
        let sz = (if sz \<noteq> 0 then sz else 10) in
        Inr \<lparr>bb_magic = True, bb_num = num, bb_size = sz,
             bb_list = (case list of Some l \<Rightarrow> take (nat sz) l | None \<Rightarrow> replicate (nat sz) 0),
             badblocks_flags = 0\<rparr>)"

definition ext2fs_u32_list_create :: "bool \<Rightarrow> int \<Rightarrow> errcode + u32_list" where
  "ext2fs_u32_list_create mem sz = make_u32_list mem sz 0 None"

definition ext2fs_badblocks_list_create :: "bool \<Rightarrow> int \<Rightarrow> errcode + u32_list" where
  "ext2fs_badblocks_list_create mem sz = make_u32_list mem sz 0 None"

definition ext2fs_u32_copy :: "bool \<Rightarrow> u32_list \<Rightarrow> errcode + u32_list" where
  "ext2fs_u32_copy mem src =
     (case make_u32_list mem (bb_size src) (bb_num src) (Some (bb_list src)) of
        Inl retval \<Rightarrow> Inl retval
      | Inr dest \<Rightarrow> Inr (dest\<lparr>badblocks_flags := badblocks_flags src\<rparr>))"

definition ext2fs_badblocks_copy :: "bool \<Rightarrow> u32_list \<Rightarrow> errcode + u32_list" where
  "ext2fs_badblocks_copy mem src = ext2fs_u32_copy mem src"

text \<open>
  The search for the place of a new block from index \<open>i\<close> on, over \<open>n\<close> cells: \<open>None\<close> when the block is
  there already, else where it belongs; and the move of the cells above.
\<close>

fun add_scan :: "u32 list \<Rightarrow> u32 \<Rightarrow> nat \<Rightarrow> nat \<Rightarrow> nat option" where
  "add_scan list blk i 0 = Some i"
| "add_scan list blk i (Suc n) =
     (if list ! i = blk then None
      else if list ! i > blk then Some i
      else add_scan list blk (i + 1) n)"

fun shift_up :: "nat \<Rightarrow> nat \<Rightarrow> u32 list \<Rightarrow> u32 list" where
  "shift_up 0 j list = list"
| "shift_up (Suc i) j list = (if Suc i > j then shift_up i j (list[Suc i := list ! i]) else list)"

fun shift_down :: "nat \<Rightarrow> nat \<Rightarrow> u32 list \<Rightarrow> u32 list" where
  "shift_down i 0 list = list"
| "shift_down i (Suc n) list = shift_down (i + 1) n (list[i := list ! (i + 1)])"

definition grow_u32_list :: "u32 list option \<Rightarrow> u32_list \<Rightarrow> errcode + u32_list" where
  "grow_u32_list fresh bb =
     (if bb_num bb \<ge> bb_size bb then
        case fresh of
          None \<Rightarrow> Inl ET_No_memory
        | Some new \<Rightarrow> Inr (bb\<lparr>bb_size := int32 (bb_size bb + 100), bb_list := bb_list bb @ new\<rparr>)
      else Inr bb)"

definition ext2fs_u32_list_add :: "u32 list option \<Rightarrow> u32_list \<Rightarrow> u32 \<Rightarrow> errcode option \<times> u32_list" where
  "ext2fs_u32_list_add fresh bb blk =
     (if \<not> bb_magic bb then (Some ET_Magic, bb)
      else
        case grow_u32_list fresh bb of
          Inl retval \<Rightarrow> (Some retval, bb)
        | Inr bb \<Rightarrow>
            let i = nat (bb_num bb - 1); num = nat (bb_num bb) in
            if bb_num bb \<noteq> 0 \<and> bb_list bb ! i = blk then (None, bb)
            else if bb_num bb = 0 \<or> bb_list bb ! i < blk then
              (None, bb\<lparr>bb_list := (bb_list bb)[num := blk], bb_num := bb_num bb + 1\<rparr>)
            else
              case add_scan (bb_list bb) blk 0 num of
                None \<Rightarrow> (None, bb)
              | Some j \<Rightarrow>
                  (None, bb\<lparr>bb_list := (shift_up num j (bb_list bb))[j := blk], bb_num := bb_num bb + 1\<rparr>))"

definition ext2fs_badblocks_list_add :: "u32 list option \<Rightarrow> u32_list \<Rightarrow> u32 \<Rightarrow> errcode option \<times> u32_list" where
  "ext2fs_badblocks_list_add fresh bb blk = ext2fs_u32_list_add fresh bb blk"

function find_loop :: "u32 list \<Rightarrow> u32 \<Rightarrow> nat \<Rightarrow> nat \<Rightarrow> int" where
  "find_loop list blk low high =
     (if low < high then
        let mid = (low + high) div 2 in
        if mid = low \<or> mid = high then -1
        else if blk = list ! mid then int mid
        else if blk < list ! mid then find_loop list blk low mid
        else find_loop list blk mid high
      else -1)"
  by pat_completeness auto
termination by (relation "measure (\<lambda>(list, blk, low, high). high - low)") auto

definition ext2fs_u32_list_find :: "u32_list \<Rightarrow> u32 \<Rightarrow> int" where
  "ext2fs_u32_list_find bb blk =
     (if \<not> bb_magic bb then -1
      else if bb_num bb = 0 then -1
      else
        let low = 0; high = nat (bb_num bb - 1) in
        if blk = bb_list bb ! low then int low
        else if blk = bb_list bb ! high then int high
        else find_loop (bb_list bb) blk low high)"

definition ext2fs_u32_list_test :: "u32_list \<Rightarrow> u32 \<Rightarrow> int" where
  "ext2fs_u32_list_test bb blk = (if ext2fs_u32_list_find bb blk < 0 then 0 else 1)"

definition ext2fs_badblocks_list_test :: "u32_list \<Rightarrow> u32 \<Rightarrow> int" where
  "ext2fs_badblocks_list_test bb blk = ext2fs_u32_list_test bb blk"

definition ext2fs_u32_list_del :: "u32_list \<Rightarrow> u32 \<Rightarrow> int \<times> u32_list" where
  "ext2fs_u32_list_del bb blk =
     (if bb_num bb = 0 then (-1, bb)
      else
        let remloc = ext2fs_u32_list_find bb blk in
        if remloc < 0 then (-1, bb)
        else (0, bb\<lparr>bb_list := shift_down (nat remloc) (nat (bb_num bb - 1 - remloc)) (bb_list bb), bb_num := bb_num bb - 1\<rparr>))"

definition ext2fs_badblocks_list_del :: "u32_list \<Rightarrow> u32 \<Rightarrow> u32_list" where
  "ext2fs_badblocks_list_del bb blk = snd (ext2fs_u32_list_del bb blk)"

definition ext2fs_u32_list_iterate_begin :: "bool \<Rightarrow> u32_list \<Rightarrow> errcode + u32_iterate" where
  "ext2fs_u32_list_iterate_begin mem bb =
     (if \<not> bb_magic bb then Inl ET_Magic
      else if \<not> mem then Inl ET_No_memory
      else Inr \<lparr>it_magic = True, it_bb = bb, it_ptr = 0\<rparr>)"

text \<open>The result is whether there was a next block, the block, and the iterator; \<open>None\<close> for the block leaves the caller's variable alone.\<close>

definition ext2fs_u32_list_iterate :: "u32_iterate \<Rightarrow> bool \<times> u32 option \<times> u32_iterate" where
  "ext2fs_u32_list_iterate iter =
     (if \<not> it_magic iter then (False, None, iter)
      else
        let bb = it_bb iter in
        if \<not> bb_magic bb then (False, None, iter)
        else if it_ptr iter < bb_num bb then (True, Some (bb_list bb ! nat (it_ptr iter)), iter\<lparr>it_ptr := it_ptr iter + 1\<rparr>)
        else (False, Some 0, iter))"

definition ext2fs_u32_list_equal :: "u32_list \<Rightarrow> u32_list \<Rightarrow> errcode + bool" where
  "ext2fs_u32_list_equal bb1 bb2 =
     (if \<not> bb_magic bb1 then Inl ET_Magic
      else if \<not> bb_magic bb2 then Inl ET_Magic
      else if bb_num bb1 \<noteq> bb_num bb2 then Inr False
      else Inr (take (nat (bb_num bb1)) (bb_list bb1) = take (nat (bb_num bb1)) (bb_list bb2)))"

definition ext2fs_badblocks_equal :: "u32_list \<Rightarrow> u32_list \<Rightarrow> errcode + bool" where
  "ext2fs_badblocks_equal bb1 bb2 = ext2fs_u32_list_equal bb1 bb2"

definition ext2fs_u32_list_count :: "u32_list \<Rightarrow> int" where
  "ext2fs_u32_list_count bb = bb_num bb"

section \<open>Specifications\<close>

text \<open>The blocks in use, in order; a well-formed list; how often it may still grow before its size leaves an \<^verbatim>\<open>int\<close>.\<close>

definition elems :: "u32_list \<Rightarrow> u32 list" where
  "elems bb = take (nat (bb_num bb)) (bb_list bb)"

definition u32_list_ok :: "u32_list \<Rightarrow> bool" where
  "u32_list_ok bb \<longleftrightarrow> bb_magic bb \<and> 0 \<le> bb_num bb \<and> bb_num bb \<le> bb_size bb \<and> bb_size bb < 2 ^ 31 \<and>
     length (bb_list bb) = nat (bb_size bb) \<and> sorted_wrt (<) (elems bb)"

definition slack :: "u32_list \<Rightarrow> nat" where
  "slack bb = nat ((2 ^ 31 - 1 - bb_size bb) div 100)"

text \<open>Sequences of operations on a set, and the set they describe.\<close>

datatype ('m, 'a) set_op = Insert_op 'm 'a | Delete_op 'a

fun run_ops :: "('m \<Rightarrow> 's \<Rightarrow> 'a \<Rightarrow> 's) \<Rightarrow> ('s \<Rightarrow> 'a \<Rightarrow> 's) \<Rightarrow> ('m, 'a) set_op list \<Rightarrow> 's \<Rightarrow> 's" where
  "run_ops add del [] s = s"
| "run_ops add del (Insert_op mem x # ops) s = run_ops add del ops (add mem s x)"
| "run_ops add del (Delete_op x # ops) s = run_ops add del ops (del s x)"

fun set_after :: "('m, 'a) set_op list \<Rightarrow> 'a set \<Rightarrow> 'a set" where
  "set_after [] S = S"
| "set_after (Insert_op mem x # ops) S = set_after ops (insert x S)"
| "set_after (Delete_op x # ops) S = set_after ops (S - {x})"

text \<open>A list for the examples below.\<close>

definition sample_ops :: "(u32 list, u32) set_op list" where
  "sample_ops = [Insert_op (replicate 100 0) 7, Insert_op (replicate 100 0) 3, Insert_op (replicate 100 0) 5, Delete_op 7]"

definition sample_bb :: u32_list where
  "sample_bb = \<lparr>bb_magic = True, bb_num = 0, bb_size = 2, bb_list = [0, 0], badblocks_flags = 0\<rparr>"

fun drain :: "nat \<Rightarrow> u32_iterate \<Rightarrow> u32 list" where
  "drain 0 iter = []"
| "drain (Suc n) iter = (case ext2fs_u32_list_iterate iter of (True, Some blk, iter') \<Rightarrow> blk # drain n iter' | _ \<Rightarrow> [])"

section \<open>Lemmas\<close>

declare find_loop.simps [simp del]

lemma length_shift_up [simp]: "length (shift_up i j l) = length l"
  by (induction i j l rule: shift_up.induct) simp_all

lemma length_shift_down [simp]: "length (shift_down i n l) = length l"
  by (induction i n l rule: shift_down.induct) simp_all

lemma shift_up_nth:
  "i < length l \<Longrightarrow> k < length l \<Longrightarrow> shift_up i j l ! k = (if j < k \<and> k \<le> i then l ! (k - 1) else l ! k)"
proof (induction i j l arbitrary: k rule: shift_up.induct)
  case (2 i j l)
  show ?case
  proof (cases "Suc i > j")
    case True
    have IH: "shift_up i j (l[Suc i := l ! i]) ! k = (if j < k \<and> k \<le> i then (l[Suc i := l ! i]) ! (k - 1) else (l[Suc i := l ! i]) ! k)"
      by (rule "2.IH" [OF True]) (use "2.prems" in simp_all)
    consider "k = Suc i" | "k \<noteq> Suc i" by blast
    then show ?thesis
    proof cases
      case 1
      then show ?thesis using IH True "2.prems" by simp
    next
      case 2
      then have "k \<le> i \<longleftrightarrow> k \<le> Suc i" "k - 1 \<noteq> Suc i \<or> \<not> k \<le> i" by linarith+
      then show ?thesis using IH True 2 by auto
    qed
  qed auto
qed simp

lemma shift_down_nth:
  "i + n < length l \<Longrightarrow> k < length l \<Longrightarrow> shift_down i n l ! k = (if i \<le> k \<and> k < i + n then l ! (k + 1) else l ! k)"
proof (induction i n l arbitrary: k rule: shift_down.induct)
  case (2 i n l)
  have IH: "shift_down (i + 1) n (l[i := l ! (i + 1)]) ! k =
      (if i + 1 \<le> k \<and> k < i + 1 + n then (l[i := l ! (i + 1)]) ! (k + 1) else (l[i := l ! (i + 1)]) ! k)"
    by (rule "2.IH") (use "2.prems" in simp_all)
  then show ?case using "2.prems" by (auto simp: nth_list_update)
qed auto

text \<open>The shifts as operations on the cells in use.\<close>

lemma take_shift_up:
  assumes "n < length l" "j \<le> n"
  shows "take (n + 1) ((shift_up n j l)[j := x]) = take j (take n l) @ x # drop j (take n l)"
proof (rule nth_equalityI)
  show "length (take (n + 1) ((shift_up n j l)[j := x])) = length (take j (take n l) @ x # drop j (take n l))"
    using assms by simp
  fix k assume "k < length (take (n + 1) ((shift_up n j l)[j := x]))"
  then have k: "k < n + 1" "k < length l" using assms by simp_all
  have "take (n + 1) ((shift_up n j l)[j := x]) ! k = (if k = j then x else if j < k then l ! (k - 1) else l ! k)"
    using k assms shift_up_nth [of n l k j] by (auto simp: nth_list_update)
  also have "\<dots> = (take j (take n l) @ x # drop j (take n l)) ! k"
    using k assms by (auto simp: nth_append nth_Cons' min_def)
  finally show "take (n + 1) ((shift_up n j l)[j := x]) ! k = (take j (take n l) @ x # drop j (take n l)) ! k" .
qed

lemma take_shift_down:
  assumes "r < n" "n \<le> length l"
  shows "take (n - 1) (shift_down r (n - 1 - r) l) = take r (take n l) @ drop (r + 1) (take n l)"
proof (rule nth_equalityI)
  show "length (take (n - 1) (shift_down r (n - 1 - r) l)) = length (take r (take n l) @ drop (r + 1) (take n l))"
    using assms by simp
  fix k assume "k < length (take (n - 1) (shift_down r (n - 1 - r) l))"
  then have k: "k < n - 1" by simp
  then show "take (n - 1) (shift_down r (n - 1 - r) l) ! k = (take r (take n l) @ drop (r + 1) (take n l)) ! k"
    using assms shift_down_nth [of r "n - 1 - r" l k] by (auto simp: nth_append)
qed

lemma add_scan_spec:
  assumes "sorted_wrt (<) (take n l)" "n \<le> length l" "i + m = n" "\<forall>k < i. l ! k < blk"
  shows "case add_scan l blk i m of
      None \<Rightarrow> blk \<in> set (take n l)
    | Some j \<Rightarrow> j \<le> n \<and> (\<forall>k < j. l ! k < blk) \<and> (\<forall>k. j \<le> k \<and> k < n \<longrightarrow> blk < l ! k)"
  using assms(3,4)
proof (induction m arbitrary: i)
  case (Suc m)
  then have i: "i < n" and m: "(i + 1) + m = n" by linarith+
  have lt: "l ! i < l ! k" if "i < k" "k < n" for k
    using assms(1,2) that by (simp add: sorted_wrt_iff_nth_less)
  consider "l ! i = blk" | "blk < l ! i" | "l ! i < blk" by (metis linorder_cases)
  then show ?case
  proof cases
    case 1
    then have "blk \<in> set (take n l)" using i assms(2) by (auto simp: in_set_conv_nth)
    then show ?thesis using 1 by simp
  next
    case 2
    have "\<forall>k. i \<le> k \<and> k < n \<longrightarrow> blk < l ! k"
    proof (intro allI impI)
      fix k assume "i \<le> k \<and> k < n"
      then show "blk < l ! k" using 2 lt [of k] by (cases "k = i") auto
    qed
    then show ?thesis using 2 i Suc.prems(2) by auto
  next
    case 3
    then have "\<forall>k < i + 1. l ! k < blk" using Suc.prems(2) by (auto simp: less_Suc_eq)
    moreover have "l ! i \<noteq> blk" "\<not> blk < l ! i" using 3 by auto
    ultimately show ?thesis using Suc.IH [OF m] by simp
  qed
qed auto

lemma find_loop_spec:
  assumes "sorted_wrt (<) (take n l)" "n \<le> length l" "high < n" "l ! low \<noteq> blk" "l ! high \<noteq> blk"
  shows "(0 \<le> find_loop l blk low high \<and> nat (find_loop l blk low high) < n \<and> l ! nat (find_loop l blk low high) = blk) \<or>
     (find_loop l blk low high = -1 \<and> (\<forall>k. low \<le> k \<and> k \<le> high \<longrightarrow> l ! k \<noteq> blk))"
  using assms
proof (induction l blk low high rule: find_loop.induct)
  case (1 l blk low high)
  let ?mid = "(low + high) div 2"
  note prems = "1.prems"
  have lt: "l ! i < l ! k" if "i < k" "k < n" for i k
    using prems(1,2) that by (simp add: sorted_wrt_iff_nth_less)
  consider "\<not> low < high" | "low < high" "?mid = low \<or> ?mid = high" | "low < high" "\<not> (?mid = low \<or> ?mid = high)" "blk = l ! ?mid"
    | "low < high" "\<not> (?mid = low \<or> ?mid = high)" "blk < l ! ?mid" | "low < high" "\<not> (?mid = low \<or> ?mid = high)" "l ! ?mid < blk"
    by (metis linorder_cases)
  then show ?case
  proof cases
    case 1
    have "l ! k \<noteq> blk" if "low \<le> k" "k \<le> high" for k using that 1 prems(4) by (cases "k = low") auto
    then show ?thesis using 1 by (subst (1 2 3 4) find_loop.simps) simp
  next
    case 2
    then have "high = low + 1" by linarith
    then have "k = low \<or> k = high" if "low \<le> k" "k \<le> high" for k using that by linarith
    then have "l ! k \<noteq> blk" if "low \<le> k" "k \<le> high" for k using that prems(4,5) by blast
    then show ?thesis using 2 by (subst (1 2 3 4) find_loop.simps) simp
  next
    case 3
    then have m: "?mid < n" using prems(3) by linarith
    then show ?thesis using 3 by (subst (1 2 3 4) find_loop.simps) simp
  next
    case 4
    then have f: "find_loop l blk low high = find_loop l blk low ?mid" by (subst find_loop.simps) (auto simp: Let_def)
    have h: "l ! k \<noteq> blk" if "?mid \<le> k" "k \<le> high" for k using that 4(3) lt [of ?mid k] prems(3) by (cases "k = ?mid") auto
    have "?mid < n" "l ! ?mid \<noteq> blk" using 4 prems(3) by (linarith, auto)
    from "1.IH"(1) [OF 4(1) refl 4(2) _ 4(3) prems(1,2) this(1) prems(4) this(2)] 4(3)
    show ?thesis unfolding f using h by (metis less_imp_neq nat_le_linear)
  next
    case 5
    then have f: "find_loop l blk low high = find_loop l blk ?mid high" by (subst find_loop.simps) (auto simp: Let_def)
    have "?mid < n" using 5(1) prems(3) by linarith
    then have h: "l ! k \<noteq> blk" if "low \<le> k" "k \<le> ?mid" for k using that 5(3) lt [of k ?mid] by (cases "k = ?mid") auto
    have n: "\<not> blk < l ! ?mid" "blk \<noteq> l ! ?mid" "l ! ?mid \<noteq> blk" using 5(3) by auto
    from "1.IH"(2) [OF 5(1) refl 5(2) n(2,1) prems(1,2,3) n(3) prems(5)]
    show ?thesis unfolding f using h by (metis nat_le_linear)
  qed
qed

text \<open>What \<open>find\<close> returns on a well-formed list.\<close>

lemma num_le: "u32_list_ok bb \<Longrightarrow> nat (bb_num bb) \<le> length (bb_list bb)"
  by (simp add: u32_list_ok_def nat_mono)

lemma elems_nth: "u32_list_ok bb \<Longrightarrow> k < nat (bb_num bb) \<Longrightarrow> elems bb ! k = bb_list bb ! k"
  "u32_list_ok bb \<Longrightarrow> length (elems bb) = nat (bb_num bb)"
  using num_le [of bb] by (simp_all add: elems_def)

lemma find_spec:
  assumes ok: "u32_list_ok bb"
  shows "(0 \<le> ext2fs_u32_list_find bb blk \<and> nat (ext2fs_u32_list_find bb blk) < nat (bb_num bb) \<and>
       elems bb ! nat (ext2fs_u32_list_find bb blk) = blk) \<or>
     (ext2fs_u32_list_find bb blk = -1 \<and> blk \<notin> set (elems bb))"
proof (cases "bb_num bb = 0")
  case True
  then show ?thesis using ok by (simp add: ext2fs_u32_list_find_def elems_def)
next
  case False
  let ?l = "bb_list bb" and ?n = "nat (bb_num bb)" and ?h = "nat (bb_num bb - 1)"
  have n: "?h < ?n" "0 < ?n" "sorted_wrt (<) (take ?n ?l)" "?n \<le> length ?l" "bb_magic bb"
    using ok False num_le [OF ok] by (simp_all add: u32_list_ok_def elems_def)
  consider "blk = ?l ! 0" | "blk \<noteq> ?l ! 0" "blk = ?l ! ?h" | "blk \<noteq> ?l ! 0" "blk \<noteq> ?l ! ?h" by blast
  then show ?thesis
  proof cases
    case 1
    then show ?thesis using n elems_nth(1) [OF ok n(2)] False by (simp add: ext2fs_u32_list_find_def)
  next
    case 2
    then show ?thesis using n elems_nth(1) [OF ok n(1)] False by (simp add: ext2fs_u32_list_find_def)
  next
    case 3
    have f: "ext2fs_u32_list_find bb blk = find_loop ?l blk 0 ?h" using 3 n False by (simp add: ext2fs_u32_list_find_def)
    have "?l ! 0 \<noteq> blk" "?l ! ?h \<noteq> blk" using 3 by auto
    from find_loop_spec [OF n(3,4,1) this] show ?thesis
    proof
      assume "find_loop ?l blk 0 ?h = -1 \<and> (\<forall>k. 0 \<le> k \<and> k \<le> ?h \<longrightarrow> ?l ! k \<noteq> blk)"
      moreover have "k \<le> ?h" if "k < ?n" for k using that by linarith
      ultimately show ?thesis unfolding f using elems_nth [OF ok] by (auto simp: in_set_conv_nth)
    qed (use elems_nth(1) [OF ok] f in auto)
  qed
qed

lemma sorted_insert_at:
  assumes "sorted_wrt (<) (xs :: u32 list)" "j \<le> length xs" "\<forall>k < j. xs ! k < x" "\<forall>k. j \<le> k \<and> k < length xs \<longrightarrow> x < xs ! k"
  shows "sorted_wrt (<) (take j xs @ x # drop j xs)" "set (take j xs @ x # drop j xs) = insert x (set xs)"
proof -
  have "sorted_wrt (<) (take j xs @ drop j xs)" using assms(1) by simp
  then have "sorted_wrt (<) (take j xs)" "sorted_wrt (<) (drop j xs)" "\<forall>a \<in> set (take j xs). \<forall>b \<in> set (drop j xs). a < b"
    unfolding sorted_wrt_append by blast+
  moreover have "\<forall>a \<in> set (take j xs). a < x" using assms(2,3) by (auto simp: in_set_conv_nth)
  moreover have "\<forall>b \<in> set (drop j xs). x < b" using assms(2,4) by (auto simp: in_set_conv_nth)
  ultimately show "sorted_wrt (<) (take j xs @ x # drop j xs)" by (auto simp: sorted_wrt_append)
  have "set xs = set (take j xs) \<union> set (drop j xs)" by (metis append_take_drop_id set_append)
  then show "set (take j xs @ x # drop j xs) = insert x (set xs)" by auto
qed

lemma grow_spec:
  assumes "u32_list_ok bb" "bb_num bb < bb_size bb \<or> (\<exists>new. fresh = Some new \<and> length new = 100) \<and> 0 < slack bb"
  shows "\<exists>bb'. grow_u32_list fresh bb = Inr bb' \<and> u32_list_ok bb' \<and> elems bb' = elems bb \<and> bb_num bb' = bb_num bb \<and>
     bb_num bb' < bb_size bb' \<and> slack bb \<le> slack bb' + 1"
proof (cases "bb_num bb < bb_size bb")
  case True
  then show ?thesis using assms(1) by (simp add: grow_u32_list_def)
next
  case False
  then obtain new where new: "fresh = Some new" "length new = 100" "0 < slack bb" using assms(2) by blast
  have sz: "bb_size bb + 100 < 2 ^ 31" "0 \<le> bb_size bb" "bb_num bb = bb_size bb" using new(3) False assms(1) by (simp_all add: slack_def u32_list_ok_def)
  have w: "int32 (bb_size bb + 100) = bb_size bb + 100" using sz by (intro int32_id) simp_all
  let ?bb = "bb\<lparr>bb_size := bb_size bb + 100, bb_list := bb_list bb @ new\<rparr>"
  have "elems ?bb = elems bb" using num_le [OF assms(1)] by (simp add: elems_def)
  moreover have "slack bb \<le> slack ?bb + 1"
  proof -
    have "(2 ^ 31 - 1 - bb_size bb) div 100 = (2 ^ 31 - 1 - (bb_size bb + 100)) div 100 + 1"
      using div_add_self2 [of 100 "2 ^ 31 - 1 - (bb_size bb + 100)"] by simp
    then show ?thesis by (simp add: slack_def)
  qed
  ultimately show ?thesis using assms(1) new(1,2) sz w False by (simp add: grow_u32_list_def u32_list_ok_def)
qed

lemma place_spec:
  assumes ok: "u32_list_ok bb" and n: "bb_num bb < bb_size bb" and j: "j \<le> nat (bb_num bb)"
    and k: "\<forall>k < j. bb_list bb ! k < blk" "\<forall>k. j \<le> k \<and> k < nat (bb_num bb) \<longrightarrow> blk < bb_list bb ! k"
    and bb': "bb' = bb\<lparr>bb_list := (shift_up (nat (bb_num bb)) j (bb_list bb))[j := blk], bb_num := bb_num bb + 1\<rparr>"
  shows "u32_list_ok bb' \<and> set (elems bb') = insert blk (set (elems bb)) \<and> slack bb' = slack bb"
proof -
  have b: "0 \<le> bb_num bb" "bb_size bb < 2 ^ 31" "length (bb_list bb) = nat (bb_size bb)" "sorted_wrt (<) (elems bb)" "bb_magic bb"
    using ok by (simp_all add: u32_list_ok_def)
  have l: "nat (bb_num bb) < length (bb_list bb)" using b n by simp
  have e: "elems bb' = take j (elems bb) @ blk # drop j (elems bb)"
    unfolding elems_def bb' using take_shift_up [OF l j, of blk] b(1) by (simp add: nat_add_distrib)
  have "\<forall>k < j. elems bb ! k < blk" "\<forall>k. j \<le> k \<and> k < length (elems bb) \<longrightarrow> blk < elems bb ! k"
    using k j elems_nth [OF ok] by auto
  note si = sorted_insert_at [OF b(4) _ this]
  show ?thesis using si j elems_nth(2) [OF ok] b n unfolding u32_list_ok_def e by (simp add: bb' slack_def)
qed

lemma shift_up_same: "shift_up n n l = l"
  by (cases n) simp_all

lemma add_spec:
  assumes "u32_list_ok bb" "bb_num bb < bb_size bb \<or> (\<exists>new. fresh = Some new \<and> length new = 100) \<and> 0 < slack bb"
  shows "\<exists>bb'. ext2fs_u32_list_add fresh bb blk = (None, bb') \<and> u32_list_ok bb' \<and> set (elems bb') = insert blk (set (elems bb)) \<and>
     slack bb \<le> slack bb' + 1"
proof -
  obtain b where g: "grow_u32_list fresh bb = Inr b" and b: "u32_list_ok b" "elems b = elems bb" "bb_num b < bb_size b" "slack bb \<le> slack b + 1"
    using grow_spec [OF assms] by blast
  have m: "bb_magic bb" using assms(1) by (simp add: u32_list_ok_def)
  let ?l = "bb_list b" and ?n = "nat (bb_num b)" and ?i = "nat (bb_num b - 1)"
  have st: "sorted_wrt (<) (take ?n ?l)" "?n \<le> length ?l" "0 \<le> bb_num b" using b(1) num_le [OF b(1)] by (simp_all add: u32_list_ok_def elems_def)
  have i: "bb_num b \<noteq> 0 \<Longrightarrow> ?i < ?n \<and> ?n = ?i + 1" using st(3) by linarith
  consider (same) "bb_num b \<noteq> 0" "?l ! ?i = blk" | (last) "bb_num b = 0 \<or> ?l ! ?i < blk" "\<not> (bb_num b \<noteq> 0 \<and> ?l ! ?i = blk)"
    | (scan) "\<not> (bb_num b \<noteq> 0 \<and> ?l ! ?i = blk)" "\<not> (bb_num b = 0 \<or> ?l ! ?i < blk)" by blast
  then show ?thesis
  proof cases
    case same
    then have "blk \<in> set (elems b)" using i elems_nth [OF b(1)] by (auto simp: in_set_conv_nth)
    then show ?thesis using same g m b by (auto simp: ext2fs_u32_list_add_def)
  next
    case last
    have "?l ! k < blk" if "k < ?n" for k
    proof -
      have "bb_num b \<noteq> 0" using that by auto
      then have "k = ?i \<or> ?l ! k < ?l ! ?i" "?l ! ?i < blk" using that i st last by (auto simp: sorted_wrt_iff_nth_less less_Suc_eq)
      then show ?thesis by auto
    qed
    then have p: "\<forall>k < ?n. ?l ! k < blk" by blast
    have "u32_list_ok (b\<lparr>bb_list := ?l[?n := blk], bb_num := bb_num b + 1\<rparr>) \<and>
        set (elems (b\<lparr>bb_list := ?l[?n := blk], bb_num := bb_num b + 1\<rparr>)) = insert blk (set (elems b)) \<and>
        slack (b\<lparr>bb_list := ?l[?n := blk], bb_num := bb_num b + 1\<rparr>) = slack b"
      by (rule place_spec [OF b(1,3) le_refl p]) (auto simp: shift_up_same)
    then show ?thesis using last g m b by (auto simp: ext2fs_u32_list_add_def Let_def)
  next
    case scan
    have sc: "case add_scan ?l blk 0 ?n of None \<Rightarrow> blk \<in> set (take ?n ?l)
       | Some j \<Rightarrow> j \<le> ?n \<and> (\<forall>k < j. ?l ! k < blk) \<and> (\<forall>k. j \<le> k \<and> k < ?n \<longrightarrow> blk < ?l ! k)"
      by (rule add_scan_spec [OF st(1,2)]) simp_all
    show ?thesis
    proof (cases "add_scan ?l blk 0 ?n")
      case None
      then have "blk \<in> set (elems b)" using sc by (simp add: elems_def)
      then show ?thesis using None scan g m b by (auto simp: ext2fs_u32_list_add_def Let_def)
    next
      case (Some j)
      then have j: "j \<le> ?n" "\<forall>k < j. ?l ! k < blk" "\<forall>k. j \<le> k \<and> k < ?n \<longrightarrow> blk < ?l ! k" using sc by simp_all
      from place_spec [OF b(1,3) j refl] show ?thesis using Some scan g m b by (auto simp: ext2fs_u32_list_add_def Let_def)
    qed
  qed
qed

lemma del_spec:
  assumes ok: "u32_list_ok bb"
  shows "if blk \<in> set (elems bb)
     then \<exists>bb'. ext2fs_u32_list_del bb blk = (0, bb') \<and> u32_list_ok bb' \<and> set (elems bb') = set (elems bb) - {blk} \<and> slack bb' = slack bb
     else ext2fs_u32_list_del bb blk = (-1, bb)"
proof (cases "blk \<in> set (elems bb)")
  case False
  then have "ext2fs_u32_list_find bb blk = -1" using find_spec [OF ok, of blk] elems_nth(2) [OF ok] by (metis nth_mem)
  then show ?thesis using False by (simp add: ext2fs_u32_list_del_def)
next
  case True
  define r where "r = ext2fs_u32_list_find bb blk"
  have r: "0 \<le> r" "nat r < nat (bb_num bb)" "elems bb ! nat r = blk" using find_spec [OF ok, of blk] True unfolding r_def by auto
  let ?n = "nat (bb_num bb)"
  define bb' where "bb' = bb\<lparr>bb_list := shift_down (nat r) (nat (bb_num bb - 1 - r)) (bb_list bb), bb_num := bb_num bb - 1\<rparr>"
  have d: "ext2fs_u32_list_del bb blk = (0, bb')" using r by (simp add: ext2fs_u32_list_del_def bb'_def r_def [symmetric] Let_def)
  have b: "0 \<le> bb_num bb" "sorted_wrt (<) (elems bb)" using ok by (simp_all add: u32_list_ok_def)
  have q: "nat (bb_num bb - 1) = ?n - 1" "nat (bb_num bb - 1 - r) = ?n - 1 - nat r" using r(1,2) b(1) by linarith+
  have e: "elems bb' = take (nat r) (elems bb) @ drop (nat r + 1) (elems bb)"
  proof -
    have "bb_list bb' = shift_down (nat r) (?n - 1 - nat r) (bb_list bb)" unfolding bb'_def q(2) [symmetric] by simp
    moreover have "nat (bb_num bb') = ?n - 1" unfolding bb'_def q(1) [symmetric] by simp
    ultimately show ?thesis using take_shift_down [OF r(2) num_le [OF ok]] unfolding elems_def by simp
  qed
  have x: "elems bb = take (nat r) (elems bb) @ blk # drop (nat r + 1) (elems bb)"
    using r elems_nth(2) [OF ok] by (metis Suc_eq_plus1 id_take_nth_drop)
  have s: "sorted_wrt (<) (take (nat r) (elems bb) @ blk # drop (nat r + 1) (elems bb))" using b(2) x by metis
  have "set (elems bb) = insert blk (set (take (nat r) (elems bb) @ drop (nat r + 1) (elems bb)))"
    by (subst x) simp
  moreover have "blk \<notin> set (take (nat r) (elems bb) @ drop (nat r + 1) (elems bb))" using s by (auto simp: sorted_wrt_append)
  ultimately have "set (elems bb') = set (elems bb) - {blk}" unfolding e by blast
  moreover have "sorted_wrt (<) (elems bb')" unfolding e using s by (simp add: sorted_wrt_append)
  moreover have "slack bb' = slack bb" by (simp add: bb'_def slack_def)
  ultimately show ?thesis using True d ok r(1,2) by (simp add: u32_list_ok_def bb'_def)
qed

section \<open>Sets of blocks as an interface\<close>

text \<open>
  What the users of such a list rely on: it is a set with insertion, deletion and a membership test. An insertion may
  need memory, and \<open>room\<close> counts how many more insertions are safe. The client's lemma is that after any
  sequence of operations the tests answer for the set that the sequence describes.
\<close>

locale block_set =
  fixes inv :: "'s \<Rightarrow> bool"
    and members :: "'s \<Rightarrow> 'a set"
    and room :: "'s \<Rightarrow> nat"
    and mem_ok :: "'m \<Rightarrow> bool"
    and add :: "'m \<Rightarrow> 's \<Rightarrow> 'a \<Rightarrow> 's"
    and del :: "'s \<Rightarrow> 'a \<Rightarrow> 's"
    and test :: "'s \<Rightarrow> 'a \<Rightarrow> bool"
  assumes add_law: "inv s \<Longrightarrow> mem_ok mem \<Longrightarrow> 0 < room s \<Longrightarrow>
      inv (add mem s x) \<and> members (add mem s x) = insert x (members s) \<and> room s \<le> room (add mem s x) + 1"
    and del_law: "inv s \<Longrightarrow> inv (del s x) \<and> members (del s x) = members s - {x} \<and> room (del s x) = room s"
    and test_law: "inv s \<Longrightarrow> test s x \<longleftrightarrow> x \<in> members s"
begin

lemma run_refines:
  assumes "inv s" "\<forall>p \<in> set ops. case p of Insert_op mem x \<Rightarrow> mem_ok mem | Delete_op x \<Rightarrow> True" "length ops \<le> room s"
  shows "inv (run_ops add del ops s) \<and> members (run_ops add del ops s) = set_after ops (members s)"
  using assms
proof (induction ops arbitrary: s)
  case (Cons p ops)
  show ?case
  proof (cases p)
    case (Insert_op mem x)
    then have "inv (add mem s x) \<and> members (add mem s x) = insert x (members s) \<and> room s \<le> room (add mem s x) + 1"
      using Cons.prems by (intro add_law) auto
    then show ?thesis using Cons.IH [of "add mem s x"] Cons.prems Insert_op by simp
  next
    case (Delete_op x)
    then show ?thesis using Cons.IH [of "del s x"] Cons.prems del_law [of s x] by simp
  qed
qed simp

lemma test_after:
  assumes "inv s" "\<forall>p \<in> set ops. case p of Insert_op mem x \<Rightarrow> mem_ok mem | Delete_op x \<Rightarrow> True" "length ops \<le> room s"
  shows "test (run_ops add del ops s) x \<longleftrightarrow> x \<in> set_after ops (members s)"
  using run_refines [OF assms] test_law by simp

end

interpretation bad_blocks: block_set u32_list_ok "\<lambda>bb. set (elems bb)" slack "\<lambda>new. length new = 100"
  "\<lambda>new bb blk. snd (ext2fs_badblocks_list_add (Some new) bb blk)" ext2fs_badblocks_list_del
  "\<lambda>bb blk. ext2fs_badblocks_list_test bb blk \<noteq> 0"
proof
  show "u32_list_ok (snd (ext2fs_badblocks_list_add (Some new) bb x)) \<and>
      set (elems (snd (ext2fs_badblocks_list_add (Some new) bb x))) = insert x (set (elems bb)) \<and>
      slack bb \<le> slack (snd (ext2fs_badblocks_list_add (Some new) bb x)) + 1"
    if a: "u32_list_ok bb" "length new = 100" "0 < slack bb" for bb new x
  proof -
    obtain bb' where "ext2fs_u32_list_add (Some new) bb x = (None, bb')" "u32_list_ok bb'" "set (elems bb') = insert x (set (elems bb))"
      "slack bb \<le> slack bb' + 1" using add_spec [OF a(1), of "Some new" x] a(2,3) by blast
    then show ?thesis by (simp add: ext2fs_badblocks_list_add_def)
  qed
  show "u32_list_ok (ext2fs_badblocks_list_del bb x) \<and> set (elems (ext2fs_badblocks_list_del bb x)) = set (elems bb) - {x} \<and>
      slack (ext2fs_badblocks_list_del bb x) = slack bb" if a: "u32_list_ok bb" for bb x
  proof (cases "x \<in> set (elems bb)")
    case True
    then obtain bb' where "ext2fs_u32_list_del bb x = (0, bb')" "u32_list_ok bb'" "set (elems bb') = set (elems bb) - {x}" "slack bb' = slack bb"
      using del_spec [OF a, of x] by (simp only: if_True) blast
    then show ?thesis by (simp add: ext2fs_badblocks_list_del_def)
  next
    case False
    then have "ext2fs_u32_list_del bb x = (-1, bb)" using del_spec [OF a, of x] by (simp only: if_False)
    then show ?thesis using False a by (simp add: ext2fs_badblocks_list_del_def)
  qed
  show "ext2fs_badblocks_list_test bb x \<noteq> 0 \<longleftrightarrow> x \<in> set (elems bb)" if "u32_list_ok bb" for bb x
  proof -
    have "0 \<le> ext2fs_u32_list_find bb x \<longleftrightarrow> x \<in> set (elems bb)"
      using find_spec [OF that, of x] elems_nth(2) [OF that] by (metis nth_mem neg_0_le_iff_le not_one_le_zero)
    then show ?thesis unfolding ext2fs_badblocks_list_test_def ext2fs_u32_list_test_def by auto
  qed
qed

section \<open>Properties\<close>

text \<open>
  C26: a bad block list is a set. Created empty and put through any sequence of additions and removals, with memory
  available and not so long that the size of the array could leave an \<^verbatim>\<open>int\<close>, it answers every membership
  test by bisection as the set does, and its blocks stay sorted without duplicates.
\<close>

theorem badblocks_refine_set:
  assumes "ext2fs_badblocks_list_create True n = Inr bb" "0 \<le> n" "n < 2 ^ 31 - 100 * int (length ops)" "length ops < 21474836"
    and "\<forall>p \<in> set ops. case p of Insert_op new blk \<Rightarrow> length new = 100 | Delete_op blk \<Rightarrow> True"
    and "bb' = run_ops (\<lambda>new bb blk. snd (ext2fs_badblocks_list_add (Some new) bb blk)) ext2fs_badblocks_list_del ops bb"
  shows "(ext2fs_badblocks_list_test bb' blk \<noteq> 0 \<longleftrightarrow> blk \<in> set_after ops {}) \<and>
     sorted_wrt (<) (elems bb') \<and> set (elems bb') = set_after ops {}"
proof -
  have bb: "u32_list_ok bb" "elems bb = []"
    using assms(1,2,3) by (auto simp: ext2fs_badblocks_list_create_def make_u32_list_def Let_def u32_list_ok_def elems_def)
  have "100 * int (length ops) \<le> 2 ^ 31 - 1 - bb_size bb"
    using assms(1,3,4) by (auto simp: ext2fs_badblocks_list_create_def make_u32_list_def Let_def)
  then have "int (length ops) \<le> (2 ^ 31 - 1 - bb_size bb) div 100" by linarith
  then have r: "length ops \<le> slack bb" unfolding slack_def by linarith
  show ?thesis using bad_blocks.run_refines [OF bb(1) assms(5) r] bad_blocks.test_after [OF bb(1) assms(5) r, of blk] bb(2)
    unfolding assms(6) by (simp add: u32_list_ok_def)
qed

theorem badblocks_refine_set_witness:
  "ext2fs_badblocks_list_create True 2 = Inr sample_bb \<and>
   ext2fs_badblocks_list_test (run_ops (\<lambda>new bb blk. snd (ext2fs_badblocks_list_add (Some new) bb blk)) ext2fs_badblocks_list_del
     sample_ops sample_bb) 5 \<noteq> 0"
proof -
  have c: "ext2fs_badblocks_list_create True 2 = Inr sample_bb"
    by (simp add: ext2fs_badblocks_list_create_def make_u32_list_def sample_bb_def numeral_2_eq_2)
  from badblocks_refine_set [OF c, of sample_ops _ 5, OF _ _ _ _ refl] c show ?thesis by (simp add: sample_ops_def)
qed

lemma drain_elems:
  assumes "u32_list_ok bb" "it_magic iter" "it_bb iter = bb" "0 \<le> it_ptr iter" "it_ptr iter \<le> bb_num bb" "nat (bb_num bb - it_ptr iter) \<le> n"
  shows "drain n iter = drop (nat (it_ptr iter)) (elems bb)"
  using assms(2-)
proof (induction n arbitrary: iter)
  case 0
  then show ?case using elems_nth(2) [OF assms(1)] by simp
next
  case (Suc n)
  have m: "bb_magic bb" using assms(1) by (simp add: u32_list_ok_def)
  show ?case
  proof (cases "it_ptr iter < bb_num bb")
    case True
    let ?p = "nat (it_ptr iter)"
    have p: "?p < nat (bb_num bb)" "nat (it_ptr iter + 1) = Suc ?p" using True Suc.prems(3) by simp_all
    have "drain n (iter\<lparr>it_ptr := it_ptr iter + 1\<rparr>) = drop (Suc ?p) (elems bb)"
      using Suc.IH [of "iter\<lparr>it_ptr := it_ptr iter + 1\<rparr>"] Suc.prems True p(2) by simp
    moreover have "drop ?p (elems bb) = bb_list bb ! ?p # drop (Suc ?p) (elems bb)"
      using p(1) elems_nth [OF assms(1)] by (simp add: Cons_nth_drop_Suc [symmetric])
    ultimately show ?thesis using True Suc.prems m by (simp add: ext2fs_u32_list_iterate_def)
  next
    case False
    then show ?thesis using Suc.prems m elems_nth(2) [OF assms(1)] by (simp add: ext2fs_u32_list_iterate_def)
  qed
qed

text \<open>
  Comparing two bad block lists by the bytes of their arrays compares the sets, a copy is equal to its original,
  and iterating over a list delivers its blocks in increasing order, each once, and then ends.
\<close>

theorem badblocks_equal_sets:
  assumes "u32_list_ok bb1" "u32_list_ok bb2" "ext2fs_badblocks_copy True bb1 = Inr bb3" "ext2fs_u32_list_iterate_begin True bb1 = Inr iter"
  shows "ext2fs_badblocks_equal bb1 bb2 = Inr (set (elems bb1) = set (elems bb2)) \<and>
     ext2fs_badblocks_equal bb1 bb3 = Inr True \<and>
     (\<forall>n \<ge> nat (ext2fs_u32_list_count bb1). drain n iter = sorted_list_of_set (set (elems bb1)))"
proof -
  have s: "sorted_wrt (<) (elems bb1)" "sorted_wrt (<) (elems bb2)" "bb_magic bb1" "bb_magic bb2"
    using assms(1,2) by (simp_all add: u32_list_ok_def)
  have i: "set (elems bb1) = set (elems bb2) \<longleftrightarrow> elems bb1 = elems bb2" using strict_sorted_equal [OF s(1,2)] by auto
  have n: "elems bb1 = elems bb2 \<Longrightarrow> bb_num bb1 = bb_num bb2"
    using elems_nth(2) [OF assms(1)] elems_nth(2) [OF assms(2)] assms(1,2) by (auto simp: u32_list_ok_def)
  have e: "ext2fs_badblocks_equal bb1 bb2 = Inr (elems bb1 = elems bb2)"
    using s(3,4) n by (auto simp: ext2fs_badblocks_equal_def ext2fs_u32_list_equal_def elems_def)
  have c: "ext2fs_badblocks_equal bb1 bb3 = Inr True"
  proof -
    have "bb_num bb3 = bb_num bb1" "bb_list bb3 = bb_list bb1" "bb_magic bb3"
      using assms(1,3) by (auto simp: ext2fs_badblocks_copy_def ext2fs_u32_copy_def make_u32_list_def Let_def u32_list_ok_def split: if_splits)
    then show ?thesis using s(3) by (simp add: ext2fs_badblocks_equal_def ext2fs_u32_list_equal_def)
  qed
  have "drain n iter = elems bb1" if "nat (bb_num bb1) \<le> n" for n
    using drain_elems [OF assms(1), of iter n] assms(1,4) s(3) that
    by (auto simp: ext2fs_u32_list_iterate_begin_def u32_list_ok_def split: if_splits)
  moreover have "sorted_list_of_set (set (elems bb1)) = elems bb1"
    using s(1) by (simp add: sorted_list_of_set.idem_if_sorted_distinct strict_sorted_iff)
  ultimately show ?thesis unfolding i using e c by (simp add: ext2fs_u32_list_count_def)
qed

theorem badblocks_equal_sets_witness:
  "ext2fs_badblocks_equal sample_bb sample_bb = Inr True \<and> drain 5 \<lparr>it_magic = True, it_bb = sample_bb, it_ptr = 0\<rparr> = []"
proof -
  have ok: "u32_list_ok sample_bb" "elems sample_bb = []" by (simp_all add: u32_list_ok_def elems_def sample_bb_def)
  have c: "ext2fs_badblocks_copy True sample_bb = Inr sample_bb"
    by (simp add: ext2fs_badblocks_copy_def ext2fs_u32_copy_def make_u32_list_def sample_bb_def)
  have i: "ext2fs_u32_list_iterate_begin True sample_bb = Inr \<lparr>it_magic = True, it_bb = sample_bb, it_ptr = 0\<rparr>"
    by (simp add: ext2fs_u32_list_iterate_begin_def sample_bb_def)
  have n: "nat (ext2fs_u32_list_count sample_bb) \<le> 5" by (simp add: ext2fs_u32_list_count_def sample_bb_def)
  from badblocks_equal_sets [OF ok(1,1) c i] n show ?thesis by (simp add: ok(2))
qed

end
