(* ===== verification/E2fsck_Refcount.thy ===== *)
theory E2fsck_Refcount
  imports Ext2_Prelude
begin

text \<open>
  The reference counts of extended attribute blocks in the file system checker, \<^verbatim>\<open>e2fsck/ea_refcount.c\<close>: a sorted array
  of blocks with their counts, with a cursor that makes lookups in order cheap. The array has \<open>rc_size\<close> cells
  of which the first \<open>rc_count\<close> are in use; entries whose count has dropped to zero stay until the array is
  full and is collapsed. The new cells that \<^verbatim>\<open>ext2fs_resize_mem\<close> delivers are an argument, \<open>None\<close> when it
  fails. The indices stay below the size of the array, so their \<^verbatim>\<open>int\<close> and \<^verbatim>\<open>blk_t\<close> arithmetic does not wrap
  around for arrays of fewer than \<open>2 ^ 30\<close> cells, which the specification asks for; the counts are kept at
  their width.
\<close>

section \<open>Data\<close>

record ea_refcount_el =
  ea_blk :: u32
  ea_count :: int

record ea_refcount =
  rc_count :: nat
  rc_size :: nat
  rc_cursor :: nat
  rc_list :: "ea_refcount_el list"

section \<open>Operations\<close>

definition ea_refcount_create :: "bool \<Rightarrow> nat \<Rightarrow> ea_refcount option" where
  "ea_refcount_create mem sz =
     (if \<not> mem then None
      else
        let sz = (if sz = 0 then 500 else sz) in
        Some \<lparr>rc_count = 0, rc_size = sz, rc_cursor = 0, rc_list = replicate sz \<lparr>ea_blk = 0, ea_count = 0\<rparr>\<rparr>)"

text \<open>The loop of \<open>refcount_collapse\<close> from index \<open>i\<close> on, over \<open>n\<close> entries, where \<open>j\<close> have been kept.\<close>

fun collapse_loop :: "ea_refcount_el list \<Rightarrow> nat \<Rightarrow> nat \<Rightarrow> nat \<Rightarrow> ea_refcount_el list \<times> nat" where
  "collapse_loop list i 0 j = (list, j)"
| "collapse_loop list i (Suc n) j =
     (if ea_count (list ! i) \<noteq> 0
      then collapse_loop (if i \<noteq> j then list[j := list ! i] else list) (i + 1) n (j + 1)
      else collapse_loop list (i + 1) n j)"

definition refcount_collapse :: "ea_refcount \<Rightarrow> ea_refcount" where
  "refcount_collapse refcount =
     (case collapse_loop (rc_list refcount) 0 (rc_count refcount) 0 of (list, j) \<Rightarrow> refcount\<lparr>rc_list := list, rc_count := j\<rparr>)"

text \<open>The result is the index of the new entry, \<open>None\<close> for the null pointer.\<close>

definition insert_refcount_el :: "ea_refcount_el list option \<Rightarrow> ea_refcount \<Rightarrow> u32 \<Rightarrow> nat \<Rightarrow> nat option \<times> ea_refcount" where
  "insert_refcount_el fresh refcount blk pos =
     (case (if rc_count refcount \<ge> rc_size refcount then
              case fresh of
                None \<Rightarrow> None
              | Some new \<Rightarrow> Some (refcount\<lparr>rc_list := rc_list refcount @ new, rc_size := rc_size refcount + 100\<rparr>)
            else Some refcount) of
        None \<Rightarrow> (None, refcount)
      | Some refcount \<Rightarrow>
          let num = int (rc_count refcount) - int pos; l = rc_list refcount in
          if num < 0 then (None, refcount)
          else
            let l = (if num \<noteq> 0 then take (pos + 1) l @ take (nat num) (drop pos l) @ drop (pos + 1 + nat num) l else l) in
            (Some pos, refcount\<lparr>rc_count := rc_count refcount + 1, rc_list := l[pos := \<lparr>ea_blk = blk, ea_count = 0\<rparr>]\<rparr>))"

text \<open>The bisection: the index of the block, or where it belongs.\<close>

function refcount_search :: "ea_refcount_el list \<Rightarrow> u32 \<Rightarrow> int \<Rightarrow> int \<Rightarrow> nat + nat" where
  "refcount_search list blk low high =
     (if low \<le> high then
        let mid = (low + high) div 2 in
        if blk = ea_blk (list ! nat mid) then Inl (nat mid)
        else if blk < ea_blk (list ! nat mid) then refcount_search list blk low (mid - 1)
        else refcount_search list blk (mid + 1) high
      else Inr (nat low))"
  by pat_completeness auto
termination by (relation "measure (\<lambda>(list, blk, low, high). nat (high - low + 1))") auto

function get_refcount_el :: "ea_refcount_el list option \<Rightarrow> ea_refcount \<Rightarrow> u32 \<Rightarrow> bool \<Rightarrow> nat option \<times> ea_refcount" where
  "get_refcount_el fresh refcount blk create =
     (let high = int (rc_count refcount) - 1 in
      if create \<and> (rc_count refcount = 0 \<or> blk > ea_blk (rc_list refcount ! nat high)) then
        let refcount = (if rc_count refcount \<ge> rc_size refcount then refcount_collapse refcount else refcount) in
        insert_refcount_el fresh refcount blk (rc_count refcount)
      else if rc_count refcount = 0 then (None, refcount)
      else
        let refcount = (if rc_cursor refcount \<ge> rc_count refcount then refcount\<lparr>rc_cursor := 0\<rparr> else refcount) in
        if blk = ea_blk (rc_list refcount ! rc_cursor refcount)
        then (Some (rc_cursor refcount), refcount\<lparr>rc_cursor := rc_cursor refcount + 1\<rparr>)
        else
          case refcount_search (rc_list refcount) blk 0 high of
            Inl mid \<Rightarrow> (Some mid, refcount\<lparr>rc_cursor := mid + 1\<rparr>)
          | Inr low \<Rightarrow>
              if create then
                if rc_count refcount \<ge> rc_size refcount then
                  let refcount = refcount_collapse refcount in
                  if rc_count refcount < rc_size refcount then get_refcount_el fresh refcount blk create
                  else insert_refcount_el fresh refcount blk low
                else insert_refcount_el fresh refcount blk low
              else (None, refcount))"
  by pat_completeness auto
termination by (relation "measure (\<lambda>(fresh, refcount, blk, create). if rc_count refcount \<ge> rc_size refcount then 1 else 0)")
  (auto split: if_splits)

definition ea_refcount_fetch :: "ea_refcount \<Rightarrow> u32 \<Rightarrow> int \<times> ea_refcount" where
  "ea_refcount_fetch refcount blk =
     (case get_refcount_el None refcount blk False of
        (None, refcount) \<Rightarrow> (0, refcount)
      | (Some el, refcount) \<Rightarrow> (ea_count (rc_list refcount ! el), refcount))"

definition set_count :: "nat \<Rightarrow> int \<Rightarrow> ea_refcount \<Rightarrow> ea_refcount" where
  "set_count el c refcount = refcount\<lparr>rc_list := (rc_list refcount)[el := (rc_list refcount ! el)\<lparr>ea_count := c\<rparr>]\<rparr>"

text \<open>\<open>Inl True\<close> is \<^verbatim>\<open>EXT2_ET_NO_MEMORY\<close> and \<open>Inl False\<close> is \<^verbatim>\<open>EXT2_ET_INVALID_ARGUMENT\<close>; else the new count.\<close>

definition ea_refcount_increment :: "ea_refcount_el list option \<Rightarrow> ea_refcount \<Rightarrow> u32 \<Rightarrow> (bool + int) \<times> ea_refcount" where
  "ea_refcount_increment fresh refcount blk =
     (case get_refcount_el fresh refcount blk True of
        (None, refcount) \<Rightarrow> (Inl True, refcount)
      | (Some el, refcount) \<Rightarrow>
          let c = int32 (ea_count (rc_list refcount ! el) + 1) in (Inr c, set_count el c refcount))"

definition ea_refcount_decrement :: "ea_refcount \<Rightarrow> u32 \<Rightarrow> (bool + int) \<times> ea_refcount" where
  "ea_refcount_decrement refcount blk =
     (case get_refcount_el None refcount blk False of
        (None, refcount) \<Rightarrow> (Inl False, refcount)
      | (Some el, refcount) \<Rightarrow>
          if ea_count (rc_list refcount ! el) = 0 then (Inl False, refcount)
          else let c = int32 (ea_count (rc_list refcount ! el) - 1) in (Inr c, set_count el c refcount))"

definition ea_refcount_store :: "ea_refcount_el list option \<Rightarrow> ea_refcount \<Rightarrow> u32 \<Rightarrow> int \<Rightarrow> bool option \<times> ea_refcount" where
  "ea_refcount_store fresh refcount blk c =
     (case get_refcount_el fresh refcount blk (c \<noteq> 0) of
        (None, refcount) \<Rightarrow> (if c \<noteq> 0 then Some True else None, refcount)
      | (Some el, refcount) \<Rightarrow> (None, set_count el c refcount))"

definition ea_refcount_intr_begin :: "ea_refcount \<Rightarrow> ea_refcount" where
  "ea_refcount_intr_begin refcount = refcount\<lparr>rc_cursor := 0\<rparr>"

text \<open>The block 0 tells the end; the count is delivered with a block.\<close>

function intr_next :: "ea_refcount \<Rightarrow> (u32 \<times> int option) \<times> ea_refcount" where
  "intr_next refcount =
     (if rc_cursor refcount \<ge> rc_count refcount then ((0, None), refcount)
      else
        let e = rc_list refcount ! rc_cursor refcount; refcount = refcount\<lparr>rc_cursor := rc_cursor refcount + 1\<rparr> in
        if ea_count e \<noteq> 0 then ((ea_blk e, Some (ea_count e)), refcount)
        else intr_next refcount)"
  by pat_completeness auto
termination by (relation "measure (\<lambda>refcount. rc_count refcount - rc_cursor refcount)") auto

declare refcount_search.simps [simp del] get_refcount_el.simps [simp del] intr_next.simps [simp del]

section \<open>Specifications\<close>

text \<open>The entries in use, the count they give a block, and well-formed tables.\<close>

definition entries :: "ea_refcount \<Rightarrow> ea_refcount_el list" where
  "entries rc = take (rc_count rc) (rc_list rc)"

definition count_of :: "ea_refcount_el list \<Rightarrow> u32 \<Rightarrow> int" where
  "count_of es blk = (\<Sum>e\<leftarrow>es. if ea_blk e = blk then ea_count e else 0)"

definition refcount_ok :: "ea_refcount \<Rightarrow> bool" where
  "refcount_ok rc \<longleftrightarrow> rc_count rc \<le> rc_size rc \<and> rc_size rc < 2 ^ 30 \<and> length (rc_list rc) = rc_size rc \<and>
     sorted_wrt (<) (map ea_blk (entries rc))"

definition table_room :: "ea_refcount \<Rightarrow> nat" where
  "table_room rc = (2 ^ 30 - 1 - rc_size rc) div 100"

text \<open>Sequences of operations on a table of counts, and the counts they describe.\<close>

datatype 'k count_op = Store_op 'k int | Incr_op 'k | Decr_op 'k

fun run_counts :: "('s \<Rightarrow> 'k \<Rightarrow> int \<Rightarrow> 's) \<Rightarrow> ('s \<Rightarrow> 'k \<Rightarrow> 's) \<Rightarrow> ('s \<Rightarrow> 'k \<Rightarrow> 's) \<Rightarrow> 'k count_op list \<Rightarrow> 's \<Rightarrow> 's" where
  "run_counts store incr decr [] s = s"
| "run_counts store incr decr (Store_op k c # ops) s = run_counts store incr decr ops (store s k c)"
| "run_counts store incr decr (Incr_op k # ops) s = run_counts store incr decr ops (incr s k)"
| "run_counts store incr decr (Decr_op k # ops) s = run_counts store incr decr ops (decr s k)"

fun counts_after :: "'k count_op list \<Rightarrow> ('k \<Rightarrow> int) \<Rightarrow> 'k \<Rightarrow> int" where
  "counts_after [] f = f"
| "counts_after (Store_op k c # ops) f = counts_after ops (f(k := c))"
| "counts_after (Incr_op k # ops) f = counts_after ops (f(k := f k + 1))"
| "counts_after (Decr_op k # ops) f = counts_after ops (f(k := f k - (if f k = 0 then 0 else 1)))"

fun stores_below :: "int \<Rightarrow> 'k count_op list \<Rightarrow> bool" where
  "stores_below b [] \<longleftrightarrow> True"
| "stores_below b (Store_op k c # ops) \<longleftrightarrow> 0 \<le> c \<and> c < b \<and> stores_below b ops"
| "stores_below b (Incr_op k # ops) \<longleftrightarrow> stores_below b ops"
| "stores_below b (Decr_op k # ops) \<longleftrightarrow> stores_below b ops"

definition has_room :: "ea_refcount_el list option \<Rightarrow> ea_refcount \<Rightarrow> bool" where
  "has_room fresh rc \<longleftrightarrow> rc_count rc < rc_size rc \<or> (\<exists>new. fresh = Some new \<and> length new = 100) \<and> rc_size rc + 100 < 2 ^ 30"

text \<open>What a call that creates an entry for \<open>blk\<close> at index \<open>i\<close> leaves.\<close>

definition entry_made :: "ea_refcount \<Rightarrow> u32 \<Rightarrow> nat \<Rightarrow> ea_refcount \<Rightarrow> bool" where
  "entry_made rc blk i rc' \<longleftrightarrow> refcount_ok rc' \<and> i < rc_count rc' \<and> ea_blk (entries rc' ! i) = blk \<and>
     count_of (entries rc') = count_of (entries rc) \<and> table_room rc \<le> table_room rc' + 1"

text \<open>The interface on the table of the checker, with memory that is always delivered.\<close>

abbreviation fresh_cells :: "ea_refcount_el list option" where
  "fresh_cells \<equiv> Some (replicate 100 \<lparr>ea_blk = 0, ea_count = 0\<rparr>)"

definition sample_counts :: "u32 count_op list" where
  "sample_counts = [Incr_op 7, Store_op 3 5, Incr_op 7, Decr_op 3]"

definition sample_table :: ea_refcount where
  "sample_table = \<lparr>rc_count = 0, rc_size = 2, rc_cursor = 0, rc_list = replicate 2 \<lparr>ea_blk = 0, ea_count = 0\<rparr>\<rparr>"

definition sample_used :: ea_refcount where
  "sample_used = \<lparr>rc_count = 2, rc_size = 2, rc_cursor = 0, rc_list = [\<lparr>ea_blk = 7, ea_count = 2\<rparr>, \<lparr>ea_blk = 9, ea_count = 0\<rparr>]\<rparr>"

text \<open>Iterating delivers the entries with a count in order, each once, and ends.\<close>

fun drain_counts :: "nat \<Rightarrow> ea_refcount \<Rightarrow> (u32 \<times> int) list" where
  "drain_counts 0 rc = []"
| "drain_counts (Suc n) rc = (case intr_next rc of ((blk, Some c), rc') \<Rightarrow> (blk, c) # drain_counts n rc' | _ \<Rightarrow> [])"

section \<open>Lemmas\<close>

lemma stores_below_mono: "stores_below a ops \<Longrightarrow> a \<le> b \<Longrightarrow> stores_below b ops"
  by (induction a ops rule: stores_below.induct) auto

lemma count_of_append [simp]: "count_of (xs @ ys) blk = count_of xs blk + count_of ys blk" "count_of [] blk = 0"
  "count_of (e # es) blk = (if ea_blk e = blk then ea_count e else 0) + count_of es blk"
  by (simp_all add: count_of_def)

lemma count_of_filter: "count_of (filter (\<lambda>e. ea_count e \<noteq> 0) es) blk = count_of es blk"
  by (induction es) simp_all

lemma count_of_notin: "blk \<notin> ea_blk ` set es \<Longrightarrow> count_of es blk = 0"
  by (induction es) auto

lemma count_of_nth:
  assumes "sorted_wrt (<) (map ea_blk es)" "i < length es"
  shows "count_of es (ea_blk (es ! i)) = ea_count (es ! i)"
    "count_of (es[i := (es ! i)\<lparr>ea_count := c\<rparr>]) b = (if b = ea_blk (es ! i) then c else count_of es b)"
proof -
  let ?a = "take i es" and ?z = "drop (Suc i) es" and ?e = "es ! i"
  have es: "es = ?a @ ?e # ?z" using assms(2) by (rule id_take_nth_drop)
  have "sorted_wrt (<) (map ea_blk (?a @ ?e # ?z))" using assms(1) es by metis
  then have n: "ea_blk ?e \<notin> ea_blk ` set ?a" "ea_blk ?e \<notin> ea_blk ` set ?z" by (auto simp: sorted_wrt_append)
  have all: "count_of es b = count_of ?a b + (if ea_blk ?e = b then ea_count ?e else 0) + count_of ?z b" for b
    by (subst es) simp
  show "count_of es (ea_blk ?e) = ea_count ?e" unfolding all using n by (simp add: count_of_notin)
  have "es[i := ?e\<lparr>ea_count := c\<rparr>] = ?a @ ?e\<lparr>ea_count := c\<rparr> # ?z" using assms(2) by (rule upd_conv_take_nth_drop)
  then show "count_of (es[i := ?e\<lparr>ea_count := c\<rparr>]) b = (if b = ea_blk ?e then c else count_of es b)"
    unfolding all using n by (auto simp: count_of_notin)
qed

text \<open>Collapsing keeps the entries with a count, in order.\<close>

lemma collapse_loop_spec:
  assumes "j \<le> i" "i + n \<le> length l" "collapse_loop l i n j = (l', j')"
  shows "take j' l' = take j l @ filter (\<lambda>e. ea_count e \<noteq> 0) (take n (drop i l)) \<and> length l' = length l \<and> j' \<le> i + n"
  using assms
proof (induction l i n j rule: collapse_loop.induct)
  case (2 l i n j)
  let ?l = "if i \<noteq> j then l[j := l ! i] else l"
  have d: "take (Suc n) (drop i l) = l ! i # take n (drop (i + 1) l)" using "2.prems" by (simp add: Cons_nth_drop_Suc [symmetric])
  show ?case
  proof (cases "ea_count (l ! i) \<noteq> 0")
    case True
    have "take j' l' = take (j + 1) ?l @ filter (\<lambda>e. ea_count e \<noteq> 0) (take n (drop (i + 1) ?l)) \<and> length l' = length ?l \<and> j' \<le> i + 1 + n"
      by (rule "2.IH"(1) [OF True]) (use "2.prems" True in simp_all)
    moreover have "take (j + 1) ?l = take j l @ [l ! i]" using "2.prems" by (auto simp: take_Suc_conv_app_nth)
    moreover have "drop (i + 1) ?l = drop (i + 1) l" using "2.prems" by simp
    moreover have "length ?l = length l" by simp
    ultimately show ?thesis unfolding d using True by simp
  next
    case False
    have "take j' l' = take j l @ filter (\<lambda>e. ea_count e \<noteq> 0) (take n (drop (i + 1) l)) \<and> length l' = length l \<and> j' \<le> i + 1 + n"
      by (rule "2.IH"(2)) (use "2.prems" False in simp_all)
    then show ?thesis unfolding d using False by simp
  qed
qed simp

lemma collapse_spec:
  assumes "refcount_ok rc"
  shows "refcount_ok (refcount_collapse rc)" "count_of (entries (refcount_collapse rc)) = count_of (entries rc)"
    "rc_size (refcount_collapse rc) = rc_size rc" "set (entries (refcount_collapse rc)) \<subseteq> set (entries rc)"
    "rc_count (refcount_collapse rc) = rc_count rc \<Longrightarrow> entries (refcount_collapse rc) = entries rc"
    "rc_count (refcount_collapse rc) \<le> rc_count rc"
proof -
  obtain l j where lj: "collapse_loop (rc_list rc) 0 (rc_count rc) 0 = (l, j)" by fastforce
  have c: "rc_count rc \<le> length (rc_list rc)" using assms by (simp add: refcount_ok_def)
  have t: "take j l = filter (\<lambda>e. ea_count e \<noteq> 0) (entries rc)" "length l = length (rc_list rc)" "j \<le> rc_count rc"
    using collapse_loop_spec [OF _ _ lj] c by (simp_all add: entries_def)
  have r: "refcount_collapse rc = rc\<lparr>rc_list := l, rc_count := j\<rparr>" by (simp add: refcount_collapse_def lj)
  have e: "entries (refcount_collapse rc) = filter (\<lambda>e. ea_count e \<noteq> 0) (entries rc)" using t(1) by (simp add: r entries_def)
  show "set (entries (refcount_collapse rc)) \<subseteq> set (entries rc)" "rc_size (refcount_collapse rc) = rc_size rc"
    "rc_count (refcount_collapse rc) \<le> rc_count rc"
    unfolding e using t(3) by (auto simp: r)
  show "count_of (entries (refcount_collapse rc)) = count_of (entries rc)" unfolding e by (simp add: count_of_filter fun_eq_iff)
  have "sorted_wrt (<) (map ea_blk (filter (\<lambda>e. ea_count e \<noteq> 0) (entries rc)))"
    using assms by (simp add: refcount_ok_def sorted_wrt_map sorted_wrt_filter)
  then show "refcount_ok (refcount_collapse rc)" using assms t e unfolding refcount_ok_def e by (simp add: r)
  show "entries (refcount_collapse rc) = entries rc" if "rc_count (refcount_collapse rc) = rc_count rc"
  proof -
    have "length (take j l) = length (entries rc)" using that t(2) c by (simp add: r entries_def)
    then have "length (filter (\<lambda>e. ea_count e \<noteq> 0) (entries rc)) = length (entries rc)" unfolding t(1) .
    then show ?thesis unfolding e by (metis filter_True length_filter_less nless_le)
  qed
qed

text \<open>Inserting at a given place.\<close>

lemma length_entries: "refcount_ok rc \<Longrightarrow> length (entries rc) = rc_count rc"
  by (simp add: refcount_ok_def entries_def)

lemma entries_nth: "i < rc_count rc \<Longrightarrow> entries rc ! i = rc_list rc ! i"
  by (simp add: entries_def)

lemma memmove_entries:
  assumes "c < length l" "pos \<le> c" "l' = (if c \<noteq> pos then take (pos + 1) l @ take (c - pos) (drop pos l) @ drop (c + 1) l else l)"
  shows "take (c + 1) (l'[pos := x]) = take pos (take c l) @ x # drop pos (take c l)" "length l' = length l"
proof -
  have m: "l'[pos := x] = take pos l @ x # take (c - pos) (drop pos l) @ drop (c + 1) l"
  proof (cases "c = pos")
    case True
    then show ?thesis using assms by (simp add: upd_conv_take_nth_drop)
  next
    case False
    have "take (pos + 1) l = take pos l @ [l ! pos]" using assms(1,2) by (simp add: take_Suc_conv_app_nth)
    then show ?thesis using False assms by (simp add: list_update_append)
  qed
  have "take (c - pos) (drop pos l) = drop pos (take c l)" by (simp add: drop_take)
  then show "take (c + 1) (l'[pos := x]) = take pos (take c l) @ x # drop pos (take c l)"
    unfolding m using assms(1,2) by (simp add: Suc_diff_le)
  have "length (l'[pos := x]) = length l" unfolding m using assms(1,2) by simp
  then show "length l' = length l" by simp
qed

lemma insert_spec:
  assumes ok: "refcount_ok rc" and r: "has_room fresh rc" and p: "pos \<le> rc_count rc"
    and k: "\<forall>k < pos. ea_blk (entries rc ! k) < blk" "\<forall>k. pos \<le> k \<and> k < rc_count rc \<longrightarrow> blk < ea_blk (entries rc ! k)"
  shows "\<exists>rc'. insert_refcount_el fresh rc blk pos = (Some pos, rc') \<and> entry_made rc blk pos rc'"
proof -
  define rg where "rg = (if rc_count rc \<ge> rc_size rc then rc\<lparr>rc_list := rc_list rc @ the fresh, rc_size := rc_size rc + 100\<rparr> else rc)"
  have g: "(if rc_count rc \<ge> rc_size rc then case fresh of None \<Rightarrow> None
      | Some new \<Rightarrow> Some (rc\<lparr>rc_list := rc_list rc @ new, rc_size := rc_size rc + 100\<rparr>) else Some rc) = Some rg"
    using r by (auto simp: has_room_def rg_def)
  have rg: "rc_count rg = rc_count rc" "entries rg = entries rc" "rc_count rg < length (rc_list rg)" "length (rc_list rg) = rc_size rg"
    "rc_size rg < 2 ^ 30" "table_room rc \<le> table_room rg + 1"
    using ok r by (auto simp: rg_def refcount_ok_def has_room_def entries_def table_room_def)
  define l where "l = (if rc_count rc \<noteq> pos then take (pos + 1) (rc_list rg) @ take (rc_count rc - pos) (drop pos (rc_list rg)) @
      drop (rc_count rc + 1) (rc_list rg) else rc_list rg)"
  define rc' where "rc' = rg\<lparr>rc_count := rc_count rc + 1, rc_list := l[pos := \<lparr>ea_blk = blk, ea_count = 0\<rparr>]\<rparr>"
  have i: "insert_refcount_el fresh rc blk pos = (Some pos, rc')"
    unfolding insert_refcount_el_def g rc'_def l_def using p rg(1) by (simp add: Let_def nat_diff_distrib)
  have mm: "take (rc_count rc + 1) (l[pos := \<lparr>ea_blk = blk, ea_count = 0\<rparr>]) =
      take pos (take (rc_count rc) (rc_list rg)) @ \<lparr>ea_blk = blk, ea_count = 0\<rparr> # drop pos (take (rc_count rc) (rc_list rg))"
    "length l = length (rc_list rg)"
    by (rule memmove_entries [OF rg(3) [unfolded rg(1)] p l_def])+
  let ?es = "entries rc" and ?e = "\<lparr>ea_blk = blk, ea_count = 0\<rparr>"
  have e: "entries rc' = take pos ?es @ ?e # drop pos ?es"
  proof -
    have "take (rc_count rc) (rc_list rg) = ?es" using rg(1,2) by (simp add: entries_def)
    then show ?thesis using mm(1) unfolding entries_def [of rc'] by (simp only:) (simp add: rc'_def)
  qed
  have n: "length ?es = rc_count rc" by (rule length_entries [OF ok])
  have st: "sorted_wrt (<) (map ea_blk (take pos ?es @ drop pos ?es))" using ok by (simp add: refcount_ok_def)
  have "\<forall>x \<in> set (take pos ?es). ea_blk x < blk" "\<forall>x \<in> set (drop pos ?es). blk < ea_blk x"
    using k n by (auto simp: in_set_conv_nth)
  then have "sorted_wrt (<) (map ea_blk (entries rc'))" using st unfolding e map_append list.map sorted_wrt_append sorted_wrt.simps by auto
  moreover have "count_of (entries rc') = count_of ?es"
  proof (rule ext)
    fix b
    have "count_of ?es b = count_of (take pos ?es @ drop pos ?es) b" by simp
    then show "count_of (entries rc') b = count_of ?es b" unfolding e by (simp only: count_of_append) simp
  qed
  ultimately have "entry_made rc blk pos rc'"
    unfolding entry_made_def refcount_ok_def using rg mm(2) p n e by (simp add: rc'_def nth_append table_room_def)
  then show ?thesis using i by blast
qed

lemma search_spec:
  assumes "sorted_wrt (<) (map ea_blk (take n l))" "n \<le> length l" "0 \<le> low" "high < int n" "low \<le> high + 1"
    "\<forall>k < nat low. ea_blk (l ! k) < blk" "\<forall>k. high < int k \<and> k < n \<longrightarrow> blk < ea_blk (l ! k)"
  shows "case refcount_search l blk low high of
      Inl m \<Rightarrow> m < n \<and> ea_blk (l ! m) = blk
    | Inr p \<Rightarrow> p \<le> n \<and> (\<forall>k < p. ea_blk (l ! k) < blk) \<and> (\<forall>k. p \<le> k \<and> k < n \<longrightarrow> blk < ea_blk (l ! k))"
  using assms
proof (induction l blk low high rule: refcount_search.induct)
  case (1 l blk low high)
  note prems = "1.prems"
  let ?mid = "(low + high) div 2"
  have lt: "ea_blk (l ! i) < ea_blk (l ! k)" if "i < k" "k < n" for i k
    using prems(1,2) that by (simp add: sorted_wrt_iff_nth_less)
  show ?case
  proof (cases "low \<le> high")
    case False
    then have h: "high = low - 1" using prems(5) by linarith
    have "nat low \<le> n" using h prems(3,4) by linarith
    moreover have "blk < ea_blk (l ! k)" if "nat low \<le> k" "k < n" for k using prems(7) that h by simp
    ultimately show ?thesis using False prems(6) by (subst refcount_search.simps) simp
  next
    case True
    then have m: "0 \<le> ?mid" "low \<le> ?mid" "?mid \<le> high" "nat ?mid < n" using prems(3,4) by linarith+
    consider "blk = ea_blk (l ! nat ?mid)" | "blk < ea_blk (l ! nat ?mid)" | "ea_blk (l ! nat ?mid) < blk" by (metis linorder_cases)
    then show ?thesis
    proof cases
      case 1
      then show ?thesis using True m(4) by (subst refcount_search.simps) (simp add: Let_def)
    next
      case 2
      have f: "refcount_search l blk low high = refcount_search l blk low (?mid - 1)"
        using True 2 by (subst refcount_search.simps) (auto simp: Let_def)
      have ab: "\<forall>k. ?mid - 1 < int k \<and> k < n \<longrightarrow> blk < ea_blk (l ! k)"
      proof (intro allI impI)
        fix k assume k: "?mid - 1 < int k \<and> k < n"
        then have "k = nat ?mid \<or> nat ?mid < k" using m(1) by linarith
        then show "blk < ea_blk (l ! k)" using 2 k lt [of "nat ?mid" k] by (metis order.strict_trans)
      qed
      have "?mid - 1 < int n" "low \<le> ?mid - 1 + 1" "blk \<noteq> ea_blk (l ! nat ?mid)" using m prems(4) 2 by auto
      from "1.IH"(1) [OF True refl this(3) 2 prems(1,2,3) this(1,2) prems(6) ab] show ?thesis unfolding f .
    next
      case 3
      have f: "refcount_search l blk low high = refcount_search l blk (?mid + 1) high"
        using True 3 by (subst refcount_search.simps) (auto simp: Let_def)
      have be: "\<forall>k < nat (?mid + 1). ea_blk (l ! k) < blk"
      proof (intro allI impI)
        fix k assume "k < nat (?mid + 1)"
        then have "k = nat ?mid \<or> k < nat ?mid" using m(1) by linarith
        then show "ea_blk (l ! k) < blk" using 3 m(4) lt [of k "nat ?mid"] by (metis order.strict_trans)
      qed
      have "0 \<le> ?mid + 1" "?mid + 1 \<le> high + 1" "blk \<noteq> ea_blk (l ! nat ?mid)" "\<not> blk < ea_blk (l ! nat ?mid)" using m 3 by auto
      from "1.IH"(2) [OF True refl this(3,4) prems(1,2) this(1) prems(4) this(2) be prems(7)] show ?thesis unfolding f .
    qed
  qed
qed

lemma table_search:
  assumes "refcount_ok rc"
  shows "case refcount_search (rc_list rc) blk 0 (int (rc_count rc) - 1) of
      Inl m \<Rightarrow> m < rc_count rc \<and> ea_blk (rc_list rc ! m) = blk
    | Inr p \<Rightarrow> p \<le> rc_count rc \<and> (\<forall>k < p. ea_blk (rc_list rc ! k) < blk) \<and> (\<forall>k. p \<le> k \<and> k < rc_count rc \<longrightarrow> blk < ea_blk (rc_list rc ! k))"
  by (rule search_spec) (use assms in \<open>auto simp: refcount_ok_def entries_def\<close>)

text \<open>Looking an entry up without creating it moves only the cursor.\<close>

lemma get_lookup:
  assumes ok: "refcount_ok rc"
  shows "\<exists>c. (\<exists>i. get_refcount_el fresh rc blk False = (Some i, rc\<lparr>rc_cursor := c\<rparr>) \<and> i < rc_count rc \<and> ea_blk (entries rc ! i) = blk) \<or>
     get_refcount_el fresh rc blk False = (None, rc\<lparr>rc_cursor := c\<rparr>) \<and> blk \<notin> ea_blk ` set (entries rc)"
proof (cases "rc_count rc = 0")
  case True
  then have "get_refcount_el fresh rc blk False = (None, rc\<lparr>rc_cursor := rc_cursor rc\<rparr>)" "entries rc = []"
    by (subst get_refcount_el.simps, simp) (simp add: entries_def True)
  then show ?thesis by (intro exI [of _ "rc_cursor rc"] disjI2) simp
next
  case False
  let ?c = "if rc_cursor rc \<ge> rc_count rc then 0 else rc_cursor rc" and ?h = "int (rc_count rc) - 1"
  have c: "?c < rc_count rc" using False by simp
  note sp = table_search [OF ok, of blk]
  have g: "get_refcount_el fresh rc blk False =
      (if blk = ea_blk (rc_list rc ! ?c) then (Some ?c, rc\<lparr>rc_cursor := ?c + 1\<rparr>)
       else case refcount_search (rc_list rc) blk 0 ?h of Inl m \<Rightarrow> (Some m, rc\<lparr>rc_cursor := m + 1\<rparr>)
         | Inr p \<Rightarrow> (None, rc\<lparr>rc_cursor := ?c\<rparr>))"
    using False by (subst get_refcount_el.simps) (auto simp: Let_def split: sum.splits)
  consider (cur) "blk = ea_blk (rc_list rc ! ?c)" | (found) m where "blk \<noteq> ea_blk (rc_list rc ! ?c)" "refcount_search (rc_list rc) blk 0 ?h = Inl m"
    | (none) p where "blk \<noteq> ea_blk (rc_list rc ! ?c)" "refcount_search (rc_list rc) blk 0 ?h = Inr p" by (cases "refcount_search (rc_list rc) blk 0 ?h") blast+
  then show ?thesis
  proof cases
    case cur
    have "get_refcount_el fresh rc blk False = (Some ?c, rc\<lparr>rc_cursor := ?c + 1\<rparr>)" unfolding g by (rule if_P [OF cur])
    then show ?thesis using cur c entries_nth [OF c] by metis
  next
    case found
    have "get_refcount_el fresh rc blk False = (Some m, rc\<lparr>rc_cursor := m + 1\<rparr>)" unfolding g if_not_P [OF found(1)] found(2) by simp
    moreover have "m < rc_count rc" "ea_blk (rc_list rc ! m) = blk" using sp found(2) by simp_all
    ultimately show ?thesis using entries_nth [of m rc] by metis
  next
    case none
    have e: "get_refcount_el fresh rc blk False = (None, rc\<lparr>rc_cursor := ?c\<rparr>)" unfolding g if_not_P [OF none(1)] none(2) by simp
    have lt: "\<forall>k < p. ea_blk (rc_list rc ! k) < blk" "\<forall>k. p \<le> k \<and> k < rc_count rc \<longrightarrow> blk < ea_blk (rc_list rc ! k)" using sp none(2) by simp_all
    have "blk \<noteq> ea_blk (entries rc ! k)" if "k < rc_count rc" for k
      using lt that entries_nth [OF that] by (metis not_le order.irrefl)
    then have "blk \<notin> ea_blk ` set (entries rc)" using length_entries [OF ok] by (metis imageE in_set_conv_nth)
    then show ?thesis using e by blast
  qed
qed

lemma cursor_simps [simp]:
  "refcount_ok (rc\<lparr>rc_cursor := c\<rparr>) = refcount_ok rc" "entries (rc\<lparr>rc_cursor := c\<rparr>) = entries rc"
  "table_room (rc\<lparr>rc_cursor := c\<rparr>) = table_room rc" "has_room fresh (rc\<lparr>rc_cursor := c\<rparr>) = has_room fresh rc"
  by (simp_all add: refcount_ok_def entries_def table_room_def has_room_def)

lemma entry_made_cong: "count_of (entries rc) = count_of (entries rc1) \<Longrightarrow> table_room rc = table_room rc1 \<Longrightarrow> entry_made rc = entry_made rc1"
  by (simp add: entry_made_def fun_eq_iff)

lemma has_room_collapse:
  assumes "refcount_ok rc" "has_room fresh rc"
  shows "has_room fresh (refcount_collapse rc)" "table_room rc = table_room (refcount_collapse rc)"
proof -
  show "has_room fresh (refcount_collapse rc)" "table_room rc = table_room (refcount_collapse rc)"
    using assms(2) collapse_spec(3,6) [OF assms(1)] by (auto simp: has_room_def table_room_def)
qed

lemma get_append:
  assumes ok: "refcount_ok rc" and r: "has_room fresh rc" and a: "rc_count rc = 0 \<or> blk > ea_blk (rc_list rc ! nat (int (rc_count rc) - 1))"
  shows "\<exists>i rc'. get_refcount_el fresh rc blk True = (Some i, rc') \<and> entry_made rc blk i rc'"
proof -
  have below: "ea_blk e < blk" if e: "e \<in> set (entries rc)" for e
  proof -
    obtain k where k: "k < rc_count rc" "e = entries rc ! k" using e length_entries [OF ok] by (auto simp: in_set_conv_nth)
    let ?h = "nat (int (rc_count rc) - 1)"
    have h: "?h < rc_count rc" "k = ?h \<or> k < ?h" "rc_count rc \<noteq> 0" using k(1) by linarith+
    have "sorted_wrt (<) (map ea_blk (entries rc))" using ok by (simp add: refcount_ok_def)
    then have "k < ?h \<Longrightarrow> ea_blk (entries rc ! k) < ea_blk (entries rc ! ?h)"
      using h(1) length_entries [OF ok] by (auto simp: sorted_wrt_iff_nth_less)
    then show ?thesis using h a k(2) entries_nth [OF h(1)] by (metis order.strict_trans)
  qed
  define rc1 where "rc1 = (if rc_count rc \<ge> rc_size rc then refcount_collapse rc else rc)"
  have g: "get_refcount_el fresh rc blk True = insert_refcount_el fresh rc1 blk (rc_count rc1)"
    unfolding rc1_def using a by (subst get_refcount_el.simps) (simp add: Let_def)
  have o1: "refcount_ok rc1" "has_room fresh rc1" "set (entries rc1) \<subseteq> set (entries rc)" "count_of (entries rc) = count_of (entries rc1)" "table_room rc = table_room rc1"
    using ok r collapse_spec [OF ok] has_room_collapse [OF ok r] by (simp_all add: rc1_def)
  have "\<forall>k < rc_count rc1. ea_blk (entries rc1 ! k) < blk"
    using below o1(3) length_entries [OF o1(1)] by (metis nth_mem subsetD)
  then have "\<exists>rc'. insert_refcount_el fresh rc1 blk (rc_count rc1) = (Some (rc_count rc1), rc') \<and> entry_made rc1 blk (rc_count rc1) rc'"
    by (intro insert_spec o1(1,2)) auto
  then show ?thesis unfolding g entry_made_cong [OF o1(4,5)] by blast
qed

text \<open>The other branch: the cursor, the bisection, and an insertion in the middle, perhaps after collapsing the table.\<close>

lemma get_inside:
  assumes ok: "refcount_ok rc" and r: "has_room fresh rc" and a: "\<not> (rc_count rc = 0 \<or> blk > ea_blk (rc_list rc ! nat (int (rc_count rc) - 1)))"
    and IH: "\<And>rc1. refcount_ok rc1 \<Longrightarrow> rc_count rc1 < rc_size rc1 \<Longrightarrow> rc_count rc \<ge> rc_size rc \<Longrightarrow>
      \<exists>i rc'. get_refcount_el fresh rc1 blk True = (Some i, rc') \<and> entry_made rc1 blk i rc'"
  shows "\<exists>i rc'. get_refcount_el fresh rc blk True = (Some i, rc') \<and> entry_made rc blk i rc'"
proof -
  let ?c = "if rc_cursor rc \<ge> rc_count rc then 0 else rc_cursor rc" and ?h = "int (rc_count rc) - 1"
  define rcc where "rcc = rc\<lparr>rc_cursor := ?c\<rparr>"
  have cc: "refcount_ok rcc" "has_room fresh rcc" "entries rcc = entries rc" "table_room rcc = table_room rc" "rc_list rcc = rc_list rc"
    "rc_count rcc = rc_count rc" "rc_size rcc = rc_size rc"
    using ok r by (simp_all add: rcc_def)
  have c: "?c < rc_count rc" using a by auto
  have made: "entry_made rc blk i (rc\<lparr>rc_cursor := k\<rparr>)" if "i < rc_count rc" "ea_blk (rc_list rc ! i) = blk" for i k
    using that ok entries_nth [OF that(1)] by (simp add: entry_made_def)
  note sp = table_search [OF ok, of blk]
  consider (cur) "blk = ea_blk (rc_list rc ! ?c)" | (found) m where "blk \<noteq> ea_blk (rc_list rc ! ?c)" "refcount_search (rc_list rc) blk 0 ?h = Inl m"
    | (none) p where "blk \<noteq> ea_blk (rc_list rc ! ?c)" "refcount_search (rc_list rc) blk 0 ?h = Inr p" by (cases "refcount_search (rc_list rc) blk 0 ?h") blast+
  then show ?thesis
  proof cases
    case cur
    then have "get_refcount_el fresh rc blk True = (Some ?c, rc\<lparr>rc_cursor := ?c + 1\<rparr>)"
      using a by (subst get_refcount_el.simps) (auto simp: Let_def)
    then show ?thesis using made [OF c cur [symmetric]] by blast
  next
    case found
    then have "get_refcount_el fresh rc blk True = (Some m, rc\<lparr>rc_cursor := m + 1\<rparr>)"
      using a by (subst get_refcount_el.simps) (auto simp: Let_def)
    moreover have "m < rc_count rc" "ea_blk (rc_list rc ! m) = blk" using sp found(2) by simp_all
    ultimately show ?thesis using made by blast
  next
    case none
    have p: "p \<le> rc_count rc" "\<forall>k < p. ea_blk (rc_list rc ! k) < blk" "\<forall>k. p \<le> k \<and> k < rc_count rc \<longrightarrow> blk < ea_blk (rc_list rc ! k)"
      using sp none(2) by simp_all
    have ins: "\<exists>rc'. insert_refcount_el fresh rc1 blk p = (Some p, rc') \<and> entry_made rc blk p rc'"
      if "refcount_ok rc1" "has_room fresh rc1" "entries rc1 = entries rc" "rc_count rc1 = rc_count rc" "table_room rc1 = table_room rc" for rc1
    proof -
      have "\<forall>k < p. ea_blk (entries rc1 ! k) < blk" "\<forall>k. p \<le> k \<and> k < rc_count rc1 \<longrightarrow> blk < ea_blk (entries rc1 ! k)"
        using p that(3,4) entries_nth [of _ rc] by auto
      from insert_spec [OF that(1,2) _ this] show ?thesis using p(1) that(3,4,5) entry_made_cong [of rc rc1] by simp
    qed
    show ?thesis
    proof (cases "rc_count rc \<ge> rc_size rc")
      case False
      then have "get_refcount_el fresh rc blk True = insert_refcount_el fresh rcc blk p"
        using a none unfolding rcc_def by (subst get_refcount_el.simps) (auto simp: Let_def)
      then show ?thesis using ins [OF cc(1,2,3,6,4)] by auto
    next
      case True
      let ?r = "refcount_collapse rcc"
      note cs = collapse_spec [OF cc(1)] and hr = has_room_collapse [OF cc(1,2)]
      have g: "get_refcount_el fresh rc blk True =
          (if rc_count ?r < rc_size ?r then get_refcount_el fresh ?r blk True else insert_refcount_el fresh ?r blk p)"
        using a none True unfolding rcc_def by (subst get_refcount_el.simps) (auto simp: Let_def)
      have em: "entry_made rc = entry_made ?r" using cs(2) hr(2) cc(3,4) by (intro entry_made_cong) simp_all
      show ?thesis
      proof (cases "rc_count ?r < rc_size ?r")
        case small: True
        then show ?thesis unfolding g em using IH [OF cs(1) small True] by simp
      next
        case False
        then have n: "rc_count ?r = rc_count rcc" using cs(1,3) cc(1,6,7) True by (simp add: refcount_ok_def)
        from ins [OF cs(1) hr(1)] show ?thesis unfolding g using False cs(5) [OF n] n hr(2) cc(3,4,6) by auto
      qed
    qed
  qed
qed

lemma get_create:
  assumes "refcount_ok rc" "has_room fresh rc"
  shows "\<exists>i rc'. get_refcount_el fresh rc blk True = (Some i, rc') \<and> entry_made rc blk i rc'"
proof -
  have small: "\<exists>i rc'. get_refcount_el fresh rc1 blk True = (Some i, rc') \<and> entry_made rc1 blk i rc'"
    if "refcount_ok rc1" "rc_count rc1 < rc_size rc1" for rc1
  proof -
    have "has_room fresh rc1" using that(2) by (simp add: has_room_def)
    then show ?thesis using get_append [OF that(1)] get_inside [OF that(1)] that(2) by (metis not_le)
  qed
  show ?thesis using get_append [OF assms] get_inside [OF assms _ small] by blast
qed

lemma set_count_spec:
  assumes "refcount_ok rc" "i < rc_count rc"
  shows "refcount_ok (set_count i c rc)" "count_of (entries (set_count i c rc)) = (count_of (entries rc))(ea_blk (entries rc ! i) := c)"
    "table_room (set_count i c rc) = table_room rc"
proof -
  have n: "i < length (entries rc)" using assms(2) length_entries [OF assms(1)] by simp
  have e: "entries (set_count i c rc) = (entries rc)[i := (entries rc ! i)\<lparr>ea_count := c\<rparr>]"
    using assms(2) by (simp add: entries_def set_count_def take_update_swap)
  have "map ea_blk (entries (set_count i c rc)) = map ea_blk (entries rc)"
    unfolding e using n by (simp add: map_update) (metis length_map list_update_id nth_map)
  then show "refcount_ok (set_count i c rc)" using assms(1) by (simp add: refcount_ok_def set_count_def [of i c rc])
  have "sorted_wrt (<) (map ea_blk (entries rc))" using assms(1) by (simp add: refcount_ok_def)
  from count_of_nth(2) [OF this n] show "count_of (entries (set_count i c rc)) = (count_of (entries rc))(ea_blk (entries rc ! i) := c)"
    unfolding e by (simp add: fun_eq_iff)
  show "table_room (set_count i c rc) = table_room rc" by (simp add: table_room_def set_count_def)
qed

lemma count_at:
  assumes "refcount_ok rc" "i < rc_count rc" "ea_blk (entries rc ! i) = blk"
  shows "ea_count (rc_list rc ! i) = count_of (entries rc) blk"
  using count_of_nth(1) [of "entries rc" i] assms length_entries [OF assms(1)] entries_nth [OF assms(2)] by (simp add: refcount_ok_def)

lemma fetch_spec:
  assumes ok: "refcount_ok rc"
  shows "\<exists>c. ea_refcount_fetch rc blk = (count_of (entries rc) blk, rc\<lparr>rc_cursor := c\<rparr>)"
proof -
  obtain c where "(\<exists>i. get_refcount_el None rc blk False = (Some i, rc\<lparr>rc_cursor := c\<rparr>) \<and> i < rc_count rc \<and> ea_blk (entries rc ! i) = blk) \<or>
     get_refcount_el None rc blk False = (None, rc\<lparr>rc_cursor := c\<rparr>) \<and> blk \<notin> ea_blk ` set (entries rc)"
    using get_lookup [OF ok] by blast
  then show ?thesis
  proof
    assume "\<exists>i. get_refcount_el None rc blk False = (Some i, rc\<lparr>rc_cursor := c\<rparr>) \<and> i < rc_count rc \<and> ea_blk (entries rc ! i) = blk"
    then obtain i where "get_refcount_el None rc blk False = (Some i, rc\<lparr>rc_cursor := c\<rparr>)" "i < rc_count rc" "ea_blk (entries rc ! i) = blk" by blast
    then show ?thesis using count_at [OF ok] by (intro exI [of _ c]) (simp add: ea_refcount_fetch_def)
  next
    assume "get_refcount_el None rc blk False = (None, rc\<lparr>rc_cursor := c\<rparr>) \<and> blk \<notin> ea_blk ` set (entries rc)"
    then show ?thesis using count_of_notin [of blk "entries rc"] by (auto simp: ea_refcount_fetch_def)
  qed
qed

lemma increment_spec:
  assumes "refcount_ok rc" "has_room fresh rc" "- (2 ^ 31) \<le> count_of (entries rc) blk" "count_of (entries rc) blk < 2 ^ 31 - 1"
  shows "\<exists>rc'. ea_refcount_increment fresh rc blk = (Inr (count_of (entries rc) blk + 1), rc') \<and> refcount_ok rc' \<and>
     count_of (entries rc') = (count_of (entries rc))(blk := count_of (entries rc) blk + 1) \<and> table_room rc \<le> table_room rc' + 1"
proof -
  obtain i r where g: "get_refcount_el fresh rc blk True = (Some i, r)" and e: "entry_made rc blk i r"
    using get_create [OF assms(1,2)] by blast
  have r: "refcount_ok r" "i < rc_count r" "ea_blk (entries r ! i) = blk" "count_of (entries r) = count_of (entries rc)" "table_room rc \<le> table_room r + 1"
    using e by (simp_all add: entry_made_def)
  have c: "int32 (ea_count (rc_list r ! i) + 1) = count_of (entries rc) blk + 1"
    unfolding count_at [OF r(1-3)] r(4) using assms(3,4) by (intro int32_id) simp_all
  show ?thesis using set_count_spec [OF r(1,2), of "count_of (entries rc) blk + 1"] r(3,4,5)
    by (simp add: ea_refcount_increment_def g c Let_def)
qed

lemma decrement_spec:
  assumes ok: "refcount_ok rc" "- (2 ^ 31) < count_of (entries rc) blk" "count_of (entries rc) blk < 2 ^ 31"
  shows "\<exists>rc'. ea_refcount_decrement rc blk = (if count_of (entries rc) blk = 0 then Inl False else Inr (count_of (entries rc) blk - 1), rc') \<and>
     refcount_ok rc' \<and> table_room rc' = table_room rc \<and>
     count_of (entries rc') = (count_of (entries rc))(blk := count_of (entries rc) blk - (if count_of (entries rc) blk = 0 then 0 else 1))"
proof -
  obtain c where "(\<exists>i. get_refcount_el None rc blk False = (Some i, rc\<lparr>rc_cursor := c\<rparr>) \<and> i < rc_count rc \<and> ea_blk (entries rc ! i) = blk) \<or>
     get_refcount_el None rc blk False = (None, rc\<lparr>rc_cursor := c\<rparr>) \<and> blk \<notin> ea_blk ` set (entries rc)"
    using get_lookup [OF ok(1)] by blast
  then show ?thesis
  proof
    assume "\<exists>i. get_refcount_el None rc blk False = (Some i, rc\<lparr>rc_cursor := c\<rparr>) \<and> i < rc_count rc \<and> ea_blk (entries rc ! i) = blk"
    then obtain i where g: "get_refcount_el None rc blk False = (Some i, rc\<lparr>rc_cursor := c\<rparr>)" and i: "i < rc_count rc" "ea_blk (entries rc ! i) = blk" by blast
    let ?r = "rc\<lparr>rc_cursor := c\<rparr>"
    have "int32 (ea_count (rc_list rc ! i) - 1) = count_of (entries rc) blk - 1"
      unfolding count_at [OF ok(1) i] using ok(2,3) by (intro int32_id) simp_all
    then show ?thesis using set_count_spec [of ?r i "count_of (entries rc) blk - 1"] ok(1) i count_at [OF ok(1) i]
      by (auto simp: ea_refcount_decrement_def g Let_def)
  next
    assume "get_refcount_el None rc blk False = (None, rc\<lparr>rc_cursor := c\<rparr>) \<and> blk \<notin> ea_blk ` set (entries rc)"
    then show ?thesis using count_of_notin [of blk "entries rc"] ok(1) by (auto simp: ea_refcount_decrement_def)
  qed
qed

lemma store_spec:
  assumes "refcount_ok rc" "has_room fresh rc"
  shows "\<exists>rc'. ea_refcount_store fresh rc blk c = (None, rc') \<and> refcount_ok rc' \<and>
     count_of (entries rc') = (count_of (entries rc))(blk := c) \<and> table_room rc \<le> table_room rc' + 1"
proof (cases "c = 0")
  case False
  obtain i r where g: "get_refcount_el fresh rc blk True = (Some i, r)" and e: "entry_made rc blk i r"
    using get_create [OF assms] by blast
  then show ?thesis using set_count_spec [of r i c] False by (simp add: ea_refcount_store_def entry_made_def)
next
  case True
  obtain k where "(\<exists>i. get_refcount_el fresh rc blk False = (Some i, rc\<lparr>rc_cursor := k\<rparr>) \<and> i < rc_count rc \<and> ea_blk (entries rc ! i) = blk) \<or>
     get_refcount_el fresh rc blk False = (None, rc\<lparr>rc_cursor := k\<rparr>) \<and> blk \<notin> ea_blk ` set (entries rc)"
    using get_lookup [OF assms(1)] by blast
  then show ?thesis
  proof
    assume "\<exists>i. get_refcount_el fresh rc blk False = (Some i, rc\<lparr>rc_cursor := k\<rparr>) \<and> i < rc_count rc \<and> ea_blk (entries rc ! i) = blk"
    then obtain i where "get_refcount_el fresh rc blk False = (Some i, rc\<lparr>rc_cursor := k\<rparr>)" "i < rc_count rc" "ea_blk (entries rc ! i) = blk" by blast
    then show ?thesis using set_count_spec [of "rc\<lparr>rc_cursor := k\<rparr>" i 0] assms(1) True by (simp add: ea_refcount_store_def)
  next
    assume "get_refcount_el fresh rc blk False = (None, rc\<lparr>rc_cursor := k\<rparr>) \<and> blk \<notin> ea_blk ` set (entries rc)"
    moreover from this have "(count_of (entries rc))(blk := 0) = count_of (entries rc)"
      using count_of_notin [of blk "entries rc"] by (simp add: fun_eq_iff)
    ultimately show ?thesis using assms(1) True by (simp add: ea_refcount_store_def)
  qed
qed

section \<open>Tables of counts as an interface\<close>

text \<open>
  What the checker relies on: a table gives every key a count, which can be set, incremented and decremented; a count of
  zero cannot be decremented. \<open>room\<close> is how many operations can still be done safely. The client's lemma
  is that after any sequence of operations the table holds the counts that the sequence describes.
\<close>

locale count_table =
  fixes inv :: "'s \<Rightarrow> bool"
    and val :: "'s \<Rightarrow> 'k \<Rightarrow> int"
    and room :: "'s \<Rightarrow> nat"
    and store :: "'s \<Rightarrow> 'k \<Rightarrow> int \<Rightarrow> 's"
    and incr :: "'s \<Rightarrow> 'k \<Rightarrow> 's"
    and decr :: "'s \<Rightarrow> 'k \<Rightarrow> 's"
    and fetch :: "'s \<Rightarrow> 'k \<Rightarrow> int"
    and lim :: int
  assumes store_law: "inv s \<Longrightarrow> 0 < room s \<Longrightarrow> 0 \<le> c \<Longrightarrow> c < lim \<Longrightarrow>
      inv (store s k c) \<and> val (store s k c) = (val s)(k := c) \<and> room s \<le> room (store s k c) + 1"
    and incr_law: "inv s \<Longrightarrow> 0 < room s \<Longrightarrow> 0 \<le> val s k \<Longrightarrow> val s k + 1 < lim \<Longrightarrow>
      inv (incr s k) \<and> val (incr s k) = (val s)(k := val s k + 1) \<and> room s \<le> room (incr s k) + 1"
    and decr_law: "inv s \<Longrightarrow> 0 \<le> val s k \<Longrightarrow> val s k < lim \<Longrightarrow>
      inv (decr s k) \<and> val (decr s k) = (val s)(k := val s k - (if val s k = 0 then 0 else 1)) \<and> room (decr s k) = room s"
    and fetch_law: "inv s \<Longrightarrow> fetch s k = val s k"
begin

lemma run_gives_counts:
  assumes "inv s" "length ops \<le> room s" "\<forall>k. 0 \<le> val s k \<and> val s k + int (length ops) < lim" "stores_below (lim - int (length ops)) ops"
  shows "inv (run_counts store incr decr ops s) \<and> val (run_counts store incr decr ops s) = counts_after ops (val s)"
  using assms
proof (induction ops arbitrary: s)
  case (Cons p ops)
  have st: "stores_below (lim - int (length ops)) ops"
  proof -
    have "stores_below (lim - int (length (p # ops))) ops" using Cons.prems(4) by (cases p) simp_all
    then show ?thesis by (rule stores_below_mono) simp
  qed
  have v: "0 \<le> val s j" "val s j + 1 + int (length ops) < lim" for j using Cons.prems(3) by (auto dest: spec [of _ j])
  have n: "0 < room s" using Cons.prems(2) by simp
  show ?case
  proof (cases p)
    case (Store_op k c)
    have c: "0 \<le> c" "c + int (length ops) < lim" using Cons.prems(4) Store_op by auto
    then have s: "inv (store s k c)" "val (store s k c) = (val s)(k := c)" "room s \<le> room (store s k c) + 1"
      using store_law [OF Cons.prems(1) n, of c k] by auto
    have "length ops \<le> room (store s k c)" using s(3) Cons.prems(2) by simp
    moreover have "0 \<le> val (store s k c) j \<and> val (store s k c) j + int (length ops) < lim" for j
      unfolding s(2) using c v [of j] by simp
    ultimately have "inv (run_counts store incr decr ops (store s k c)) \<and> val (run_counts store incr decr ops (store s k c)) = counts_after ops (val (store s k c))"
      by (intro Cons.IH [OF s(1) _ _ st] allI)
    then show ?thesis unfolding s(2) Store_op by simp
  next
    case (Incr_op k)
    have "val s k + 1 < lim" using v(2) [of k] by linarith
    then have s: "inv (incr s k)" "val (incr s k) = (val s)(k := val s k + 1)" "room s \<le> room (incr s k) + 1"
      using incr_law [OF Cons.prems(1) n v(1)] by auto
    have "length ops \<le> room (incr s k)" using s(3) Cons.prems(2) by simp
    moreover have "0 \<le> val (incr s k) j \<and> val (incr s k) j + int (length ops) < lim" for j
      unfolding s(2) using v [of j] v [of k] by auto
    ultimately have "inv (run_counts store incr decr ops (incr s k)) \<and> val (run_counts store incr decr ops (incr s k)) = counts_after ops (val (incr s k))"
      by (intro Cons.IH [OF s(1) _ _ st] allI)
    then show ?thesis unfolding s(2) Incr_op by simp
  next
    case (Decr_op k)
    have "val s k < lim" using v(2) [of k] by linarith
    then have s: "inv (decr s k)" "val (decr s k) = (val s)(k := val s k - (if val s k = 0 then 0 else 1))" "room (decr s k) = room s"
      using decr_law [OF Cons.prems(1) v(1)] by auto
    have "length ops \<le> room (decr s k)" using s(3) Cons.prems(2) by simp
    moreover have "0 \<le> val (decr s k) j \<and> val (decr s k) j + int (length ops) < lim" for j
      unfolding s(2) using v [of j] v [of k] by auto
    ultimately have "inv (run_counts store incr decr ops (decr s k)) \<and> val (run_counts store incr decr ops (decr s k)) = counts_after ops (val (decr s k))"
      by (intro Cons.IH [OF s(1) _ _ st] allI)
    then show ?thesis unfolding s(2) Decr_op by simp
  qed
qed simp

lemma fetch_after:
  assumes "inv s" "length ops \<le> room s" "\<forall>k. 0 \<le> val s k \<and> val s k + int (length ops) < lim" "stores_below (lim - int (length ops)) ops"
  shows "fetch (run_counts store incr decr ops s) k = counts_after ops (val s) k"
  using run_gives_counts [OF assms] fetch_law by simp

end

lemma room_has_room: "0 < table_room rc \<Longrightarrow> has_room fresh_cells rc"
  by (auto simp: table_room_def has_room_def div_greater_zero_iff)

interpretation refcounts: count_table refcount_ok "\<lambda>rc. count_of (entries rc)" table_room
  "\<lambda>rc blk c. snd (ea_refcount_store fresh_cells rc blk c)" "\<lambda>rc blk. snd (ea_refcount_increment fresh_cells rc blk)"
  "\<lambda>rc blk. snd (ea_refcount_decrement rc blk)" "\<lambda>rc blk. fst (ea_refcount_fetch rc blk)" "2 ^ 31"
proof
  show "refcount_ok (snd (ea_refcount_store fresh_cells rc blk c)) \<and>
      count_of (entries (snd (ea_refcount_store fresh_cells rc blk c))) = (count_of (entries rc))(blk := c) \<and>
      table_room rc \<le> table_room (snd (ea_refcount_store fresh_cells rc blk c)) + 1"
    if a: "refcount_ok rc" "0 < table_room rc" for rc blk c
  proof -
    obtain rc' where "ea_refcount_store fresh_cells rc blk c = (None, rc')" "refcount_ok rc'"
      "count_of (entries rc') = (count_of (entries rc))(blk := c)" "table_room rc \<le> table_room rc' + 1"
      using store_spec [OF a(1) room_has_room [OF a(2)]] by blast
    then show ?thesis by (simp only: snd_conv simp_thms)
  qed
  show "refcount_ok (snd (ea_refcount_increment fresh_cells rc blk)) \<and>
      count_of (entries (snd (ea_refcount_increment fresh_cells rc blk))) = (count_of (entries rc))(blk := count_of (entries rc) blk + 1) \<and>
      table_room rc \<le> table_room (snd (ea_refcount_increment fresh_cells rc blk)) + 1"
    if a: "refcount_ok rc" "0 < table_room rc" "0 \<le> count_of (entries rc) blk" "count_of (entries rc) blk + 1 < 2 ^ 31" for rc blk
  proof -
    have "- (2 ^ 31) \<le> count_of (entries rc) blk" "count_of (entries rc) blk < 2 ^ 31 - 1" using a(3,4) by simp_all
    then obtain rc' where "ea_refcount_increment fresh_cells rc blk = (Inr (count_of (entries rc) blk + 1), rc')" "refcount_ok rc'"
      "count_of (entries rc') = (count_of (entries rc))(blk := count_of (entries rc) blk + 1)" "table_room rc \<le> table_room rc' + 1"
      using increment_spec [OF a(1) room_has_room [OF a(2)]] by blast
    then show ?thesis by (simp only: snd_conv simp_thms)
  qed
  show "refcount_ok (snd (ea_refcount_decrement rc blk)) \<and>
      count_of (entries (snd (ea_refcount_decrement rc blk))) = (count_of (entries rc))(blk := count_of (entries rc) blk - (if count_of (entries rc) blk = 0 then 0 else 1)) \<and>
      table_room (snd (ea_refcount_decrement rc blk)) = table_room rc"
    if a: "refcount_ok rc" "0 \<le> count_of (entries rc) blk" "count_of (entries rc) blk < 2 ^ 31" for rc blk
  proof -
    have "- (2 ^ 31) < count_of (entries rc) blk" using a(2) by simp
    then obtain rc' where d: "ea_refcount_decrement rc blk = (if count_of (entries rc) blk = 0 then Inl False else Inr (count_of (entries rc) blk - 1), rc')"
      "refcount_ok rc'" "table_room rc' = table_room rc"
      "count_of (entries rc') = (count_of (entries rc))(blk := count_of (entries rc) blk - (if count_of (entries rc) blk = 0 then 0 else 1))"
      using decrement_spec [OF a(1) _ a(3)] by blast
    show ?thesis unfolding d(1) snd_conv using d(2-) by blast
  qed
  show "fst (ea_refcount_fetch rc blk) = count_of (entries rc) blk" if a: "refcount_ok rc" for rc blk
    using fetch_spec [OF a, of blk] by auto
qed

section \<open>Properties\<close>

text \<open>
  C27: the table of reference counts behaves as a function from blocks to counts. Created empty and put through any sequence
  of stores, increments and decrements, it answers every lookup with the count that the sequence describes,
  whatever the cursor, the bisection, the collapsing of entries and the growing of the array do on the way. A decrement
  of a count that is zero is refused and changes nothing.
\<close>

theorem ea_refcount_refines:
  assumes "ea_refcount_create True n = Some rc" "n + 100 * length ops + 500 < 2 ^ 30" "stores_below (2 ^ 31 - int (length ops)) ops"
    and "rc' = run_counts (\<lambda>rc blk c. snd (ea_refcount_store fresh_cells rc blk c)) (\<lambda>rc blk. snd (ea_refcount_increment fresh_cells rc blk))
      (\<lambda>rc blk. snd (ea_refcount_decrement rc blk)) ops rc"
  shows "fst (ea_refcount_fetch rc' blk) = counts_after ops (\<lambda>_. 0) blk \<and> refcount_ok rc' \<and>
     (counts_after ops (\<lambda>_. 0) blk = 0 \<longrightarrow> fst (ea_refcount_decrement rc' blk) = Inl False)"
proof -
  have rc: "refcount_ok rc" "entries rc = []" "rc_size rc \<le> n + 500"
    using assms(1,2) by (auto simp: ea_refcount_create_def Let_def refcount_ok_def entries_def)
  have z: "count_of (entries rc) = (\<lambda>_. 0)" by (simp add: rc(2) fun_eq_iff)
  have r: "length ops \<le> table_room rc"
  proof -
    have "length ops * 100 \<le> 2 ^ 30 - 1 - rc_size rc" using rc(3) assms(2) by linarith
    from div_le_mono [OF this, of 100] show ?thesis by (simp add: table_room_def)
  qed
  have b: "\<forall>k. 0 \<le> count_of (entries rc) k \<and> count_of (entries rc) k + int (length ops) < 2 ^ 31" using assms(2) by (simp add: z)
  note run = refcounts.run_gives_counts [OF rc(1) r b assms(3), folded assms(4)]
  have f: "fst (ea_refcount_fetch rc' blk) = counts_after ops (\<lambda>_. 0) blk"
    using refcounts.fetch_after [OF rc(1) r b assms(3), of blk] unfolding assms(4) z .
  have "fst (ea_refcount_decrement rc' blk) = Inl False" if "counts_after ops (\<lambda>_. 0) blk = 0"
  proof -
    have "count_of (entries rc') blk = 0" using run that z by simp
    then show ?thesis using decrement_spec [of rc' blk] run by auto
  qed
  then show ?thesis using f run by blast
qed

theorem ea_refcount_refines_witness:
  "ea_refcount_create True 2 = Some sample_table \<and>
   fst (ea_refcount_fetch (run_counts (\<lambda>rc blk c. snd (ea_refcount_store fresh_cells rc blk c)) (\<lambda>rc blk. snd (ea_refcount_increment fresh_cells rc blk))
      (\<lambda>rc blk. snd (ea_refcount_decrement rc blk)) sample_counts sample_table) 7) = 2"
proof -
  have c: "ea_refcount_create True 2 = Some sample_table" by (simp add: ea_refcount_create_def sample_table_def)
  from ea_refcount_refines [OF c _ _ refl, of sample_counts 7] c show ?thesis by (simp add: sample_counts_def)
qed

lemma intr_next_spec:
  assumes "refcount_ok rc"
  shows "case filter (\<lambda>e. ea_count e \<noteq> 0) (drop (rc_cursor rc) (entries rc)) of
      [] \<Rightarrow> \<exists>c. intr_next rc = ((0, None), rc\<lparr>rc_cursor := c\<rparr>)
    | e # es \<Rightarrow> \<exists>c. intr_next rc = ((ea_blk e, Some (ea_count e)), rc\<lparr>rc_cursor := c\<rparr>) \<and> rc_cursor rc < c \<and> c \<le> rc_count rc \<and>
        filter (\<lambda>e. ea_count e \<noteq> 0) (drop c (entries rc)) = es"
  using assms
proof (induction rc rule: intr_next.induct)
  case (1 rc)
  show ?case
  proof (cases "rc_cursor rc \<ge> rc_count rc")
    case True
    then have "intr_next rc = ((0, None), rc\<lparr>rc_cursor := rc_cursor rc\<rparr>)" by (subst intr_next.simps) simp
    then show ?thesis using True length_entries [OF "1.prems"] by (simp add: exI [of _ "rc_cursor rc"])
  next
    case False
    let ?e = "rc_list rc ! rc_cursor rc" and ?r = "rc\<lparr>rc_cursor := rc_cursor rc + 1\<rparr>"
    have d: "drop (rc_cursor rc) (entries rc) = ?e # drop (rc_cursor rc + 1) (entries rc)"
      using False length_entries [OF "1.prems"] entries_nth [of "rc_cursor rc" rc] by (simp add: Cons_nth_drop_Suc [symmetric])
    show ?thesis
    proof (cases "ea_count ?e = 0")
      case True
      then have "intr_next rc = intr_next ?r" using False by (subst intr_next.simps) (simp add: Let_def)
      moreover have "\<not> ea_count ?e \<noteq> 0" using True by simp
      note "1.IH" [OF False refl refl this]
      ultimately show ?thesis unfolding d using True "1.prems" by (auto split: list.splits)
    next
      case False': False
      then have "intr_next rc = ((ea_blk ?e, Some (ea_count ?e)), ?r)" using False by (subst intr_next.simps) (simp add: Let_def)
      then show ?thesis unfolding d using False False' by (simp add: exI [of _ "rc_cursor rc + 1"])
    qed
  qed
qed

lemma drain_counts_eq:
  assumes "refcount_ok rc" "rc_count rc - rc_cursor rc \<le> n"
  shows "drain_counts n rc = map (\<lambda>e. (ea_blk e, ea_count e)) (filter (\<lambda>e. ea_count e \<noteq> 0) (drop (rc_cursor rc) (entries rc)))"
  using assms
proof (induction n arbitrary: rc)
  case 0
  then show ?case using length_entries [OF 0(1)] by simp
next
  case (Suc n)
  show ?case
  proof (cases "filter (\<lambda>e. ea_count e \<noteq> 0) (drop (rc_cursor rc) (entries rc))")
    case Nil
    then obtain c where "intr_next rc = ((0, None), rc\<lparr>rc_cursor := c\<rparr>)" using intr_next_spec [OF Suc.prems(1)] by auto
    then show ?thesis unfolding Nil by simp
  next
    case (Cons e es)
    then obtain c where c: "intr_next rc = ((ea_blk e, Some (ea_count e)), rc\<lparr>rc_cursor := c\<rparr>)" "rc_cursor rc < c" "c \<le> rc_count rc"
      "filter (\<lambda>e. ea_count e \<noteq> 0) (drop c (entries rc)) = es" using intr_next_spec [OF Suc.prems(1)] by auto
    have "drain_counts n (rc\<lparr>rc_cursor := c\<rparr>) = map (\<lambda>e. (ea_blk e, ea_count e)) es"
      using Suc.IH [of "rc\<lparr>rc_cursor := c\<rparr>"] Suc.prems c(2,4) by simp
    then show ?thesis unfolding Cons using c(1) by simp
  qed
qed

text \<open>
  C29: an iteration over the table delivers each block that has a count exactly once, in increasing order and with its
  count, and then ends, after at most as many calls as there are entries.
\<close>

theorem ea_refcount_iterates:
  assumes "refcount_ok rc" "rc_count rc \<le> n"
  shows "sorted_wrt (<) (map fst (drain_counts n (ea_refcount_intr_begin rc))) \<and>
     set (drain_counts n (ea_refcount_intr_begin rc)) = {(blk, c). c = count_of (entries rc) blk \<and> c \<noteq> 0}"
proof -
  have d: "drain_counts n (ea_refcount_intr_begin rc) = map (\<lambda>e. (ea_blk e, ea_count e)) (filter (\<lambda>e. ea_count e \<noteq> 0) (entries rc))"
    using drain_counts_eq [of "ea_refcount_intr_begin rc" n] assms by (simp add: ea_refcount_intr_begin_def)
  have s: "sorted_wrt (<) (map ea_blk (entries rc))" using assms(1) by (simp add: refcount_ok_def)
  then have "sorted_wrt (<) (map ea_blk (filter (\<lambda>e. ea_count e \<noteq> 0) (entries rc)))" by (simp add: sorted_wrt_map sorted_wrt_filter)
  moreover have "(blk, c) \<in> (\<lambda>e. (ea_blk e, ea_count e)) ` {e \<in> set (entries rc). ea_count e \<noteq> 0} \<longleftrightarrow> c = count_of (entries rc) blk \<and> c \<noteq> 0" for blk c
  proof -
    have e: "count_of (entries rc) (ea_blk e) = ea_count e" if "e \<in> set (entries rc)" for e
      using that count_of_nth(1) [OF s] by (metis in_set_conv_nth)
    have "\<exists>e \<in> set (entries rc). ea_blk e = blk" if "count_of (entries rc) blk \<noteq> 0" using that count_of_notin [of blk "entries rc"] by auto
    then show ?thesis using e by (auto simp: image_iff) metis
  qed
  ultimately show ?thesis unfolding d by (auto simp: comp_def)
qed

theorem ea_refcount_iterates_witness: "set (drain_counts 2 (ea_refcount_intr_begin sample_used)) = {(7, 2)}"
proof -
  have u: "refcount_ok sample_used" "entries sample_used = [\<lparr>ea_blk = 7, ea_count = 2\<rparr>, \<lparr>ea_blk = 9, ea_count = 0\<rparr>]"
    by (simp_all add: refcount_ok_def sample_used_def entries_def)
  have "{(blk, c). c = count_of (entries sample_used) blk \<and> c \<noteq> 0} = {(7, 2)}" unfolding u(2) by (auto split: if_splits)
  then show ?thesis using ea_refcount_iterates [OF u(1), of 2] by (simp add: sample_used_def)
qed

end
