(* ===== verification/Spec2Isabelle.thy ===== *)
theory Spec2Isabelle
  imports Ext2_Balloc Ext2_Hash Ext2_Statfs Ext2_Lookup E2fsck_Region E2fs_Badblocks E2fsck_Refcount
begin

text \<open>
  A verification development for ext2fsX, the port of the ext2 file system to the kernel of OS X. The driver is under
  \<^verbatim>\<open>src/src/gnu/ext2fs\<close>, with its interface to the host kernel in \<^verbatim>\<open>src/src/kern\<close>; the repository also holds the tools of
  e2fsprogs, under \<^verbatim>\<open>src/src/e2fsprogs\<close>, of which three data structures are modelled.

  \<^bold>\<open>The program.\<close> A mount (\<^verbatim>\<open>ext2_vfsops.c\<close>) reads the super block and the group descriptors and computes the super
  block in core. The vnode operations find files by name (\<^verbatim>\<open>ext2_lookup.c\<close>), read their inodes
  (\<^verbatim>\<open>ext2_vget_internal\<close>, \<^verbatim>\<open>ext2_inode_cnv.c\<close>), and map blocks of files to blocks of the volume
  (\<^verbatim>\<open>ext2_bmap.c\<close>), allocating them where needed (\<^verbatim>\<open>ext2_balloc.c\<close>, on top of \<^verbatim>\<open>ext2_alloc.c\<close>, which keeps blocks set aside
  for an inode). Blocks and inodes come from the two allocators (\<^verbatim>\<open>ext2_linux_balloc.c\<close>,
  \<^verbatim>\<open>ext2_linux_ialloc.c\<close>), which work on bitmaps with the bit operations of \<^verbatim>\<open>i386-bitops.h\<close> and keep
  the counts in the descriptors and the super block. \<^verbatim>\<open>ext2_sbupdate\<close> writes these back.

  \<^bold>\<open>Configuration.\<close> The model is the x86\_64 release build: little endian, so the
  \<^verbatim>\<open>le16_to_cpu\<close> family is the identity; \<^verbatim>\<open>EXT2_PREALLOCATE\<close> is on,
  \<^verbatim>\<open>FANCY_REALLOC\<close> and \<^verbatim>\<open>DIAGNOSTIC\<close> are off and the bitmap cache of the super
  block (\<^verbatim>\<open>EXT2_SB_BITMAP_CACHE\<close>) is off.

  \<^bold>\<open>Conventions.\<close> Structures are records and a routine returns the changed ones. A call of \<^verbatim>\<open>panic()\<close>, a trap
  and the use of a wild pointer are the outcome \<open>Panic\<close>; errors are the left side of a sum. Integers are
  words, or natural numbers and integers with the conversions of C (\<open>ulong\<close>, \<open>uint32\<close>, \<open>int32\<close>) written out. Loops that
  need not end are partial functions into \<open>option\<close>, where \<open>None\<close> is a run that never ends: \<^verbatim>\<open>ext2_new_block\<close> and
  \<^verbatim>\<open>ext2_new_inode\<close>, which start over after some failures, \<^verbatim>\<open>test_root\<close>, and the loops of \<^verbatim>\<open>ext2_direnter\<close> and \<^verbatim>\<open>ext2_search_dirblock\<close>. That they return is part of what is
  proved of them; there is no fuel. The other loops are recursive with a termination proof.

  \<^bold>\<open>Theories.\<close>
  \<^item> \<open>Ext2_Prelude\<close>: machine integers, C conversions, routines that may panic, shared facts.
  \<^item> \<open>Ext2_Bitops\<close>: \<^verbatim>\<open>i386-bitops.h\<close>; the contract of a bitmap as the locale \<open>bit_store\<close>.
  \<^item> \<open>Ext2_Fs\<close>: the structures of \<^verbatim>\<open>ext2_fs.h\<close>, \<^verbatim>\<open>ext2_fs_sb.h\<close>, \<^verbatim>\<open>ext2_mount.h\<close> and \<^verbatim>\<open>inode.h\<close>, the macros of \<^verbatim>\<open>fs.h\<close>, the
    buffers of the device, and the descriptors as a table (locale \<open>table\<close>).
  \<^item> \<open>Ext2_Alloc_Spec\<close>: the contract of an allocator, the locale \<open>resource_allocator\<close>, with its lemmas on histories.
  \<^item> \<open>Ext2_Balloc_Linux\<close>, \<open>Ext2_Ialloc\<close>: \<^verbatim>\<open>ext2_linux_balloc.c\<close> and \<^verbatim>\<open>ext2_linux_ialloc.c\<close>, their invariants \<open>balloc_wf\<close> and
    \<open>ialloc_wf\<close> and the interpretations of the contract; \<open>Ext2_Allocators\<close>: what the two promise to the rest of
    the driver, and the small volume at which properties are instantiated.
  \<^item> \<open>Ext2_Alloc\<close>: \<^verbatim>\<open>ext2_alloc.c\<close>, the blocks set aside for inodes.
  \<^item> \<open>Ext2_Bmap\<close>: \<^verbatim>\<open>ext2_bmap.c\<close>; \<open>Ext2_Balloc\<close>: \<^verbatim>\<open>ext2_balloc2\<close>, over the locale \<open>block_tree\<close> of the paths that \<^verbatim>\<open>ext2_getlbns\<close> delivers.
  \<^item> \<open>Ext2_Inode_Cnv\<close>: \<^verbatim>\<open>ext2_inode_cnv.c\<close>; \<open>Ext2_Mount\<close> and \<open>Ext2_Statfs\<close>: \<^verbatim>\<open>ext2_vfsops.c\<close>.
  \<^item> \<open>Ext2_Dir\<close>: the bytes of directory blocks; \<open>Ext2_Lookup\<close>: \<^verbatim>\<open>ext2_lookupi\<close> and what uses its results, from \<^verbatim>\<open>ext2_lookup.c\<close>;
    \<open>Ext2_Hash\<close>: \<^verbatim>\<open>ext2_hash.c\<close>.
  \<^item> \<open>E2fsck_Region\<close>, \<open>E2fsck_Refcount\<close>, \<open>E2fs_Badblocks\<close>: \<^verbatim>\<open>e2fsck/region.c\<close>, \<^verbatim>\<open>e2fsck/ea_refcount.c\<close> and
    \<^verbatim>\<open>lib/ext2fs/badblocks.c\<close>, with the locales \<open>count_table\<close> and \<open>block_set\<close>.

  \<^bold>\<open>What is shown.\<close>
  \<^item> The allocators, on a well-formed volume (bitmaps, counts and layout agree): they return, do not panic, take what was
    free, free what is given back, report exhaustion exactly when nothing is free, keep the volume well formed, and over any
    history hand nothing out twice (C1, C5, C8 to C12, C32). Two defects are stated as theorems (C39, C40).
  \<^item> Allocation for inodes: the blocks a file system holds for somebody change by exactly the block handed out, and the blocks
    set aside for one inode are safe from others (C14 to C16).
  \<^item> Block mapping: the path of a block is right and unique, \<^verbatim>\<open>ext2_bmaparray\<close> follows it, and \<^verbatim>\<open>ext2_balloc2\<close> extends the
    tree of a file by exactly the path asked for, without loss on its error paths (C2, C17 to C20). Its hypotheses are
    needed: a direct block at the end of the file makes it panic (C38), and a failed synchronous write of an indirect block is ignored and loses a
    block. C13 composes reading an inode with writing the file.
  \<^item> Mounting: what a successful mount establishes for the allocators, which volumes are refused, that unmounting restores the
    state, and what is written back (C21 to C24); inode conversions and positions (C25, C37); statistics (C35, C36).
  \<^item> Directories: entering and removing on the bytes of a block, the search with the slot it finds, and the two
    together, the truncation of the directory included (C3, C4, C6, C7, C30, C31); the name hash (C33, C34).
  \<^item> The structures of e2fsprogs refine a set, a function to counts and a set of addresses (C26 to C29).

  \<^bold>\<open>Parameters.\<close> The buffer cache, \<^verbatim>\<open>EXT2_VGET\<close>, authorization, memory allocation and the time belong to the host
  kernel and are arguments: reads and writes fail as the argument tells. A failed synchronous write drops the buffer, which
  is what \<^verbatim>\<open>buf_bwrite\<close> does, so the next read delivers what is on the disk.

  \<^bold>\<open>Bounds.\<close> Directories are shorter than \<open>2\<^sup>3\<^sup>1\<close> bytes, the range of \<^verbatim>\<open>doff_t\<close>; a file that is read has at most
  \<open>2\<^sup>3\<^sup>1 - 1\<close> blocks; indirect blocks hold 4 to \<open>2\<^sup>1\<^sup>5\<close> pointers (\<open>nindir_ok\<close>), and for \<^verbatim>\<open>ext2_balloc2\<close> so many that every block of
  the triple indirect range has a number of 31 bits, which is so for blocks of up to 4096 bytes. The tables of e2fsck stay below \<open>2\<^sup>3\<^sup>0\<close> cells.

  \<^bold>\<open>Not modelled.\<close> Locks and sleeping, since every routine is one sequential step; \<^verbatim>\<open>ext2_vnops.c\<close> and \<^verbatim>\<open>ext2_readwrite.c\<close>, which
  pass arguments of the host to the routines modelled here and to its caches; \<^verbatim>\<open>ext2_truncate\<close>, \<^verbatim>\<open>ext2_indirtrunc\<close>
  and \<^verbatim>\<open>ext2_update\<close>; \<^verbatim>\<open>ext2_valloc\<close>; indexed directories except for their hash; \<^verbatim>\<open>ext2_readdir\<close> and \<^verbatim>\<open>ext2_checkpath\<close>; the hash table of inodes,
  advisory locks, checksums; the rest of e2fsprogs and the programs and user interfaces of the port.
\<close>

section \<open>Specifications\<close>

text \<open>An empty regular file on disk, for the example below.\<close>

definition empty_disk_inode :: ext2_inode where
  "empty_disk_inode = \<lparr>ei_mode = 0x81A4, ei_uid = 0, ei_size = 0, ei_atime = 0, ei_ctime = 0, ei_mtime = 0, ei_dtime = 0, ei_gid = 0,
     ei_links_count = 1, ei_blocks = 0, ei_flags = 0, ei_block = replicate 15 0, ei_generation = 0, ei_size_high = 0, ei_uid_high = 0, ei_gid_high = 0\<rparr>"

section \<open>Properties that span components\<close>

text \<open>
  C13: a file whose inode was just read from disk can be written. \<^verbatim>\<open>ext2_vget_internal\<close> drops the direct pointers behind the end
  of the file and starts without blocks set aside, and with that \<^verbatim>\<open>ext2_balloc2\<close> neither panics for any block
  of the file nor takes a block that is used: the blocks used afterwards are those used before and those on the
  path to the block. The size of the file is at most \<open>2\<^sup>3\<^sup>1 - 1\<close> blocks, since \<^verbatim>\<open>ext2_vget_internal\<close> counts its
  blocks in an \<^verbatim>\<open>int\<close>. Reads may fail; so may writes, except under \<^verbatim>\<open>B_SYNC\<close> on the path (\<open>sync_ok\<close>).
\<close>

theorem vget_balloc2:
  assumes "vget_inode hf no_uid32 (um_e2fs m) ino create ei cleared = Return ip"
    and "ip0 = ext2_ei2i hf no_uid32 ei (cleared\<lparr>i_number := ino\<rparr>)" "S_ISDIR (i_mode ip0) \<or> S_ISREG (i_mode ip0)" "i_size ip0 \<le> (2 ^ 31 - 1) * (4 * n)"
    and "balloc_wf m" "um_nindir m = n" "s_blocksize (um_e2fs m) = 4 * n" "e2fs_fsize (um_e2fs m) = 4 * n" "s_qbmask (um_e2fs m) = 4 * n - 1" "4 * n = 2 ^ k"
    and "nindir_ok n" "level_base n 4 \<le> 2 ^ 31" "0 \<le> bn" "bn < 2 ^ 31" "0 < sz" "sz \<le> int (4 * n)"
    and "file_ok n ip v" "blocks_to n ip (v_ptrs v) bn \<subseteq> used_blocks m"
    and "\<forall>p. ext2_getlbns n bn = Inr p \<longrightarrow> sync_ok fl v p"
  shows "held_blocks m ip = used_blocks m \<and> (\<exists>r ip' m' v'. ext2_balloc2 env fl bn sz (ip, m, v) = Some (Return (r, ip', m', v')) \<and>
     mount_ok n ip' m' \<and> file_ok n ip' v' \<and> held_blocks m' ip' = used_blocks m \<union> blocks_to n ip' (v_ptrs v') bn \<and>
     blocks_to n ip' (v_ptrs v') bn \<inter> used_blocks m = blocks_to n ip (v_ptrs v) bn)"
proof -
  have n: "0 < n" using assms(10) by (cases n) auto
  have bs: "4 * n < 2 ^ 31" using assms(11) by (simp add: nindir_ok_def)
  have sz: "0 < s_blocksize (um_e2fs m)" "i_size ip0 \<le> (2 ^ 31 - 1) * s_blocksize (um_e2fs m)" "s_blocksize (um_e2fs m) < 2 ^ 31"
    using assms(4,7) n bs by simp_all
  have f: "i_size ip = i_size ip0" "i_prealloc_count ip = 0" "i_db ip = map (\<lambda>i. if i * (4 * n) < i_size ip0 then i_db ip0 ! i else 0) [0..<12]"
    using vget_inode_fresh [OF sz(1) assms(3) sz(2,3) assms(2), of create] assms(1,7) by auto
  have pr: "prealloc_run ip = {}" using f(2) by (simp add: prealloc_run_def)
  then have held: "held_blocks m ip = used_blocks m" by (simp add: held_blocks_def)
  have mo: "mount_ok n ip m" using assms(5-8) f(2) n bs by (simp add: mount_ok_def prealloc_ok_def)
  have "direct_ok n ip m bn sz"
    unfolding direct_ok_def using assms(9,10,13,15,16) f by (auto simp: nat_less_iff split: if_splits)
  moreover have "blocks_to n ip (v_ptrs v) bn \<subseteq> held_blocks m ip" using assms(18) held by simp
  ultimately have "mapped n bn (ip, m, v) (ext2_balloc2 env fl bn sz (ip, m, v))" using balloc2_mapped [OF assms(11-14) mo assms(17) _ _ assms(19)] by blast
  then show ?thesis unfolding mapped_def prod.case held by blast
qed

lemma empty_file_read:
  "\<exists>ip. vget_inode hf True (um_e2fs tiny_mount) 12 None empty_disk_inode tiny_file = Return ip \<and> i_db ip = replicate 12 0 \<and> i_ib ip = replicate 3 0"
proof -
  let ?ip0 = "ext2_ei2i hf True empty_disk_inode (tiny_file\<lparr>i_number := 12\<rparr>)"
  have r: "[0..<12] = [0, 1, 2, 3, 4, 5, 6, 7, 8, 9, 10, 11::nat]" "[0..<3] = [0, 1, 2::nat]" by (simp_all add: upt_rec)
  have f: "i_mode ?ip0 = 0x81A4" "i_size ?ip0 = 0" "i_ib ?ip0 = replicate 3 0"
    by (simp_all add: ext2_ei2i_def Let_def empty_disk_inode_def S_ISREG_def r numeral_3_eq_3)
  have "s_blocksize (um_e2fs tiny_mount) = 32" by (simp add: tiny_mount_def tiny_sb_def)
  then obtain ip where "vget_inode hf True (um_e2fs tiny_mount) 12 None empty_disk_inode tiny_file = Return ip" "i_ib ip = i_ib ?ip0"
    "i_db ip = map (\<lambda>i. if i * 32 < i_size ?ip0 then i_db ?ip0 ! i else 0) [0..<12]"
    using vget_inode_fresh [OF _ _ _ _ refl, of "um_e2fs tiny_mount" hf True empty_disk_inode 12 tiny_file None] f by (auto simp: S_ISREG_def)
  then show ?thesis using f by (simp add: map_replicate_const)
qed

theorem vget_balloc2_witness:
  "\<exists>ip r ip' m' v'. vget_inode \<lparr>APPEND = 4, IMMUTABLE = 2\<rparr> True (um_e2fs tiny_mount) 12 None empty_disk_inode tiny_file = Return ip \<and>
     ext2_balloc2 tiny_env tiny_flags 12 32 (ip, tiny_mount, empty_vbufs) = Some (Return (r, ip', m', v'))"
proof -
  let ?hf = "\<lparr>APPEND = 4, IMMUTABLE = 2\<rparr>" and ?fs = "um_e2fs tiny_mount"
  obtain ip where v: "vget_inode ?hf True ?fs 12 None empty_disk_inode tiny_file = Return ip"
    "i_db ip = replicate 12 0" "i_ib ip = replicate 3 0" using empty_file_read [of ?hf] by blast
  let ?ip0 = "ext2_ei2i ?hf True empty_disk_inode (tiny_file\<lparr>i_number := 12\<rparr>)"
  have f: "S_ISDIR (i_mode ?ip0) \<or> S_ISREG (i_mode ?ip0)" "i_size ?ip0 \<le> (2 ^ 31 - 1) * (4 * 8)"
    by (simp_all add: ext2_ei2i_def Let_def empty_disk_inode_def S_ISREG_def)
  have m: "um_nindir tiny_mount = 8" "s_blocksize ?fs = 4 * 8" "e2fs_fsize ?fs = 4 * 8" "s_qbmask ?fs = 4 * 8 - 1" "4 * 8 = (2::nat) ^ 5"
    by (simp_all add: tiny_mount_def tiny_sb_def)
  have d: "i_db tiny_file = replicate 12 0" "i_ib tiny_file = replicate 3 0" by (simp_all add: tiny_file_def tiny_dir_def)
  have fo: "file_ok 8 ip empty_vbufs" using tiny_balloc_ok(4) unfolding file_ok_def d v(2,3) .
  have "blocks_to 8 ip (v_ptrs empty_vbufs) 12 = blocks_to 8 tiny_file (v_ptrs empty_vbufs) 12"
    by (simp only: blocks_to_def d v(2,3))
  then have "blocks_to 8 ip (v_ptrs empty_vbufs) 12 \<subseteq> used_blocks tiny_mount" using tiny_balloc_ok(6) by (auto simp: held_blocks_def)
  moreover have "\<forall>p. ext2_getlbns 8 12 = Inr p \<longrightarrow> sync_ok tiny_flags empty_vbufs p" by (simp add: sync_ok_def tiny_flags_def)
  ultimately show ?thesis
    using vget_balloc2 [OF v(1) refl f tiny_fs_wf(2) m tiny_balloc_ok(1,2) _ _ _ _ fo, of 12 32 tiny_flags tiny_env] v(1) by auto
qed

end
